(* ===== verification/HZ_Prelude.thy ===== *)
theory HZ_Prelude
  imports Main "HOL-Library.Word"
begin

text \<open>
  The vocabulary shared by every component of the client.

  \<^item> the machine types the C++ code uses, as words of their width; \<open>size_t\<close> is a
    natural number whose wrap-around is written out by \<open>usize_add\<close> and \<open>usize_sub\<close>;
  \<^item> the errors the code raises, as values of \<open>hz_error\<close>; a C++ construct whose behaviour is
    undefined is the value \<open>UndefinedBehaviour\<close>, the exceptions of the standard library and of
    \<open>boost::any\<close> are \<open>LengthError\<close>, \<open>OutOfRange\<close>, \<open>BadFunctionCall\<close> and \<open>BadCast\<close>, a failing \<open>assert\<close> is \<open>AssertFailure\<close> and a
    loop that never ends is \<open>Diverges\<close>;
  \<^item> a state and error monad: a member function that may throw is a function from the state of
    its object to an error, or to its result and the new state;
  \<^item> byte order: little and big endian images of words, and in-place updates of byte vectors.

  The generic lemmas on byte images are exported through the locale \<open>fixed_width\<close>, which is
  interpreted for every integer width the wire formats use.
\<close>

unbundle bit_operations_syntax

section \<open>Types\<close>

type_synonym byte = "8 word"
type_synonym i8 = "8 word"
type_synonym i16 = "16 word"
type_synonym i32 = "32 word"
type_synonym i64 = "64 word"

datatype hz_error =
    HazelcastSerialization
  | IO
  | IllegalArgument
  | IllegalState
  | NullPointer
  | IndexOutOfBounds
  | HazelcastOverload
  | HazelcastError
  | OperationTimeout
  | TargetDisconnected
  | HazelcastClientNotActive
  | HazelcastClientOffline
  | NoSuchElement
  | QueryError
  | TransactionError
  | TransactionNotActive
  | IllegalMonitorState
  | ConsistencyLost
  | NoDataMember
  | UnsupportedOperation
  | SessionExpired
  | LockOwnershipLost
  | LockAcquireLimitReached
  | WaitKeyCancelled
  | InvalidConfiguration
  | ClassCast
  | UndefinedBehaviour
  | LengthError
  | OutOfRange
  | BadCast
  | BadFunctionCall
  | AssertFailure
  | Diverges

type_synonym 'a res = "hz_error + 'a"
type_synonym ('s, 'a) sm = "'s \<Rightarrow> hz_error + ('a \<times> 's)"

named_theorems sm_defs "the combinators of the state and error monad"

section \<open>Unsigned machine arithmetic on size\<close>

definition usize_max :: nat where
  "usize_max = 2 ^ 64"

definition usize_add :: "nat \<Rightarrow> nat \<Rightarrow> nat" where
  "usize_add a b = (a + b) mod usize_max"

definition usize_sub :: "nat \<Rightarrow> nat \<Rightarrow> nat" where
  "usize_sub a b = nat ((int a - int b) mod int usize_max)"

definition i32_to_usize :: "i32 \<Rightarrow> nat" where
  "i32_to_usize w = nat (sint w mod int usize_max)"

lemma usize_add_exact: "a + b < usize_max \<Longrightarrow> usize_add a b = a + b"
  by (simp add: usize_add_def)

lemma usize_sub_exact:
  assumes "b \<le> a" "a < usize_max"
  shows "usize_sub a b = a - b"
proof -
  have "(int a - int b) mod int usize_max = int a - int b"
    using assms by (intro mod_pos_pos_trivial) auto
  then show ?thesis
    using assms by (simp add: usize_sub_def nat_diff_distrib)
qed

lemma usize_sub_wraps:
  assumes "a < b" "b \<le> usize_max"
  shows "usize_sub a b = usize_max + a - b"
proof -
  have "(int a - int b) mod int usize_max = int a - int b + int usize_max"
    using assms by (subst mod_add_self2 [symmetric], intro mod_pos_pos_trivial) auto
  then show ?thesis
    using assms by (simp add: usize_sub_def)
qed

lemma unat_less_pow: "unat (w :: 'a::len word) < 2 ^ LENGTH('a)"
  by (rule unsigned_less)

lemma sint_word_of_int_id:
  assumes "- (2 ^ (LENGTH('a) - 1)) \<le> x" "x < 2 ^ (LENGTH('a) - 1)"
  shows "sint (word_of_int x :: 'a::len word) = x"
  using assms by (simp add: sint_sbintrunc' signed_take_bit_int_eq_self)

lemma sint_unat:
  assumes "unat (w :: 'a::len word) < 2 ^ (LENGTH('a) - 1)"
  shows "sint w = int (unat w)"
proof -
  have "w = word_of_int (int (unat w))"
    by simp
  then show ?thesis
    using assms sint_word_of_int_id [where 'a = 'a and x = "int (unat w)"]
    by (metis neg_le_0_iff_le of_nat_0_le_iff of_nat_less_numeral_power_cancel_iff order_trans
        zero_le_numeral zero_le_power)
qed

lemma sint_nonneg_unat:
  assumes "0 \<le> sint (w :: 'a::len word)"
  shows "sint w = int (unat w)" "unat w < 2 ^ (LENGTH('a) - 1)"
proof -
  have "(2 :: int) ^ (LENGTH('a) - 1) \<le> 2 ^ LENGTH('a)"
    by (rule power_increasing) simp_all
  then have "sint w < 2 ^ LENGTH('a)"
    using sint_lt [of w] by (rule less_le_trans [rotated])
  then have "take_bit LENGTH('a) (sint w) = sint w"
    using assms by (intro take_bit_int_eq_self)
  then have "uint w = sint w"
    by (simp add: uint_sint)
  then show s: "sint w = int (unat w)"
    by simp
  show "unat w < 2 ^ (LENGTH('a) - 1)"
    using sint_lt [of w] unfolding s by (metis of_nat_less_numeral_power_cancel_iff)
qed

lemma signed_drop_bit_nonneg:
  assumes "unat (w :: 'a::len word) < 2 ^ (LENGTH('a) - 1)"
  shows "signed_drop_bit n w = drop_bit n w"
proof (rule bit_word_eqI)
  fix k
  assume "k < LENGTH('a)"
  have top: "\<not> bit w m" if "LENGTH('a) - 1 \<le> m" for m
  proof -
    have "(2 :: nat) ^ (LENGTH('a) - 1) \<le> 2 ^ m"
      using that by (rule power_increasing) simp
    then have "take_bit m (unat w) = unat w"
      using assms by (intro take_bit_nat_eq_self) (rule less_le_trans)
    then have "\<not> bit (unat w) m"
      by (metis bit_take_bit_iff less_irrefl)
    then show ?thesis
      by (simp add: bit_unsigned_iff)
  qed
  show "bit (signed_drop_bit n w) k = bit (drop_bit n w) k"
    using top [of "n + k"] top [of "LENGTH('a) - 1"]
    by (auto simp: bit_simps dest: bit_imp_le_length)
qed

lemma unat_push_bit:
  "unat (w :: 'a::len word) * 2 ^ n < 2 ^ LENGTH('a) \<Longrightarrow> unat (push_bit n w) = unat w * 2 ^ n"
  by (simp only: unsigned_push_bit_eq) (simp add: push_bit_eq_mult take_bit_nat_eq_self)

lemma i32_to_usize_exact:
  assumes "0 \<le> sint w"
  shows "i32_to_usize w = unat w"
proof -
  have "uint w = take_bit 32 (sint w)"
    by (simp add: uint_sint)
  also have "\<dots> = sint w"
    using assms sint_lt [of w] by (simp add: take_bit_int_eq_self)
  finally have "uint w = sint w" .
  moreover have "unat w < usize_max"
    using unat_less_pow [of w] by (simp add: usize_max_def)
  ultimately have "sint w mod int usize_max = int (unat w)"
    by (metis mod_less of_nat_unat zmod_int)
  then show ?thesis
    unfolding i32_to_usize_def by (simp only: nat_int)
qed

lemma sint_nonneg_of_nat:
  assumes "n < 2 ^ 31"
  shows "0 \<le> sint (of_nat n :: i32)"
proof -
  have "sint (of_nat n :: i32) = int n"
    using assms by (simp add: sint_uint unsigned_of_nat take_bit_nat_eq_self signed_take_bit_eq
        take_bit_int_eq_self_iff take_bit_int_eq_self signed_take_bit_int_eq_self)
  then show ?thesis
    by simp
qed

lemma i32_to_usize_of_nat [simp]:
  assumes "n < 2 ^ 31"
  shows "i32_to_usize (of_nat n) = n"
  using assms i32_to_usize_exact [OF sint_nonneg_of_nat [OF assms]]
  by (simp add: unsigned_of_nat take_bit_nat_eq_self)

section \<open>The state and error monad\<close>

definition sreturn :: "'a \<Rightarrow> ('s, 'a) sm" where [sm_defs]:
  "sreturn v = (\<lambda>s. Inr (v, s))"

definition sfail :: "hz_error \<Rightarrow> ('s, 'a) sm" where [sm_defs]:
  "sfail e = (\<lambda>s. Inl e)"

definition sbind :: "('s, 'a) sm \<Rightarrow> ('a \<Rightarrow> ('s, 'b) sm) \<Rightarrow> ('s, 'b) sm" where [sm_defs]:
  "sbind f g = (\<lambda>s. case f s of Inl e \<Rightarrow> Inl e | Inr (v, s') \<Rightarrow> g v s')"

definition sthen :: "('s, 'a) sm \<Rightarrow> ('s, 'b) sm \<Rightarrow> ('s, 'b) sm" where [sm_defs]:
  "sthen f g = sbind f (\<lambda>_. g)"

definition sguard :: "bool \<Rightarrow> hz_error \<Rightarrow> ('s, unit) sm" where [sm_defs]:
  "sguard b e = (\<lambda>s. if b then Inr ((), s) else Inl e)"

fun sseq :: "('s, unit) sm list \<Rightarrow> ('s, unit) sm" where
  "sseq [] = sreturn ()"
| "sseq (f # fs) = sthen f (sseq fs)"

fun siter :: "('a \<Rightarrow> ('s, unit) sm) \<Rightarrow> 'a list \<Rightarrow> ('s, unit) sm" where
  "siter f [] = sreturn ()"
| "siter f (x # xs) = sthen (f x) (siter f xs)"

fun srepeat :: "nat \<Rightarrow> ('s, 'a) sm \<Rightarrow> ('s, 'a list) sm" where
  "srepeat 0 f = sreturn []"
| "srepeat (Suc n) f = sbind f (\<lambda>x. sbind (srepeat n f) (\<lambda>xs. sreturn (x # xs)))"

lemma sbind_Inr [simp]: "f s = Inr (v, s') \<Longrightarrow> sbind f g s = g v s'"
  by (simp add: sbind_def)

lemma sbind_Inl [simp]: "f s = Inl e \<Longrightarrow> sbind f g s = Inl e"
  by (simp add: sbind_def)

lemma sthen_Inr [simp]: "f s = Inr (v, s') \<Longrightarrow> sthen f g s = g s'"
  by (simp add: sthen_def)

lemma sthen_Inl [simp]: "f s = Inl e \<Longrightarrow> sthen f g s = Inl e"
  by (simp add: sthen_def)

lemma sreturn_apply [simp]: "sreturn v s = Inr (v, s)"
  by (simp add: sreturn_def)

lemma sfail_apply [simp]: "sfail e s = Inl e"
  by (simp add: sfail_def)

lemma sguard_apply [simp]: "sguard b e s = (if b then Inr ((), s) else Inl e)"
  by (simp add: sguard_def)

lemma sbind_InrE:
  assumes "sbind f g s = Inr (v, t)"
  obtains u s' where "f s = Inr (u, s')" "g u s' = Inr (v, t)"
  using assms by (auto simp: sbind_def split: sum.splits prod.splits)

lemma sthen_InrE:
  assumes "sthen f g s = Inr (v, t)"
  obtains u s' where "f s = Inr (u, s')" "g s' = Inr (v, t)"
  using assms by (auto simp: sthen_def elim: sbind_InrE)

lemma sbind_assoc: "sbind (sbind f g) h = sbind f (\<lambda>x. sbind (g x) h)"
  by (auto simp: sbind_def split: sum.splits prod.splits)

lemma sbind_sreturn [simp]: "sbind (sreturn v) g = g v"
  by (simp add: sbind_def sreturn_def)

lemma sreturn_sbind [simp]: "sbind f sreturn = f"
  by (auto simp: sbind_def sreturn_def split: sum.splits prod.splits)

lemma siter_append: "siter f (xs @ ys) = sthen (siter f xs) (siter f ys)"
  by (induction xs) (simp_all add: sthen_def sbind_assoc)

section \<open>Byte vectors\<close>

definition slice :: "nat \<Rightarrow> nat \<Rightarrow> 'a list \<Rightarrow> 'a list" where
  "slice p n xs = take n (drop p xs)"

definition overwrite :: "nat \<Rightarrow> 'a list \<Rightarrow> 'a list \<Rightarrow> 'a list" where
  "overwrite p ys xs = take p xs @ ys @ drop (p + length ys) xs"

lemma length_slice [simp]: "p + n \<le> length xs \<Longrightarrow> length (slice p n xs) = n"
  by (simp add: slice_def)

lemma length_overwrite [simp]:
  "p + length ys \<le> length xs \<Longrightarrow> length (overwrite p ys xs) = length xs"
  by (simp add: overwrite_def)

lemma slice_overwrite_same [simp]:
  "p + length ys \<le> length xs \<Longrightarrow> n = length ys \<Longrightarrow> slice p n (overwrite p ys xs) = ys"
  by (simp add: slice_def overwrite_def)

lemma slice_overwrite_before:
  "q + n \<le> p \<Longrightarrow> p + length ys \<le> length xs \<Longrightarrow> slice q n (overwrite p ys xs) = slice q n xs"
  by (simp add: slice_def overwrite_def take_drop min_def)

lemma slice_overwrite_after:
  "p + length ys \<le> q \<Longrightarrow> p + length ys \<le> length xs \<Longrightarrow>
    slice q n (overwrite p ys xs) = slice q n xs"
  by (simp add: slice_def overwrite_def)

lemma slice_append_left: "p + n \<le> length xs \<Longrightarrow> slice p n (xs @ ys) = slice p n xs"
  by (simp add: slice_def)

lemma slice_append_right: "slice (length xs) (length ys) (xs @ ys @ zs) = ys"
  by (simp add: slice_def)

section \<open>Byte order\<close>

fun le_bytes :: "nat \<Rightarrow> 'a::len word \<Rightarrow> byte list" where
  "le_bytes 0 w = []"
| "le_bytes (Suc n) w = ucast w # le_bytes n (drop_bit 8 w)"

fun le_word :: "byte list \<Rightarrow> 'a::len word" where
  "le_word [] = 0"
| "le_word (b # bs) = ucast b OR push_bit 8 (le_word bs)"

definition be_bytes :: "nat \<Rightarrow> 'a::len word \<Rightarrow> byte list" where
  "be_bytes n w = rev (le_bytes n w)"

definition be_word :: "byte list \<Rightarrow> 'a::len word" where
  "be_word bs = le_word (rev bs)"

lemma length_le_bytes [simp]: "length (le_bytes n w) = n"
  by (induction n arbitrary: w) auto

lemma length_be_bytes [simp]: "length (be_bytes n w) = n"
  by (simp add: be_bytes_def)

lemma le_word_le_bytes: "le_word (le_bytes n w) = take_bit (8 * n) w"
proof (induction n arbitrary: w)
  case 0
  then show ?case by simp
next
  case (Suc n)
  show ?case
    by (rule bit_eqI) (auto simp: Suc.IH bit_simps)
qed

lemma bit_byte_bound: "bit (b :: byte) n \<Longrightarrow> n < 8"
  by (auto dest: bit_imp_le_length)

lemma bit_le_word_bound: "bit (le_word bs :: 'a::len word) i \<Longrightarrow> i < 8 * length bs"
proof (induction bs arbitrary: i)
  case (Cons b bs)
  from Cons.prems consider "bit b i" | "8 \<le> i" "bit (le_word bs :: 'a word) (i - 8)"
    by (auto simp: bit_simps)
  then show ?case
    using Cons.IH [of "i - 8"] by cases (auto dest: bit_byte_bound)
qed simp

lemma le_bytes_le_word:
  "8 * length bs \<le> LENGTH('a) \<Longrightarrow> le_bytes (length bs) (le_word bs :: 'a::len word) = bs"
proof (induction bs)
  case Nil
  then show ?case by simp
next
  case (Cons b bs)
  have "drop_bit 8 (le_word (b # bs) :: 'a word) = le_word bs"
    using Cons.prems
    by (auto intro!: bit_eqI simp: bit_simps dest: bit_byte_bound)
       (fastforce dest: bit_le_word_bound)+
  moreover have "ucast (le_word (b # bs) :: 'a word) = b"
    using Cons.prems
    by (auto intro!: bit_eqI simp: bit_simps dest: bit_byte_bound)
  ultimately show ?case
    using Cons by simp
qed

lemma le_image [simp]:
  "length bs = n \<Longrightarrow> 8 * n \<le> LENGTH('a) \<Longrightarrow> le_bytes n (le_word bs :: 'a::len word) = bs"
  using le_bytes_le_word by blast

lemma take_le_bytes: "take k (le_bytes n w) = le_bytes (min k n) w"
proof (induction n arbitrary: k w)
  case (Suc n)
  then show ?case by (cases k) auto
qed simp

lemma drop_le_bytes: "drop k (le_bytes n w) = le_bytes (n - k) (drop_bit (8 * k) w)"
proof (induction n arbitrary: k w)
  case (Suc n)
  then show ?case by (cases k) (auto simp: add.commute)
qed simp

lemma le_word_append: "le_word (xs @ ys) = le_word xs OR push_bit (8 * length xs) (le_word ys)"
  by (induction xs) (simp_all add: push_bit_or or.assoc add.commute)

lemma le_bytes_bits: "le_bytes n w = map (\<lambda>i. ucast (drop_bit (8 * i) w)) [0..<n]"
  by (induction n arbitrary: w)
     (simp_all add: upt_conv_Cons map_Suc_upt [symmetric] add.commute del: upt_Suc)

lemma le_bytes_scast:
  assumes "8 * n \<le> LENGTH('b)" "8 * n \<le> LENGTH('a)"
  shows "le_bytes n (scast (w :: 'b::len word) :: 'a::len word) = le_bytes n w"
proof -
  have "bit (ucast (drop_bit (8 * i) (scast w :: 'a word)) :: byte) k =
    bit (ucast (drop_bit (8 * i) w) :: byte) k" if "i < n" "k < 8" for i k
  proof -
    have "8 * i + k < 8 * n"
      using that by simp
    with assms have "min (LENGTH('b) - 1) (8 * i + k) = 8 * i + k" "8 * i + k < LENGTH('a)"
      "8 * i + k < LENGTH('b)"
      by auto
    with that show ?thesis
      by (simp add: bit_simps)
  qed
  then show ?thesis
    unfolding le_bytes_bits by (auto intro!: bit_word_eqI)
qed

locale fixed_width =
  fixes enc :: "'v \<Rightarrow> byte list"
    and dec :: "byte list \<Rightarrow> 'v"
    and width :: nat
  assumes length_enc [simp]: "length (enc v) = width"
    and dec_enc [simp]: "dec (enc v) = v"
    and enc_dec: "length bs = width \<Longrightarrow> enc (dec bs) = bs"
begin

lemma load_store [simp]:
  "p + width \<le> length xs \<Longrightarrow> dec (slice p width (overwrite p (enc v) xs)) = v"
  by simp

lemma store_load:
  assumes "p + width \<le> length xs"
  shows "overwrite p (enc (dec (slice p width xs))) xs = xs"
proof -
  have "enc (dec (slice p width xs)) = take width (drop p xs)"
    using enc_dec [of "slice p width xs"] assms by (simp add: slice_def)
  then show ?thesis
    using assms by (simp add: overwrite_def) (metis append_take_drop_id drop_drop add.commute)
qed

lemma enc_inj: "enc v = enc v' \<Longrightarrow> v = v'"
  by (metis dec_enc)

lemma enc_prefix_free: "enc v @ xs = enc v' @ ys \<Longrightarrow> v = v' \<and> xs = ys"
  using enc_inj by (metis append_eq_append_conv length_enc)

end

lemma le_full [simp]: "LENGTH('a) = 8 * n \<Longrightarrow> le_word (le_bytes n (w :: 'a::len word)) = w"
  by (simp add: le_word_le_bytes take_bit_word_eq_self)

interpretation le1: fixed_width "le_bytes 1 :: 8 word \<Rightarrow> byte list" le_word 1
  by unfold_locales (auto simp del: le_bytes.simps)

interpretation le2: fixed_width "le_bytes 2 :: 16 word \<Rightarrow> byte list" le_word 2
  by unfold_locales (auto simp del: le_bytes.simps)

interpretation le4: fixed_width "le_bytes 4 :: 32 word \<Rightarrow> byte list" le_word 4
  by unfold_locales (auto simp del: le_bytes.simps)

interpretation le8: fixed_width "le_bytes 8 :: 64 word \<Rightarrow> byte list" le_word 8
  by unfold_locales (auto simp del: le_bytes.simps)

lemma be_full [simp]: "LENGTH('a) = 8 * n \<Longrightarrow> be_word (be_bytes n (w :: 'a::len word)) = w"
  by (simp add: be_word_def be_bytes_def)

lemma be_image [simp]:
  "length bs = n \<Longrightarrow> 8 * n \<le> LENGTH('a) \<Longrightarrow> be_bytes n (be_word bs :: 'a::len word) = bs"
  by (simp add: be_word_def be_bytes_def)

interpretation be2: fixed_width "be_bytes 2 :: 16 word \<Rightarrow> byte list" be_word 2
  by unfold_locales auto

interpretation be4: fixed_width "be_bytes 4 :: 32 word \<Rightarrow> byte list" be_word 4
  by unfold_locales auto

interpretation be8: fixed_width "be_bytes 8 :: 64 word \<Rightarrow> byte list" be_word 8
  by unfold_locales auto

end
