(* ===== verification/Client_Message.thy ===== *)
theory Client_Message
  imports HZ_Prelude
begin

text \<open>
  The binary client message: \<open>protocol::ClientMessage\<close> of
  \<open>include/hazelcast/client/protocol/ClientMessage.h\<close> and \<open>src/hazelcast/client/protocol.cpp\<close>.

  A message is a vector of byte vectors with a read cursor.  Each inner vector is a
  \<open>msg_buffer\<close>: its bytes and its capacity, because the writer decides on the capacity whether
  a new vector is started.  The writer \<open>wr_ptr\<close> and the readers \<open>peek\<close> and \<open>rd_ptr\<close> return
  pointers into the buffers, modelled as a buffer index and a position.

  Two calculi carry the proofs of all codecs:

  \<^item> \<open>emits f ps\<close>: the writer \<open>f\<close> never fails and appends the pieces \<open>ps\<close>, a piece being what
    one call of \<open>wr_ptr\<close> reserves and which is therefore contiguous in one buffer;
  \<^item> \<open>reads f ps v\<close>: the reader \<open>f\<close>, started where the pieces \<open>ps\<close> stand, returns \<open>v\<close> and leaves
    the cursor behind them.

  A codec is the locale \<open>msg_codec\<close>; its client lemma is the round trip through a message.
\<close>

section \<open>Constants and state\<close>

definition EXPECTED_DATA_BLOCK_SIZE :: nat where
  "EXPECTED_DATA_BLOCK_SIZE = 1024"

definition BEGIN_FRAGMENT_FLAG :: "16 word" where "BEGIN_FRAGMENT_FLAG = push_bit 15 1"
definition END_FRAGMENT_FLAG :: "16 word" where "END_FRAGMENT_FLAG = push_bit 14 1"
definition UNFRAGMENTED_MESSAGE :: "16 word" where
  "UNFRAGMENTED_MESSAGE = BEGIN_FRAGMENT_FLAG OR END_FRAGMENT_FLAG"
definition IS_FINAL_FLAG :: "16 word" where "IS_FINAL_FLAG = push_bit 13 1"
definition BEGIN_DATA_STRUCTURE_FLAG :: "16 word" where "BEGIN_DATA_STRUCTURE_FLAG = push_bit 12 1"
definition END_DATA_STRUCTURE_FLAG :: "16 word" where "END_DATA_STRUCTURE_FLAG = push_bit 11 1"
definition IS_NULL_FLAG :: "16 word" where "IS_NULL_FLAG = push_bit 10 1"
definition IS_EVENT_FLAG :: "16 word" where "IS_EVENT_FLAG = push_bit 9 1"
definition BACKUP_AWARE_FLAG :: "16 word" where "BACKUP_AWARE_FLAG = push_bit 8 1"
definition BACKUP_EVENT_FLAG :: "16 word" where "BACKUP_EVENT_FLAG = push_bit 7 1"
definition DEFAULT_FLAGS :: "16 word" where "DEFAULT_FLAGS = 0"

abbreviation "SIZE_OF_FRAME_LENGTH_AND_FLAGS \<equiv> (6 :: nat)"
abbreviation "FLAGS_FIELD_OFFSET \<equiv> (4 :: nat)"
abbreviation "TYPE_FIELD_OFFSET \<equiv> (6 :: nat)"
abbreviation "CORRELATION_ID_FIELD_OFFSET \<equiv> (10 :: nat)"
abbreviation "RESPONSE_BACKUP_ACKS_FIELD_OFFSET \<equiv> (18 :: nat)"
abbreviation "PARTITION_ID_FIELD_OFFSET \<equiv> (18 :: nat)"
abbreviation "REQUEST_HEADER_LEN \<equiv> (22 :: nat)"
abbreviation "RESPONSE_HEADER_LEN \<equiv> (19 :: nat)"
abbreviation "FRAGMENTATION_ID_OFFSET \<equiv> (6 :: nat)"

record frame_header =
  frame_len :: i32
  frame_flags :: i16

definition header_bytes :: "frame_header \<Rightarrow> byte list" where
  "header_bytes h = le_bytes 4 (frame_len h) @ le_bytes 2 (frame_flags h)"

definition header_of_bytes :: "byte list \<Rightarrow> frame_header" where
  "header_of_bytes bs = \<lparr>frame_len = le_word (take 4 bs), frame_flags = le_word (take 2 (drop 4 bs))\<rparr>"

record msg_buffer =
  buf_bytes :: "byte list"
  buf_capacity :: nat

text \<open>The schemas a message carries for replication are opaque to the message itself; they are
  the type parameter of the record.\<close>

record 'sch client_message =
  data_buffer :: "msg_buffer list"
  buffer_index :: nat
  msg_offset :: nat
  retryable :: bool
  operation_name :: string
  contains_serialized_data_in_request :: bool
  schemas_will_be_replicated :: "'sch list"

type_synonym ('sch, 'a) cm = "('sch client_message, 'a) sm"

text \<open>A pointer into the message: a buffer and a position in it; \<open>None\<close> is the null pointer.\<close>

type_synonym msg_ptr = "(nat \<times> nat) option"

definition empty_client_message :: "'sch client_message" where
  "empty_client_message = \<lparr>data_buffer = [], buffer_index = 0, msg_offset = 0, retryable = False,
    operation_name = [], contains_serialized_data_in_request = False,
    schemas_will_be_replicated = []\<rparr>"

section \<open>Pointers\<close>

definition wr_ptr :: "nat \<Rightarrow> nat \<Rightarrow> ('sch, msg_ptr) cm" where
  "wr_ptr bytes_to_reserve actual = (\<lambda>m.
    if \<not> actual \<le> bytes_to_reserve then Inl AssertFailure
    else
      let bs = data_buffer m;
          max_available = (if bs = [] then 0
            else buf_capacity (last bs) - length (buf_bytes (last bs)));
          bs1 = (if max_available < bytes_to_reserve
            then bs @ [\<lparr>buf_bytes = [], buf_capacity = max EXPECTED_DATA_BLOCK_SIZE bytes_to_reserve\<rparr>]
            else bs)
      in if bs1 = [] then Inl UndefinedBehaviour
         else let b = last bs1; pos = length (buf_bytes b) in
           Inr (Some (length bs1 - 1, pos),
                m\<lparr>data_buffer := butlast bs1 @ [b\<lparr>buf_bytes := buf_bytes b @ replicate actual 0\<rparr>]\<rparr>))"

definition peek :: "nat \<Rightarrow> ('sch, msg_ptr) cm" where
  "peek requested_bytes = (\<lambda>m.
    if requested_bytes = 0 then Inr (None, m)
    else if \<not> buffer_index m < length (data_buffer m) then Inl UndefinedBehaviour
    else
      let advance = (length (buf_bytes (data_buffer m ! buffer_index m)) \<le> msg_offset m) in
      if advance \<and> Suc (buffer_index m) = length (data_buffer m) then Inl HazelcastSerialization
      else
        let m1 = (if advance then m\<lparr>buffer_index := Suc (buffer_index m), msg_offset := 0\<rparr> else m) in
        if length (buf_bytes (data_buffer m1 ! buffer_index m1)) <
             usize_add (msg_offset m1) requested_bytes
        then Inl HazelcastSerialization
        else Inr (Some (buffer_index m1, msg_offset m1), m1))"

definition rd_ptr :: "nat \<Rightarrow> ('sch, msg_ptr) cm" where
  "rd_ptr requested_bytes =
    sbind (peek requested_bytes) (\<lambda>p m.
      Inr (p, m\<lparr>msg_offset := usize_add (msg_offset m) requested_bytes\<rparr>))"

definition seek :: "nat \<Rightarrow> ('sch, unit) cm" where
  "seek position = (\<lambda>m.
    if \<not> buffer_index m < length (data_buffer m) then Inl UndefinedBehaviour
    else if buffer_index m = 0 \<and> msg_offset m \<le> position \<and>
      position < length (buf_bytes (data_buffer m ! buffer_index m))
    then Inr ((), m\<lparr>msg_offset := position\<rparr>)
    else Inl AssertFailure)"

text \<open>Reading and writing the memory behind a pointer.\<close>

definition ptr_load :: "msg_ptr \<Rightarrow> nat \<Rightarrow> ('sch, byte list) cm" where
  "ptr_load p n = (\<lambda>m.
    if n = 0 then Inr ([], m)
    else case p of
      None \<Rightarrow> Inl UndefinedBehaviour
    | Some (i, pos) \<Rightarrow>
        if i < length (data_buffer m) \<and> pos + n \<le> length (buf_bytes (data_buffer m ! i))
        then Inr (slice pos n (buf_bytes (data_buffer m ! i)), m)
        else Inl UndefinedBehaviour)"

definition ptr_store :: "msg_ptr \<Rightarrow> byte list \<Rightarrow> ('sch, unit) cm" where
  "ptr_store p bs = (\<lambda>m.
    if bs = [] then Inr ((), m)
    else case p of
      None \<Rightarrow> Inl UndefinedBehaviour
    | Some (i, pos) \<Rightarrow>
        if i < length (data_buffer m) \<and> pos + length bs \<le> length (buf_bytes (data_buffer m ! i))
        then Inr ((), m\<lparr>data_buffer := (data_buffer m)[i := (data_buffer m ! i)
               \<lparr>buf_bytes := overwrite pos bs (buf_bytes (data_buffer m ! i))\<rparr>]\<rparr>)
        else Inl UndefinedBehaviour)"

text \<open>The two idioms of the setters and getters: reserve and fill, advance and load.\<close>

definition wr_bytes :: "byte list \<Rightarrow> ('sch, unit) cm" where
  "wr_bytes bs = sbind (wr_ptr (length bs) (length bs)) (\<lambda>p. ptr_store p bs)"

definition rd_bytes :: "nat \<Rightarrow> ('sch, byte list) cm" where
  "rd_bytes n = sbind (rd_ptr n) (\<lambda>p. ptr_load p n)"

definition wr_header :: "i32 \<Rightarrow> i16 \<Rightarrow> ('sch, unit) cm" where
  "wr_header len flags = wr_bytes (header_bytes \<lparr>frame_len = len, frame_flags = flags\<rparr>)"

definition rd_header :: "('sch, frame_header) cm" where
  "rd_header = sbind (rd_bytes SIZE_OF_FRAME_LENGTH_AND_FLAGS) (\<lambda>bs. sreturn (header_of_bytes bs))"

definition make_client_message :: "nat \<Rightarrow> bool \<Rightarrow> (hz_error + 'sch client_message)" where
  "make_client_message initial_frame_size is_single_frame =
    (case sbind (wr_ptr REQUEST_HEADER_LEN REQUEST_HEADER_LEN) (\<lambda>p.
       ptr_store p (header_bytes \<lparr>frame_len = of_nat initial_frame_size,
         frame_flags = (if is_single_frame then UNFRAGMENTED_MESSAGE OR IS_FINAL_FLAG
                        else UNFRAGMENTED_MESSAGE)\<rparr>)) empty_client_message of
       Inl e \<Rightarrow> Inl e
     | Inr (_, m) \<Rightarrow> Inr m)"

definition wrap_for_read :: "'sch client_message \<Rightarrow> 'sch client_message" where
  "wrap_for_read m = m\<lparr>buffer_index := 0, msg_offset := 0\<rparr>"

definition msg_size :: "'sch client_message \<Rightarrow> nat" where
  "msg_size m = foldl (\<lambda>len b. usize_add len (length (buf_bytes b))) 0 (data_buffer m)"

section \<open>The header fields of the first frame\<close>

definition set_message_type :: "i32 \<Rightarrow> ('sch, unit) cm" where
  "set_message_type type = ptr_store (Some (0, TYPE_FIELD_OFFSET)) (le_bytes 8 (scast type :: i64))"

definition set_correlation_id :: "i64 \<Rightarrow> ('sch, unit) cm" where
  "set_correlation_id cid = ptr_store (Some (0, CORRELATION_ID_FIELD_OFFSET)) (le_bytes 8 cid)"

definition set_partition_id :: "i32 \<Rightarrow> ('sch, unit) cm" where
  "set_partition_id pid = ptr_store (Some (0, PARTITION_ID_FIELD_OFFSET)) (le_bytes 4 pid)"

definition set_header_flags :: "16 word \<Rightarrow> ('sch, unit) cm" where
  "set_header_flags new_flags = ptr_store (Some (0, FLAGS_FIELD_OFFSET)) (le_bytes 2 new_flags)"

definition get_message_type :: "('sch, i32) cm" where
  "get_message_type = sbind (ptr_load (Some (0, TYPE_FIELD_OFFSET)) 4) (\<lambda>bs. sreturn (le_word bs))"

definition get_header_flags :: "('sch, 16 word) cm" where
  "get_header_flags = sbind (ptr_load (Some (0, FLAGS_FIELD_OFFSET)) 2) (\<lambda>bs. sreturn (le_word bs))"

definition get_correlation_id :: "('sch, i64) cm" where
  "get_correlation_id =
    sbind (ptr_load (Some (0, CORRELATION_ID_FIELD_OFFSET)) 8) (\<lambda>bs. sreturn (le_word bs))"

definition get_number_of_backups :: "('sch, i8) cm" where
  "get_number_of_backups =
    sbind (ptr_load (Some (0, RESPONSE_BACKUP_ACKS_FIELD_OFFSET)) 1) (\<lambda>bs. sreturn (le_word bs))"

definition get_partition_id :: "('sch, i32) cm" where
  "get_partition_id =
    sbind (ptr_load (Some (0, PARTITION_ID_FIELD_OFFSET)) 4) (\<lambda>bs. sreturn (le_word bs))"

definition flag_set :: "16 word \<Rightarrow> 16 word \<Rightarrow> bool" where
  "flag_set flags flag_mask = (flag_mask = (flags AND flag_mask))"

definition is_flag_set :: "16 word \<Rightarrow> ('sch, bool) cm" where
  "is_flag_set flag_mask = sbind get_header_flags (\<lambda>flags. sreturn (flag_set flags flag_mask))"

definition add_flag :: "16 word \<Rightarrow> ('sch, unit) cm" where
  "add_flag flag = sbind get_header_flags (\<lambda>flags. set_header_flags (flags OR flag))"

definition append_message :: "'sch client_message \<Rightarrow> 'sch client_message \<Rightarrow> 'sch client_message" where
  "append_message m msg = m\<lparr>data_buffer := data_buffer m @
    map (\<lambda>b. b\<lparr>buf_capacity := length (buf_bytes b)\<rparr>) (data_buffer msg)\<rparr>"

definition drop_fragmentation_frame :: "('sch, unit) cm" where
  "drop_fragmentation_frame = (\<lambda>m. case data_buffer m of
      [] \<Rightarrow> Inl UndefinedBehaviour
    | b # bs \<Rightarrow>
        if FRAGMENTATION_ID_OFFSET + 8 \<le> length (buf_bytes b)
        then Inr ((), m\<lparr>data_buffer :=
               b\<lparr>buf_bytes := drop (FRAGMENTATION_ID_OFFSET + 8) (buf_bytes b)\<rparr> # bs\<rparr>)
        else Inl UndefinedBehaviour)"

section \<open>Pieces in buffers\<close>

text \<open>\<open>chunked cs ps\<close>: the pieces \<open>ps\<close> stand one after the other in the chunks \<open>cs\<close>, none of them
  crossing a chunk border, and no chunk but the first is empty.\<close>

inductive chunked :: "byte list list \<Rightarrow> byte list list \<Rightarrow> bool" where
  chunked_done: "chunked [[]] []"
| chunked_piece: "chunked (c # cs) ps \<Longrightarrow> chunked ((p @ c) # cs) (p # ps)"
| chunked_next: "chunked (c # cs) ps \<Longrightarrow> c \<noteq> [] \<Longrightarrow> chunked ([] # c # cs) ps"

inductive_cases chunked_ConsE: "chunked cs (p # ps)"
inductive_cases chunked_NilE: "chunked cs []"

lemma chunked_not_Nil: "chunked cs ps \<Longrightarrow> cs \<noteq> []"
  by (induction rule: chunked.induct) auto

lemma chunked_split: "chunked cs ((p @ q) # ps) \<Longrightarrow> chunked cs (p # q # ps)"
proof (induction cs "(p @ q) # ps" rule: chunked.induct)
  case (chunked_piece c cs)
  then show ?case
    using chunked.chunked_piece [of "q @ c" cs "q # ps" p] chunked.chunked_piece [of c cs ps q] by simp
next
  case (chunked_next c cs)
  then show ?case
    using chunked.chunked_next by blast
qed

lemma chunked_Nil_piece: "chunked cs ([] # ps) \<Longrightarrow> chunked cs ps"
proof (induction cs "[] # ps :: byte list list" rule: chunked.induct)
  case (chunked_piece c cs)
  then show ?case by simp
next
  case (chunked_next c cs)
  then show ?case
    using chunked.chunked_next by blast
qed

lemma chunked_take_head:
  assumes "chunked cs (p # ps)" "p \<noteq> []"
  obtains c cs' where "cs = (p @ c) # cs'" "chunked (c # cs') ps"
  | c cs' where "cs = [] # (p @ c) # cs'" "chunked (c # cs') ps"
proof (cases rule: chunked_ConsE [OF assms(1)])
  case (1 c cs')
  then show thesis using that(1) by blast
next
  case (2 c cs')
  from 2(2) show thesis
    by (cases rule: chunked_ConsE) (use 2 that(2) in auto)
qed

lemma chunked_extend_last: "chunked (cs @ [c]) ps \<Longrightarrow> chunked (cs @ [c @ p]) (ps @ [p])"
proof (induction "cs @ [c]" ps arbitrary: cs c rule: chunked.induct)
  case chunked_done
  then show ?case
    using chunked_piece [OF chunked.chunked_done, of p] by simp
next
  case (chunked_piece c' cs' ps q)
  show ?case
  proof (cases cs)
    case Nil
    with chunked_piece.hyps(3) have "q @ c' = c" "cs' = []" by auto
    with chunked_piece.hyps(2) [of "[]" c'] Nil show ?thesis
      using chunked.chunked_piece [of "c' @ p" "[]" "ps @ [p]" q] by auto
  next
    case (Cons d ds)
    with chunked_piece.hyps(3) have "d = q @ c'" "cs' = ds @ [c]" by auto
    with chunked_piece.hyps(2) [of "c' # ds" c] Cons show ?thesis
      using chunked.chunked_piece [of c' "ds @ [c @ p]" "ps @ [p]" q] by simp
  qed
next
  case (chunked_next c' cs' ps)
  then obtain ds where cs: "cs = [] # ds" "c' # cs' = ds @ [c]"
    by (cases cs) auto
  with chunked_next.hyps(2) [of ds c] have "chunked (ds @ [c @ p]) (ps @ [p])" by simp
  moreover obtain e es where "ds @ [c @ p] = e # es" "e \<noteq> []"
    using cs(2) chunked_next.hyps(3) by (cases ds) auto
  ultimately show ?case
    using chunked.chunked_next [of e es] cs(1) by simp
qed

lemma chunked_new_last:
  assumes "p \<noteq> []"
  shows "chunked cs ps \<Longrightarrow> chunked (cs @ [p]) (ps @ [p])"
proof (induction rule: chunked.induct)
  case chunked_done
  show ?case
    using chunked_next [OF chunked_piece [OF chunked.chunked_done, of p]] assms by simp
next
  case (chunked_piece c cs ps q)
  then show ?case using chunked.chunked_piece [of c "cs @ [p]" "ps @ [p]" q] by simp
next
  case (chunked_next c cs ps)
  then show ?case using chunked.chunked_next [of c "cs @ [p]" "ps @ [p]"] by simp
qed

section \<open>Writers\<close>

text \<open>What reserving and filling a piece does to the buffers.\<close>

definition put_buf :: "byte list \<Rightarrow> msg_buffer list \<Rightarrow> msg_buffer list" where
  "put_buf p bs =
    (if p = [] then bs
     else if bs = [] \<or> buf_capacity (last bs) - length (buf_bytes (last bs)) < length p
     then bs @ [\<lparr>buf_bytes = p, buf_capacity = max EXPECTED_DATA_BLOCK_SIZE (length p)\<rparr>]
     else butlast bs @ [(last bs)\<lparr>buf_bytes := buf_bytes (last bs) @ p\<rparr>])"

lemma put_buf_not_Nil [simp]: "bs \<noteq> [] \<Longrightarrow> put_buf p bs \<noteq> []"
  by (simp add: put_buf_def)

lemma put_buf_piece_not_Nil: "p \<noteq> [] \<Longrightarrow> put_buf p bs \<noteq> []"
  by (simp add: put_buf_def)

lemma fold_put_buf_not_Nil [simp]: "bs \<noteq> [] \<Longrightarrow> fold put_buf ps bs \<noteq> []"
  by (induction ps arbitrary: bs) auto

lemma overwrite_fresh [simp]:
  "n = length p \<Longrightarrow> overwrite (length xs) p (xs @ replicate n 0) = xs @ p"
  by (simp add: overwrite_def)

lemma wr_bytes_put_buf:
  assumes "data_buffer m \<noteq> [] \<or> p \<noteq> []"
  shows "wr_bytes p m = Inr ((), m\<lparr>data_buffer := put_buf p (data_buffer m)\<rparr>)"
proof (cases "p = []")
  case True
  with assms show ?thesis
    by (simp add: wr_bytes_def wr_ptr_def Let_def ptr_store_def put_buf_def sbind_def)
next
  case False
  then show ?thesis
    by (auto simp: wr_bytes_def wr_ptr_def Let_def ptr_store_def put_buf_def sbind_def
        nth_append list_update_append max_def overwrite_def)
qed

definition emits :: "('sch, unit) cm \<Rightarrow> byte list list \<Rightarrow> bool" where
  "emits f ps = (\<forall>m. data_buffer m \<noteq> [] \<longrightarrow>
    (\<exists>m'. f m = Inr ((), m') \<and> data_buffer m' = fold put_buf ps (data_buffer m) \<and>
          buffer_index m' = buffer_index m \<and> msg_offset m' = msg_offset m))"

named_theorems emits_intros "rules of the writer calculus"

lemma emits_wr_bytes [emits_intros]: "emits (wr_bytes p) [p]"
  by (simp add: emits_def wr_bytes_put_buf)

lemma emits_return [emits_intros]: "emits (sreturn ()) []"
  by (simp add: emits_def)

lemma emitsE:
  assumes "emits f ps" "data_buffer m \<noteq> []"
  obtains m' where "f m = Inr ((), m')" "data_buffer m' = fold put_buf ps (data_buffer m)"
    "buffer_index m' = buffer_index m" "msg_offset m' = msg_offset m"
  using assms unfolding emits_def by blast

lemma emits_then:
  assumes "emits f ps" "emits g qs"
  shows "emits (sthen f g) (ps @ qs)"
  unfolding emits_def
proof (intro allI impI)
  fix m :: "'a client_message"
  assume ne: "data_buffer m \<noteq> []"
  obtain m1 where m1: "f m = Inr ((), m1)" "data_buffer m1 = fold put_buf ps (data_buffer m)"
    "buffer_index m1 = buffer_index m" "msg_offset m1 = msg_offset m"
    using emitsE [OF assms(1) ne] by blast
  then have "data_buffer m1 \<noteq> []"
    using ne by simp
  then obtain m2 where "g m1 = Inr ((), m2)" "data_buffer m2 = fold put_buf qs (data_buffer m1)"
    "buffer_index m2 = buffer_index m1" "msg_offset m2 = msg_offset m1"
    using emitsE [OF assms(2)] by blast
  with m1 show "\<exists>m'. sthen f g m = Inr ((), m') \<and>
    data_buffer m' = fold put_buf (ps @ qs) (data_buffer m) \<and>
    buffer_index m' = buffer_index m \<and> msg_offset m' = msg_offset m"
    by simp
qed

lemma emits_siter:
  "(\<And>x. x \<in> set xs \<Longrightarrow> emits (f x) (ps x)) \<Longrightarrow> emits (siter f xs) (concat (map ps xs))"
  by (induction xs) (auto intro: emits_return emits_then)

lemma emits_sseq_Nil [emits_intros]: "emits (sseq []) []"
  by (simp add: emits_return)

lemma emits_sseq_Cons: "emits f ps \<Longrightarrow> emits (sseq fs) qs \<Longrightarrow> emits (sseq (f # fs)) (ps @ qs)"
  by (simp add: emits_then)

section \<open>Readers\<close>

definition msg_ok :: "'sch client_message \<Rightarrow> bool" where
  "msg_ok m = (buffer_index m < length (data_buffer m) \<and>
    msg_offset m \<le> length (buf_bytes (data_buffer m ! buffer_index m)) \<and>
    (\<forall>b\<in>set (data_buffer m). length (buf_bytes b) < usize_max))"

definition rest :: "'sch client_message \<Rightarrow> byte list list" where
  "rest m = drop (msg_offset m) (buf_bytes (data_buffer m ! buffer_index m)) #
    map buf_bytes (drop (Suc (buffer_index m)) (data_buffer m))"

definition reads :: "('sch, 'a) cm \<Rightarrow> byte list list \<Rightarrow> 'a \<Rightarrow> bool" where
  "reads f ps v = (\<forall>m qs. msg_ok m \<longrightarrow> chunked (rest m) (ps @ qs) \<longrightarrow>
    (\<exists>m'. f m = Inr (v, m') \<and> msg_ok m' \<and> chunked (rest m') qs \<and> data_buffer m' = data_buffer m))"

named_theorems reads_intros "rules of the reader calculus"

lemma reads_return [reads_intros]: "reads (sreturn v) [] v"
  by (simp add: reads_def)

lemma reads_bind:
  "reads f ps a \<Longrightarrow> reads (g a) qs b \<Longrightarrow> reads (sbind f g) (ps @ qs) b"
  unfolding reads_def by (fastforce simp: sbind_def)

lemma reads_then:
  "reads f ps a \<Longrightarrow> reads g qs b \<Longrightarrow> reads (sthen f g) (ps @ qs) b"
  unfolding sthen_def by (rule reads_bind)

lemma reads_map: "reads f ps a \<Longrightarrow> reads (sbind f (\<lambda>x. sreturn (h x))) ps (h a)"
  using reads_bind [of f ps a "\<lambda>x. sreturn (h x)" "[]"] by (simp add: reads_return)

lemma reads_repeat:
  "(\<And>x. x \<in> set xs \<Longrightarrow> reads f (ps x) x) \<Longrightarrow>
    reads (srepeat (length xs) f) (concat (map ps xs)) xs"
proof (induction xs)
  case Nil
  show ?case using reads_return [of "[]"] by (simp del: sreturn_apply)
next
  case (Cons x xs)
  then have "reads (sbind f (\<lambda>x. sbind (srepeat (length xs) f) (\<lambda>xs. sreturn (x # xs))))
    (ps x @ concat (map ps xs)) (x # xs)"
    by (intro reads_bind [where a = x] reads_map) auto
  then show ?case by simp
qed

lemma piece_not_empty: "0 < n \<Longrightarrow> n \<le> length p \<Longrightarrow> p \<noteq> []"
  by auto

lemma peek_at_piece:
  assumes "msg_ok m" "chunked (rest m) (p # ps)" "0 < n" "n \<le> length p"
  shows "\<exists>i pos m'. peek n m = Inr (Some (i, pos), m') \<and> msg_ok m' \<and>
    chunked (rest m') (p # ps) \<and> data_buffer m' = data_buffer m \<and>
    buffer_index m' = i \<and> msg_offset m' = pos \<and> i < length (data_buffer m) \<and>
    (\<exists>c cs. rest m' = (p @ c) # cs \<and> chunked (c # cs) ps)"
proof (cases rule: chunked_take_head [OF assms(2) piece_not_empty [OF assms(3,4)]])
  case (1 c cs)
  then have d: "drop (msg_offset m) (buf_bytes (data_buffer m ! buffer_index m)) = p @ c"
    by (simp add: rest_def)
  have idx: "buffer_index m < length (data_buffer m)"
    using assms(1) by (simp add: msg_ok_def)
  have "length (buf_bytes (data_buffer m ! buffer_index m)) - msg_offset m = length (p @ c)"
    unfolding d [symmetric] by simp
  then have le: "msg_offset m + n \<le> length (buf_bytes (data_buffer m ! buffer_index m))"
    using assms(3,4) by simp
  moreover have "length (buf_bytes (data_buffer m ! buffer_index m)) < usize_max"
    using assms(1) nth_mem [OF idx] by (simp add: msg_ok_def)
  ultimately have "peek n m = Inr (Some (buffer_index m, msg_offset m), m)"
    using assms(3) idx by (simp add: peek_def Let_def usize_add_exact)
  then show ?thesis
    using assms 1 idx by blast
next
  case (2 c cs)
  let ?m = "m\<lparr>buffer_index := Suc (buffer_index m), msg_offset := 0\<rparr>"
  have len: "length (buf_bytes (data_buffer m ! buffer_index m)) \<le> msg_offset m"
    using 2(1) by (simp add: rest_def)
  have d: "map buf_bytes (drop (Suc (buffer_index m)) (data_buffer m)) = (p @ c) # cs"
    using 2(1) by (simp add: rest_def)
  then have lt: "Suc (buffer_index m) < length (data_buffer m)"
    by (metis drop_all list.distinct(1) list.map(1) not_less)
  then have r: "rest ?m = (p @ c) # cs"
    using d by (simp add: rest_def Cons_nth_drop_Suc [symmetric])
  then have b: "buf_bytes (data_buffer m ! Suc (buffer_index m)) = p @ c"
    by (simp add: rest_def)
  have "length (p @ c) < usize_max"
    using assms(1) nth_mem [OF lt] unfolding msg_ok_def b [symmetric] by blast
  then have "peek n m = Inr (Some (buffer_index ?m, msg_offset ?m), ?m)"
    using assms(3,4) len lt b by (simp add: peek_def Let_def usize_add_exact)
  moreover have "msg_ok ?m"
    using assms(1) lt by (simp add: msg_ok_def)
  moreover have "chunked (rest ?m) (p # ps)"
    using r 2(2) by (simp add: chunked_piece)
  ultimately show ?thesis
    using r 2(2) lt by fastforce
qed

lemma rest_load:
  assumes "rest m = (p @ c) # cs" "buffer_index m < length (data_buffer m)" "msg_ok m"
  shows "slice (msg_offset m) (length p) (buf_bytes (data_buffer m ! buffer_index m)) = p"
    "msg_offset m + length p \<le> length (buf_bytes (data_buffer m ! buffer_index m))"
proof -
  have d: "drop (msg_offset m) (buf_bytes (data_buffer m ! buffer_index m)) = p @ c"
    using assms by (simp add: rest_def)
  then show "slice (msg_offset m) (length p) (buf_bytes (data_buffer m ! buffer_index m)) = p"
    by (simp add: slice_def)
  from d have "length p \<le> length (buf_bytes (data_buffer m ! buffer_index m)) - msg_offset m"
    by (metis length_append length_drop le_add1)
  moreover have "msg_offset m \<le> length (buf_bytes (data_buffer m ! buffer_index m))"
    using assms(3) by (simp add: msg_ok_def)
  ultimately show "msg_offset m + length p \<le> length (buf_bytes (data_buffer m ! buffer_index m))"
    by linarith
qed

lemma rest_advance:
  assumes "rest m = (p @ c) # cs" "msg_ok m"
  shows "rest (m\<lparr>msg_offset := msg_offset m + length p\<rparr>) = c # cs"
    "msg_ok (m\<lparr>msg_offset := msg_offset m + length p\<rparr>)"
proof -
  have "drop (msg_offset m) (buf_bytes (data_buffer m ! buffer_index m)) = p @ c"
    using assms by (simp add: rest_def)
  then have "drop (length p + msg_offset m) (buf_bytes (data_buffer m ! buffer_index m)) = c"
    by (metis append_eq_conv_conj drop_drop)
  with assms show "rest (m\<lparr>msg_offset := msg_offset m + length p\<rparr>) = c # cs"
    by (simp add: rest_def add.commute)
  show "msg_ok (m\<lparr>msg_offset := msg_offset m + length p\<rparr>)"
    using rest_load(2) [OF assms(1) _ assms(2)] assms(2) by (simp add: msg_ok_def)
qed

lemma rd_ptr_at_piece:
  assumes "msg_ok m" "chunked (rest m) (p # ps)" "p \<noteq> []" "n = length p"
  shows "\<exists>i pos m'. rd_ptr n m = Inr (Some (i, pos), m') \<and> msg_ok m' \<and>
    chunked (rest m') ps \<and> data_buffer m' = data_buffer m \<and>
    ptr_load (Some (i, pos)) n m' = Inr (p, m')"
proof -
  obtain m1 c cs where m1: "peek n m = Inr (Some (buffer_index m1, msg_offset m1), m1)" "msg_ok m1"
    "data_buffer m1 = data_buffer m" "buffer_index m1 < length (data_buffer m)"
    "rest m1 = (p @ c) # cs" "chunked (c # cs) ps"
    using peek_at_piece [OF assms(1,2), of n] assms(3,4) by auto
  let ?m = "m1\<lparr>msg_offset := msg_offset m1 + length p\<rparr>"
  have le: "slice (msg_offset m1) (length p) (buf_bytes (data_buffer m1 ! buffer_index m1)) = p"
    "msg_offset m1 + length p \<le> length (buf_bytes (data_buffer m1 ! buffer_index m1))"
    using rest_load [OF m1(5) _ m1(2)] m1(3,4) by auto
  moreover have "length (buf_bytes (data_buffer m1 ! buffer_index m1)) < usize_max"
    using m1 by (simp add: msg_ok_def)
  ultimately have "rd_ptr n m = Inr (Some (buffer_index m1, msg_offset m1), ?m)"
    using m1(1) assms(4) by (simp add: rd_ptr_def usize_add_exact)
  moreover have "ptr_load (Some (buffer_index m1, msg_offset m1)) n ?m = Inr (p, ?m)"
    using le assms(3,4) m1(3,4) by (simp add: ptr_load_def)
  ultimately show ?thesis
    using rest_advance [OF m1(5,2)] m1(3,6) by fastforce
qed

lemma rd_ptr_zero: "msg_ok m \<Longrightarrow> rd_ptr 0 m = Inr (None, m)"
  by (simp add: rd_ptr_def peek_def msg_ok_def usize_add_def)
     (metis (no_types, lifting) client_message.surjective client_message.update_convs(3) mod_less
       le_less_trans nth_mem)

lemma reads_rd_bytes [reads_intros]:
  assumes "n = length p"
  shows "reads (rd_bytes n) [p] p"
  unfolding reads_def
proof (intro allI impI)
  fix m :: "'a client_message" and qs
  assume m: "msg_ok m" "chunked (rest m) ([p] @ qs)"
  show "\<exists>m'. rd_bytes n m = Inr (p, m') \<and> msg_ok m' \<and> chunked (rest m') qs \<and>
    data_buffer m' = data_buffer m"
  proof (cases "p = []")
    case True
    with m assms show ?thesis
      by (auto simp: rd_bytes_def rd_ptr_zero ptr_load_def dest: chunked_Nil_piece)
  next
    case False
    with rd_ptr_at_piece [of m p qs n] m assms show ?thesis
      by (fastforce simp: rd_bytes_def)
  qed
qed

text \<open>Skipping: the pointer is not looked at.\<close>

definition skip_bytes :: "nat \<Rightarrow> ('sch, unit) cm" where
  "skip_bytes n = sthen (rd_ptr n) (sreturn ())"

lemma reads_skip_bytes [reads_intros]:
  assumes "n = length p"
  shows "reads (skip_bytes n) [p] ()"
  unfolding reads_def
proof (intro allI impI)
  fix m :: "'a client_message" and qs
  assume m: "msg_ok m" "chunked (rest m) ([p] @ qs)"
  show "\<exists>m'. skip_bytes n m = Inr ((), m') \<and> msg_ok m' \<and> chunked (rest m') qs \<and>
    data_buffer m' = data_buffer m"
  proof (cases "p = []")
    case True
    with m assms show ?thesis
      by (auto simp: skip_bytes_def rd_ptr_zero dest: chunked_Nil_piece)
  next
    case False
    with rd_ptr_at_piece [of m p qs n] m assms show ?thesis
      by (fastforce simp: skip_bytes_def)
  qed
qed

text \<open>A piece may be read in parts.\<close>

lemma reads_split: "reads f (p # q # ps) v \<Longrightarrow> reads f ((p @ q) # ps) v"
  unfolding reads_def using chunked_split by fastforce

section \<open>Codecs\<close>

lemma chunked_put_buf:
  assumes "chunked (drop k (buf_bytes (bs ! i)) # map buf_bytes (drop (Suc i) bs)) ps"
    "i < length bs" "k \<le> length (buf_bytes (bs ! i))"
  shows "chunked (drop k (buf_bytes (put_buf p bs ! i)) #
    map buf_bytes (drop (Suc i) (put_buf p bs))) (ps @ [p])"
proof (cases bs rule: rev_cases)
  case Nil
  with assms show ?thesis by simp
next
  case bs: (snoc bs0 b)
  consider "p = []" | "p \<noteq> []" "buf_capacity b - length (buf_bytes b) < length p"
    | "p \<noteq> []" "\<not> buf_capacity b - length (buf_bytes b) < length p" by blast
  then show ?thesis
  proof cases
    case 1
    have "chunked cs (ps @ [[]])" if "chunked cs ps" for cs
      using that chunked_extend_last [of "butlast cs" "last cs" ps "[]"] chunked_not_Nil [OF that]
      by simp
    with 1 assms show ?thesis by (simp add: put_buf_def)
  next
    case 2
    then have "put_buf p bs = bs @ [\<lparr>buf_bytes = p,
      buf_capacity = max EXPECTED_DATA_BLOCK_SIZE (length p)\<rparr>]"
      using bs by (simp add: put_buf_def)
    with chunked_new_last [OF 2(1) assms(1)] assms(2) show ?thesis
      by (simp add: nth_append)
  next
    case 3
    show ?thesis
    proof (cases "i = length bs0")
      case True
      with 3 bs assms chunked_extend_last [of "[]" "drop k (buf_bytes b)" ps p] show ?thesis
        by (simp add: put_buf_def)
    next
      case False
      with assms(2) bs have i: "i < length bs0" by simp
      with 3 bs assms
        chunked_extend_last [of "drop k (buf_bytes (bs0 ! i)) # map buf_bytes (drop (Suc i) bs0)"
          "buf_bytes b" ps p]
      show ?thesis
        by (simp add: put_buf_def nth_append)
    qed
  qed
qed

definition msg_bytes :: "'sch client_message \<Rightarrow> byte list" where
  "msg_bytes m = concat (map buf_bytes (data_buffer m))"

lemma concat_put_buf: "concat (map buf_bytes (put_buf p bs)) = concat (map buf_bytes bs) @ p"
  by (cases bs rule: rev_cases) (simp_all add: put_buf_def)

lemma concat_fold_put_buf:
  "concat (map buf_bytes (fold put_buf ps bs)) = concat (map buf_bytes bs) @ concat ps"
  by (induction ps arbitrary: bs) (simp_all add: concat_put_buf)

lemma length_buf_le_concat: "b \<in> set bs \<Longrightarrow> length (buf_bytes b) \<le> length (concat (map buf_bytes bs))"
  by (induction bs) auto

definition cursor_ok :: "msg_buffer list \<Rightarrow> nat \<Rightarrow> nat \<Rightarrow> bool" where
  "cursor_ok bs i k = (i < length bs \<and> k \<le> length (buf_bytes (bs ! i)))"

lemma cursor_ok_put_buf: "cursor_ok bs i k \<Longrightarrow> cursor_ok (put_buf p bs) i k"
  by (cases bs rule: rev_cases) (auto simp: cursor_ok_def put_buf_def nth_append)

lemma chunked_fold_put_buf:
  assumes "chunked (drop k (buf_bytes (bs ! i)) # map buf_bytes (drop (Suc i) bs)) qs"
    "cursor_ok bs i k"
  shows "chunked (drop k (buf_bytes (fold put_buf ps bs ! i)) #
    map buf_bytes (drop (Suc i) (fold put_buf ps bs))) (qs @ ps) \<and> cursor_ok (fold put_buf ps bs) i k"
  using assms
proof (induction ps arbitrary: bs qs)
  case Nil
  then show ?case by simp
next
  case (Cons p ps)
  have "chunked (drop k (buf_bytes (put_buf p bs ! i)) # map buf_bytes (drop (Suc i) (put_buf p bs)))
    (qs @ [p])"
    using Cons.prems chunked_put_buf by (simp add: cursor_ok_def)
  from Cons.IH [OF this cursor_ok_put_buf [OF Cons.prems(2)]] show ?case
    by simp
qed

text \<open>The cursor stands behind everything written so far.\<close>

definition at_end :: "'sch client_message \<Rightarrow> bool" where
  "at_end m = (msg_ok m \<and> rest m = [[]])"

lemma chunked_Nil_iff: "chunked cs [] \<longleftrightarrow> cs = [[]]"
proof
  assume h: "chunked cs []"
  show "cs = [[]]"
  proof (cases rule: chunked_NilE [OF h])
    case (2 c cs')
    from 2(2,3) show ?thesis
      by (auto elim: chunked_NilE)
  qed
qed (simp add: chunked_done)

lemma emits_ready:
  assumes "emits f ps" "at_end m" "length (msg_bytes m) + length (concat ps) < usize_max"
  obtains m1 where "f m = Inr ((), m1)" "msg_ok m1" "chunked (rest m1) ps"
proof -
  have ok: "cursor_ok (data_buffer m) (buffer_index m) (msg_offset m)" "data_buffer m \<noteq> []"
    using assms(2) by (auto simp: at_end_def msg_ok_def cursor_ok_def)
  obtain m1 where m1: "f m = Inr ((), m1)" "data_buffer m1 = fold put_buf ps (data_buffer m)"
    "buffer_index m1 = buffer_index m" "msg_offset m1 = msg_offset m"
    using emitsE [OF assms(1) ok(2)] by blast
  have "chunked (rest m) []"
    using assms(2) by (simp add: at_end_def chunked_done)
  then have ch: "chunked (rest m1) ps" "cursor_ok (data_buffer m1) (buffer_index m1) (msg_offset m1)"
    using chunked_fold_put_buf [OF _ ok(1), of "[]" ps] m1 by (auto simp: rest_def)
  have "length (buf_bytes b) < usize_max" if "b \<in> set (data_buffer m1)" for b
    using length_buf_le_concat [OF that] assms(3) m1(2)
    by (simp add: concat_fold_put_buf msg_bytes_def)
  then have "msg_ok m1"
    using ch(2) by (simp add: msg_ok_def cursor_ok_def)
  with that m1(1) ch(1) show ?thesis
    by blast
qed

lemma emits_then_reads:
  assumes "emits f ps" "reads g ps v" "at_end m" "length (msg_bytes m) + length (concat ps) < usize_max"
  shows "\<exists>m1 m2. f m = Inr ((), m1) \<and> g m1 = Inr (v, m2) \<and> at_end m2"
proof -
  obtain m1 where m1: "f m = Inr ((), m1)" "msg_ok m1" "chunked (rest m1) ps"
    using emits_ready [OF assms(1,3,4)] .
  then obtain m2 where "g m1 = Inr (v, m2)" "msg_ok m2" "chunked (rest m2) []"
    using assms(2) unfolding reads_def by (metis append_Nil2)
  with m1(1) show ?thesis
    by (auto simp: at_end_def chunked_Nil_iff)
qed

locale msg_codec =
  fixes enc :: "'v \<Rightarrow> ('sch, unit) cm"
    and dec :: "('sch, 'v) cm"
    and pieces :: "'v \<Rightarrow> byte list list"
    and wf :: "'v \<Rightarrow> bool"
  assumes emits_enc: "wf v \<Longrightarrow> emits (enc v) (pieces v)"
    and reads_dec: "wf v \<Longrightarrow> reads dec (pieces v) v"
begin

lemma round_trip:
  assumes "wf v" "at_end m" "length (msg_bytes m) + length (concat (pieces v)) < usize_max"
  shows "\<exists>m1 m2. enc v m = Inr ((), m1) \<and> dec m1 = Inr (v, m2) \<and> at_end m2"
  using emits_then_reads [OF emits_enc [OF assms(1)] reads_dec [OF assms(1)] assms(2,3)] .

lemma emits_list: "list_all wf vs \<Longrightarrow> emits (siter enc vs) (concat (map pieces vs))"
  by (rule emits_siter) (simp add: emits_enc list_all_iff)

lemma reads_list: "list_all wf vs \<Longrightarrow> reads (srepeat (length vs) dec) (concat (map pieces vs)) vs"
  by (rule reads_repeat) (simp add: reads_dec list_all_iff)

end

section \<open>Header fields\<close>

lemma ptr_store_first:
  assumes "data_buffer m = b # bs" "pos + length xs \<le> length (buf_bytes b)"
  shows "ptr_store (Some (0, pos)) xs m =
    Inr ((), m\<lparr>data_buffer := b\<lparr>buf_bytes := overwrite pos xs (buf_bytes b)\<rparr> # bs\<rparr>)"
proof (cases "xs = []")
  case True
  have "m\<lparr>data_buffer := b # bs\<rparr> = m"
    using assms(1) by (metis client_message.surjective client_message.update_convs(1))
  with True show ?thesis
    by (simp add: ptr_store_def overwrite_def)
next
  case False
  with assms show ?thesis
    by (simp add: ptr_store_def)
qed

lemma ptr_load_first:
  assumes "data_buffer m = b # bs" "pos + n \<le> length (buf_bytes b)"
  shows "ptr_load (Some (0, pos)) n m = Inr (slice pos n (buf_bytes b), m)"
  using assms by (simp add: ptr_load_def slice_def)

lemmas header_access = set_message_type_def set_correlation_id_def set_partition_id_def
  set_header_flags_def get_message_type_def get_correlation_id_def get_partition_id_def
  get_header_flags_def ptr_store_first ptr_load_first

text \<open>
  C8. In the order the request encoders and the invocation use them, \<open>set_message_type\<close>, then
  \<open>set_partition_id\<close>, then \<open>set_correlation_id\<close>, then \<open>add_flag\<close>, every getter returns what its
  setter stored, on every message whose first buffer holds a request header.
\<close>

theorem header_fields_roundtrip:
  assumes "data_buffer m = b # bs" "REQUEST_HEADER_LEN \<le> length (buf_bytes b)"
    and "get_header_flags m = Inr (flags, m)"
  shows "\<exists>m'. sseq [set_message_type t, set_partition_id p, set_correlation_id c, add_flag f] m =
      Inr ((), m') \<and>
    get_message_type m' = Inr (t, m') \<and> get_partition_id m' = Inr (p, m') \<and>
    get_correlation_id m' = Inr (c, m') \<and> get_header_flags m' = Inr (flags OR f, m')"
proof -
  have ty: "le_word (slice 6 4 (overwrite 6 (le_bytes 8 (scast t :: i64)) xs)) = t"
    if "22 \<le> length xs" for xs
    using that by (simp add: slice_def overwrite_def take_le_bytes le_bytes_scast)
  have fl: "le_word (slice 4 2 (buf_bytes b)) = flags"
    using assms by (simp add: header_access)
  show ?thesis
    using assms(1,2) fl
    by (simp add: header_access add_flag_def ty slice_overwrite_before slice_overwrite_after)
qed

theorem header_fields_roundtrip_witness:
  "\<exists>m'. sseq [set_message_type 0x010200, set_partition_id (- 1), set_correlation_id 77,
      add_flag BACKUP_AWARE_FLAG]
      (empty_client_message\<lparr>data_buffer := [\<lparr>buf_bytes = replicate 22 0, buf_capacity = 1024\<rparr>]\<rparr>) =
      Inr ((), m' :: unit client_message) \<and>
    get_message_type m' = Inr (0x010200, m') \<and> get_partition_id m' = Inr (- 1, m') \<and>
    get_correlation_id m' = Inr (77, m') \<and> get_header_flags m' = Inr (0 OR BACKUP_AWARE_FLAG, m')"
proof -
  let ?b = "\<lparr>buf_bytes = replicate 22 0, buf_capacity = 1024\<rparr>"
  let ?m = "empty_client_message\<lparr>data_buffer := [?b]\<rparr> :: unit client_message"
  have "get_header_flags ?m = Inr (0, ?m)"
    by (simp add: get_header_flags_def ptr_load_def slice_def numeral_2_eq_2)
  then show ?thesis
    by (intro header_fields_roundtrip [where b = ?b and bs = "[]"])
       (simp_all add: empty_client_message_def)
qed

text \<open>
  The setter of the message type stores eight bytes into the four-byte type field.  Called
  after \<open>set_correlation_id\<close> it overwrites the low half of the correlation id with the sign of
  the type, so that the id read back is no longer the one stored.
\<close>

lemma set_message_type_clobbers_correlation_id:
  assumes "data_buffer m = b # bs" "REQUEST_HEADER_LEN \<le> length (buf_bytes b)"
  shows "\<exists>m'. sseq [set_correlation_id c, set_message_type t] m = Inr ((), m') \<and>
    get_correlation_id m' =
      Inr (drop_bit 32 (scast t :: i64) OR push_bit 32 (drop_bit 32 c), m')"
proof -
  have "slice 10 8 (overwrite 6 (le_bytes 8 (scast t :: i64)) (overwrite 10 (le_bytes 8 c) xs)) =
    le_bytes 4 (drop_bit 32 (scast t :: i64)) @ le_bytes 4 (drop_bit 32 c)"
    if "22 \<le> length xs" for xs
    using that by (simp add: slice_def overwrite_def drop_le_bytes min_def)
  moreover have "take_bit 32 (drop_bit 32 w) = drop_bit 32 w" for w :: i64
    by (rule bit_word_eqI) (auto simp: bit_simps dest: bit_imp_le_length)
  ultimately show ?thesis
    using assms by (simp add: header_access le_word_append le_word_le_bytes)
qed

end
