(* ===== verification/Util_Numeric.thy ===== *)
theory Util_Numeric
  imports HZ_Prelude
begin

text \<open>
  Numeric utilities of \<open>src/hazelcast/util/util.cpp\<close>: the murmur hash of keys, the reduction of a
  hash to an index, the count of leading zeros and the back-off idle strategy built on it.

  The block read of the hash is a native 32-bit load; the model takes a little-endian host, as
  the supported platforms are.

  The lemmas show that the final mix of the hash loses no information, that an index is always
  in range, and that the parking time of the idle strategy stays between its bounds and grows
  to its maximum.
\<close>

section \<open>Murmur hash\<close>

definition rotl32 :: "32 word \<Rightarrow> nat \<Rightarrow> 32 word" where
  "rotl32 x r = push_bit r x OR drop_bit (32 - r) x"

definition fmix32 :: "32 word \<Rightarrow> 32 word" where
  "fmix32 h =
    (let h = h XOR drop_bit 16 h;
         h = h * 0x85ebca6b;
         h = h XOR drop_bit 13 h;
         h = h * 0xc2b2ae35
     in h XOR drop_bit 16 h)"

definition getblock32 :: "byte list \<Rightarrow> nat \<Rightarrow> 32 word" where
  "getblock32 data i = le_word (slice (4 * i) 4 data)"

definition murmur_c1 :: "32 word" where "murmur_c1 = 0xcc9e2d51"
definition murmur_c2 :: "32 word" where "murmur_c2 = 0x1b873593"

definition murmur_mix_k :: "32 word \<Rightarrow> 32 word" where
  "murmur_mix_k k1 = rotl32 (k1 * murmur_c1) 15 * murmur_c2"

definition murmur_body :: "32 word \<Rightarrow> 32 word \<Rightarrow> 32 word" where
  "murmur_body h1 k1 = rotl32 (h1 XOR murmur_mix_k k1) 13 * 5 + 0xe6546b64"

definition murmur_tail :: "32 word \<Rightarrow> byte list \<Rightarrow> 32 word" where
  "murmur_tail h1 tail =
    (let k3 = (if length tail = 3 then push_bit 16 (ucast (tail ! 2)) else 0);
         k2 = (if 2 \<le> length tail then k3 XOR push_bit 8 (ucast (tail ! 1)) else k3)
     in if tail = [] then h1 else h1 XOR murmur_mix_k (k2 XOR ucast (tail ! 0)))"

definition murmur_hash3_x86_32_seed :: "byte list \<Rightarrow> 32 word \<Rightarrow> 32 word" where
  "murmur_hash3_x86_32_seed data seed =
    (let nblocks = length data div 4;
         h1 = foldl murmur_body seed (map (getblock32 data) [0..<nblocks]);
         h2 = murmur_tail h1 (drop (4 * nblocks) data)
     in fmix32 (h2 XOR of_nat (length data)))"

definition murmur_hash3_x86_32 :: "byte list \<Rightarrow> i32" where
  "murmur_hash3_x86_32 data = murmur_hash3_x86_32_seed data 0x01000193"

section \<open>Indices\<close>

definition INT_MIN :: i32 where
  "INT_MIN = 0x80000000"

definition check_positive :: "i32 \<Rightarrow> i32 res" where
  "check_positive v = (if sint v \<le> 0 then Inl IllegalArgument else Inr v)"

definition hash_to_index :: "i32 \<Rightarrow> i32 \<Rightarrow> i32 res" where
  "hash_to_index hash len =
    (case check_positive len of
       Inl e \<Rightarrow> Inl e
     | Inr _ \<Rightarrow>
         let h = (if hash = INT_MIN then 0 else if sint hash < 0 then - hash else hash)
         in Inr (word_of_int (sgn (sint h) * (\<bar>sint h\<bar> mod \<bar>sint len\<bar>))))"

section \<open>Leading zeros and the idle strategy\<close>

text \<open>One narrowing step of the count: \<open>if (x >> s == 0) { n += k; x <<= k; }\<close>.\<close>

definition nlz_step :: "nat \<Rightarrow> nat \<Rightarrow> int \<times> i64 \<Rightarrow> int \<times> i64" where
  "nlz_step s k = (\<lambda>(n, x). if signed_drop_bit s x = 0 then (n + int k, push_bit k x) else (n, x))"

definition number_of_leading_zeros :: "i64 \<Rightarrow> int" where
  "number_of_leading_zeros i =
    (if i = 0 then 64
     else
       let x = signed_drop_bit 32 i;
           s0 = (if x = 0 then (1 + 32, i) else (1, x));
           (n, x) = nlz_step 30 2 (nlz_step 28 4 (nlz_step 24 8 (nlz_step 16 16 s0)))
       in n - sint (signed_drop_bit 31 x))"

record backoff_idle_strategy =
  yield_threshold :: i64
  park_threshold :: i64
  min_park_period_ns :: i64
  max_park_period_ns :: i64
  max_shift :: i32

definition make_backoff :: "i64 \<Rightarrow> i64 \<Rightarrow> i64 \<Rightarrow> i64 \<Rightarrow> backoff_idle_strategy res" where
  "make_backoff max_spins max_yields min_park max_park =
    (if sint max_spins < 0 \<or> sint max_yields < 0 \<or> sint min_park < 0 \<or> sint (max_park - min_park) < 0
     then Inl IllegalArgument
     else Inr \<lparr>yield_threshold = max_spins, park_threshold = max_spins + max_yields,
       min_park_period_ns = min_park, max_park_period_ns = max_park,
       max_shift = word_of_int (number_of_leading_zeros min_park - number_of_leading_zeros max_park)\<rparr>)"

definition park_time :: "backoff_idle_strategy \<Rightarrow> i64 \<Rightarrow> i64" where
  "park_time b n =
    (let proposed = n - park_threshold b;
         allowed = min (sint (max_shift b)) (sint proposed);
         shifted = push_bit (nat allowed) (min_park_period_ns b)
     in if sint (max_shift b) < sint proposed then max_park_period_ns b
        else if sint proposed < sint (max_shift b) then shifted
        else if sint (max_park_period_ns b) < sint shifted then max_park_period_ns b else shifted)"

datatype idle_action = Spin | Yield | Park i64

definition idle :: "backoff_idle_strategy \<Rightarrow> i64 \<Rightarrow> idle_action \<times> bool" where
  "idle b n =
    (if sint n < sint (yield_threshold b) then (Spin, False)
     else if sint n < sint (park_threshold b) then (Yield, False)
     else (Park (park_time b n), park_time b n = max_park_period_ns b))"

section \<open>The final mix is a permutation\<close>

lemma xorshift_inj:
  assumes "0 < k" "x XOR drop_bit k x = y XOR drop_bit k y"
  shows "x = (y :: 'a::len word)"
proof -
  have "bit x n = bit y n" for n
  proof (induction "LENGTH('a) - n" arbitrary: n rule: less_induct)
    case less
    show ?case
    proof (cases "n < LENGTH('a)")
      case True
      then have "bit x (k + n) = bit y (k + n)"
        using less assms(1) by simp
      moreover have "bit (x XOR drop_bit k x) n = bit (y XOR drop_bit k y) n"
        using assms(2) by simp
      ultimately show ?thesis
        by (auto simp: bit_simps)
    next
      case False
      then show ?thesis
        by (auto dest: bit_imp_le_length)
    qed
  qed
  then show ?thesis
    by (simp add: bit_eq_iff)
qed

lemma mult_unit_inj: "c * d = (1 :: 'a::len word) \<Longrightarrow> x * c = y * c \<Longrightarrow> x = y"
  by (metis mult.assoc mult.right_neutral)

text \<open>
  The final mix of the murmur hash is injective on 32-bit values: two keys of the same length
  whose block and tail rounds end in different states have different hashes.
\<close>

lemma fmix32_injective: "fmix32 x = fmix32 y \<longleftrightarrow> x = y"
proof
  assume "fmix32 x = fmix32 y"
  then have "(((x XOR drop_bit 16 x) * 0x85ebca6b) XOR drop_bit 13 ((x XOR drop_bit 16 x) * 0x85ebca6b)) *
      0xc2b2ae35 =
    (((y XOR drop_bit 16 y) * 0x85ebca6b) XOR drop_bit 13 ((y XOR drop_bit 16 y) * 0x85ebca6b)) *
      0xc2b2ae35"
    unfolding fmix32_def Let_def by (rule xorshift_inj [rotated]) simp
  then have "((x XOR drop_bit 16 x) * 0x85ebca6b) XOR drop_bit 13 ((x XOR drop_bit 16 x) * 0x85ebca6b) =
    ((y XOR drop_bit 16 y) * 0x85ebca6b) XOR drop_bit 13 ((y XOR drop_bit 16 y) * 0x85ebca6b)"
    by (rule mult_unit_inj [rotated, where d = "0x7ed1b41d"]) simp
  then have "(x XOR drop_bit 16 x) * 0x85ebca6b = (y XOR drop_bit 16 y) * 0x85ebca6b"
    by (rule xorshift_inj [rotated]) simp
  then have "x XOR drop_bit 16 x = y XOR drop_bit 16 y"
    by (rule mult_unit_inj [rotated, where d = "0xa5cb9243"]) simp
  then show "x = y"
    by (rule xorshift_inj [rotated]) simp
qed simp

section \<open>Indices are in range\<close>

lemma sint_minus:
  fixes h :: i32
  assumes "h \<noteq> INT_MIN"
  shows "sint (- h) = - sint h"
proof -
  have "sint h \<noteq> - (2 ^ 31)"
  proof
    assume "sint h = - (2 ^ 31)"
    moreover have "sint INT_MIN = - (2 ^ 31)"
      by (simp add: INT_MIN_def)
    ultimately have "h = INT_MIN"
      by (metis signed_word_eqI [where 'a = int])
    with assms show False
      by simp
  qed
  then have "- (2 ^ 31) \<le> - sint h" "- sint h < 2 ^ 31"
    using sint_ge [of h] sint_lt [of h] by simp_all
  then have "signed_take_bit 31 (- sint h) = - sint h"
    by (intro signed_take_bit_int_eq_self) simp_all
  then show ?thesis
    by (simp add: sint_word_minus)
qed

lemma hash_to_index_range:
  "case hash_to_index hash len of
     Inr i \<Rightarrow> 0 < sint len \<and> 0 \<le> sint i \<and> sint i < sint len
   | Inl e \<Rightarrow> sint len \<le> 0 \<and> e = IllegalArgument"
proof (cases "0 < sint len")
  case True
  define h where "h = (if hash = INT_MIN then 0 else if sint hash < 0 then - hash else hash)"
  have h: "0 \<le> sint h"
    using sint_minus [of hash] by (auto simp: h_def)
  then have r: "sgn (sint h) * (\<bar>sint h\<bar> mod \<bar>sint len\<bar>) = sint h mod sint len"
    using True by (auto simp: sgn_if)
  have b: "0 \<le> sint h mod sint len" "sint h mod sint len < sint len"
    using True by simp_all
  then have "sint (word_of_int (sint h mod sint len) :: i32) = sint h mod sint len"
    using sint_lt [of len] by (intro sint_word_of_int_id) simp_all
  with True b show ?thesis
    unfolding hash_to_index_def check_positive_def Let_def h_def [symmetric] r by simp
next
  case False
  then show ?thesis
    by (simp add: hash_to_index_def check_positive_def)
qed

section \<open>Leading zeros\<close>

text \<open>The exponent of the highest set bit.\<close>

definition top_bit :: "i64 \<Rightarrow> nat \<Rightarrow> bool" where
  "top_bit x e = (2 ^ e \<le> unat x \<and> unat x < 2 ^ (e + 1))"

lemma top_bit_exists: "x \<noteq> 0 \<Longrightarrow> \<exists>e<64. top_bit x e"
proof -
  assume "x \<noteq> 0"
  then have "0 < unat x"
    by (simp add: unat_gt_0)
  then obtain e where e: "2 ^ e \<le> unat x" "unat x < 2 ^ (e + 1)"
    using ex_power_ivl1 [of 2 "unat x"] by auto
  have "(2 :: nat) ^ e < 2 ^ 64"
    using e(1) unat_less_pow [of x] by simp
  then have "e < 64"
    by (rule power_less_imp_less_exp [rotated]) simp
  with e show ?thesis
    by (auto simp: top_bit_def)
qed

lemma signed_drop_bit_zero_iff:
  "unat (x :: i64) < 2 ^ 63 \<Longrightarrow> signed_drop_bit s x = 0 \<longleftrightarrow> unat x < 2 ^ s"
proof -
  assume "unat x < 2 ^ 63"
  then have "signed_drop_bit s x = drop_bit s x"
    by (intro signed_drop_bit_nonneg) simp
  moreover have "drop_bit s x = 0 \<longleftrightarrow> unat (drop_bit s x) = 0"
    by (simp only: unat_eq_zero)
  moreover have "unat (drop_bit s x) = unat x div 2 ^ s"
    unfolding unat_drop_bit_eq by (rule drop_bit_eq_div)
  ultimately show ?thesis
    by (simp add: div_eq_0_iff)
qed

lemma nlz_step_top_bit:
  assumes "top_bit x e" "lo \<le> e" "e < 32" "s \<le> lo + k" "s + k = 32" "nlz_step s k (n, x) = (n', x')"
  shows "\<exists>e'. top_bit x' e' \<and> s \<le> e' \<and> e' < 32 \<and> int e' - n' = int e - n"
proof -
  have lt: "unat x < 2 ^ 32"
    using assms(1,3) power_increasing [of "e + 1" 32 "2 :: nat"] by (auto simp: top_bit_def)
  then have z: "signed_drop_bit s x = 0 \<longleftrightarrow> unat x < 2 ^ s"
    by (intro signed_drop_bit_zero_iff) simp
  show ?thesis
  proof (cases "unat x < 2 ^ s")
    case True
    then have r: "n' = n + int k" "x' = push_bit k x"
      using assms(6) z by (auto simp: nlz_step_def)
    have "(2 :: nat) ^ e < 2 ^ s"
      using True assms(1) unfolding top_bit_def by linarith
    then have "e < s"
      by (rule power_less_imp_less_exp [rotated]) simp
    have "unat x * 2 ^ k < 2 ^ s * 2 ^ k"
      using True by simp
    also have "(2 :: nat) ^ s * 2 ^ k = 2 ^ 32"
      using assms(5) by (simp flip: power_add)
    finally have "unat x' = unat x * 2 ^ k"
      unfolding r by (intro unat_push_bit) simp
    then have "top_bit x' (e + k)"
      using assms(1) by (simp add: top_bit_def power_add)
    with r \<open>e < s\<close> assms show ?thesis
      by (intro exI [of _ "e + k"]) simp
  next
    case False
    then have r: "n' = n" "x' = x"
      using assms(6) z by (auto simp: nlz_step_def)
    have "(2 :: nat) ^ s < 2 ^ (e + 1)"
      using False assms(1) unfolding top_bit_def by linarith
    then have "s < e + 1"
      by (rule power_less_imp_less_exp [rotated]) simp
    with r assms show ?thesis
      by (intro exI [of _ e]) simp
  qed
qed

lemma nlz_start:
  assumes "top_bit i e" "e < 63"
  obtains n x e0 where "(if signed_drop_bit 32 i = 0 then (1 + 32, i) else (1, signed_drop_bit 32 i)) = (n, x)"
    "top_bit x e0" "e0 < 32" "int e0 - n = int e - 33"
proof -
  have "(2 :: nat) ^ (e + 1) \<le> 2 ^ 63"
    using assms(2) by (intro power_increasing) simp_all
  then have lt: "unat i < 2 ^ 63"
    using assms(1) unfolding top_bit_def by linarith
  note z = signed_drop_bit_zero_iff [OF lt, of 32]
  show thesis
  proof (cases "unat i < 2 ^ 32")
    case True
    have "(2 :: nat) ^ e < 2 ^ 32"
      using True assms(1) unfolding top_bit_def by linarith
    then have "e < 32"
      by (rule power_less_imp_less_exp [rotated]) simp
    with True z assms(1) show thesis
      by (intro that [of 33 i e]) auto
  next
    case False
    have "(2 :: nat) ^ 32 < 2 ^ (e + 1)"
      using False assms(1) unfolding top_bit_def by linarith
    then have "32 < e + 1"
      by (rule power_less_imp_less_exp [rotated]) simp
    then have e: "(2 :: nat) ^ e = 2 ^ (e - 32) * 2 ^ 32" "(2 :: nat) ^ (e + 1) = 2 ^ (e - 32 + 1) * 2 ^ 32"
      by (simp_all only: power_add [symmetric]) simp_all
    have "unat (drop_bit 32 i) = unat i div 2 ^ 32"
      unfolding unat_drop_bit_eq by (rule drop_bit_eq_div)
    moreover have "2 ^ (e - 32) \<le> unat i div 2 ^ 32" "unat i div 2 ^ 32 < 2 ^ (e - 32 + 1)"
      using assms(1) unfolding top_bit_def e by (auto simp: less_eq_div_iff_mult_less_eq div_less_iff_less_mult)
    ultimately have "top_bit (drop_bit 32 i) (e - 32)"
      by (simp add: top_bit_def)
    moreover have "signed_drop_bit 32 i = drop_bit 32 i"
      using lt by (intro signed_drop_bit_nonneg) simp
    ultimately show thesis
      using False z assms(2) \<open>32 < e + 1\<close> by (intro that [of 1 "drop_bit 32 i" "e - 32"]) auto
  qed
qed

lemma nlz_positive:
  assumes "top_bit i e" "e < 63"
  shows "number_of_leading_zeros i = 63 - int e"
proof -
  obtain n0 x0 e0 where s0: "(if signed_drop_bit 32 i = 0 then (1 + 32, i) else (1, signed_drop_bit 32 i)) = (n0, x0)"
    "top_bit x0 e0" "e0 < 32" "int e0 - n0 = int e - 33"
    using nlz_start [OF assms] by blast
  obtain n1 x1 where s1: "nlz_step 16 16 (n0, x0) = (n1, x1)" by force
  obtain e1 where e1: "top_bit x1 e1" "16 \<le> e1" "e1 < 32" "int e1 - n1 = int e - 33"
    using nlz_step_top_bit [OF s0(2) le0 s0(3) _ _ s1] s0(4) by auto
  obtain n2 x2 where s2: "nlz_step 24 8 (n1, x1) = (n2, x2)" by force
  obtain e2 where e2: "top_bit x2 e2" "24 \<le> e2" "e2 < 32" "int e2 - n2 = int e - 33"
    using nlz_step_top_bit [OF e1(1-3) _ _ s2] e1(4) by auto
  obtain n3 x3 where s3: "nlz_step 28 4 (n2, x2) = (n3, x3)" by force
  obtain e3 where e3: "top_bit x3 e3" "28 \<le> e3" "e3 < 32" "int e3 - n3 = int e - 33"
    using nlz_step_top_bit [OF e2(1-3) _ _ s3] e2(4) by auto
  obtain n4 x4 where s4: "nlz_step 30 2 (n3, x3) = (n4, x4)" by force
  obtain e4 where e4: "top_bit x4 e4" "30 \<le> e4" "e4 < 32" "int e4 - n4 = int e - 33"
    using nlz_step_top_bit [OF e3(1-3) _ _ s4] e3(4) by auto
  have "i \<noteq> 0"
    using assms(1) by (auto simp: top_bit_def)
  then have r: "number_of_leading_zeros i = n4 - sint (signed_drop_bit 31 x4)"
    by (simp add: number_of_leading_zeros_def Let_def s0(1) [simplified] s1 s2 s3 s4)
  have lt: "unat x4 < 2 ^ 32"
    using e4(1,3) power_increasing [of "e4 + 1" 32 "2 :: nat"] by (auto simp: top_bit_def)
  have "signed_drop_bit 31 x4 = drop_bit 31 x4"
    using lt by (intro signed_drop_bit_nonneg) simp
  moreover have u: "unat (drop_bit 31 x4) = unat x4 div 2 ^ 31"
    unfolding unat_drop_bit_eq by (rule drop_bit_eq_div)
  moreover have "sint (drop_bit 31 x4) = int (unat (drop_bit 31 x4))"
    using lt u div_le_dividend [of "unat x4" "2 ^ 31"] by (intro sint_unat) simp
  moreover have "unat x4 div 2 ^ 31 = (if e4 = 31 then 1 else 0)"
  proof -
    consider "e4 = 30" | "e4 = 31" using e4(2,3) by linarith
    then show ?thesis
      using e4(1) by cases (auto simp: top_bit_def div_eq_0_iff intro!: div_nat_eqI)
  qed
  ultimately show ?thesis
    using r e4 by (cases "e4 = 31") auto
qed

lemma nlz_positive_exists:
  assumes pos: "0 < sint i"
  shows "\<exists>e<63. top_bit i e \<and> number_of_leading_zeros i = 63 - int e"
proof -
  have lt: "unat i < 2 ^ 63"
    using sint_nonneg_unat(2) [of i] pos by simp
  from pos obtain e where e: "top_bit i e"
    using top_bit_exists [of i] by fastforce
  then have "(2 :: nat) ^ e < 2 ^ 63"
    using lt unfolding top_bit_def by linarith
  then have "e < 63"
    by (rule power_less_imp_less_exp [rotated]) simp
  with e nlz_positive show ?thesis
    by blast
qed

lemma sint_shift_right: "sint (signed_drop_bit s w) = sint w div 2 ^ s"
  by (simp only: sint_signed_drop_bit_eq drop_bit_eq_div)

lemma nlz_negative:
  assumes "sint i < 0"
  shows "number_of_leading_zeros i = 2"
proof -
  let ?x = "signed_drop_bit 32 i"
  have x: "sint ?x = sint i div 2 ^ 32"
    by (rule sint_shift_right)
  have "- (2 ^ 63) div 2 ^ 32 \<le> sint i div 2 ^ 32"
    using sint_ge [of i] by (intro zdiv_mono1) simp_all
  then have b: "- (2 ^ 31) \<le> sint ?x" "sint ?x < 0"
    using assms unfolding x by (simp_all add: pos_imp_zdiv_neg_iff)
  have nz: "signed_drop_bit s ?x \<noteq> 0" for s
  proof -
    have "sint (signed_drop_bit s ?x) = sint ?x div 2 ^ s"
      by (rule sint_shift_right)
    then have "sint (signed_drop_bit s ?x) < 0"
      using b(2) by (simp add: pos_imp_zdiv_neg_iff)
    then show ?thesis by auto
  qed
  have "sint (signed_drop_bit 31 ?x) = sint ?x div 2 ^ 31"
    by (rule sint_shift_right)
  also have "\<dots> = - 1"
    using b by (intro int_div_pos_eq [where r = "sint ?x + 2 ^ 31"]) simp_all
  finally have last: "sint (signed_drop_bit 31 ?x) = - 1" .
  have steps: "nlz_step s k (n, ?x) = (n, ?x)" for s k n
    using nz [of s] by (simp only: nlz_step_def prod.case if_False)
  have "i \<noteq> 0" "?x \<noteq> 0"
    using assms b(2) by auto
  then show ?thesis
    by (simp only: number_of_leading_zeros_def Let_def steps last if_False prod.case)
qed

text \<open>
  On positive arguments \<open>number_of_leading_zeros\<close> returns the documented value: with \<open>e\<close> the
  exponent of the highest set bit it is \<open>63 - e\<close>.  On every negative argument it returns 2,
  although the documentation asks for 0 there: the shifts of the signed argument are arithmetic.
\<close>

lemma number_of_leading_zeros_spec:
  "(0 < sint i \<longrightarrow> (\<exists>e<63. top_bit i e \<and> number_of_leading_zeros i = 63 - int e)) \<and>
   (sint i < 0 \<longrightarrow> number_of_leading_zeros i = 2)"
  using nlz_positive_exists nlz_negative by blast

section \<open>The idle strategy\<close>

lemma sint_sub_nonneg:
  fixes x y :: i64
  assumes "0 \<le> sint x" "0 \<le> sint y"
  shows "sint (x - y) = sint x - sint y"
proof -
  have "- (2 ^ 63) \<le> sint x - sint y" "sint x - sint y < 2 ^ 63"
    using assms sint_lt [of x] sint_lt [of y] by simp_all
  then have "signed_take_bit 63 (sint x - sint y) = sint x - sint y"
    by (intro signed_take_bit_int_eq_self) simp_all
  then show ?thesis
    by (simp add: sint_word_ariths)
qed

lemma nonneg_top_bit:
  assumes "0 \<le> sint (w :: i64)" "w \<noteq> 0"
  obtains e where "top_bit w e" "e < 63"
    "number_of_leading_zeros w = 63 - int e" "2 ^ e \<le> sint w" "sint w < 2 ^ (e + 1)"
proof -
  have "sint w \<noteq> 0"
    using assms(2) by (metis signed_eq_0_iff)
  with assms(1) have "0 < sint w"
    by simp
  then obtain e where e: "e < 63" "top_bit w e" "number_of_leading_zeros w = 63 - int e"
    using nlz_positive_exists by blast
  have "(2 :: nat) ^ e \<le> unat w" "unat w < 2 ^ (e + 1)"
    using e(2) by (simp_all add: top_bit_def)
  then have "int (2 ^ e) \<le> int (unat w)" "int (unat w) < int (2 ^ (e + 1))"
    by (simp_all only: of_nat_le_iff of_nat_less_iff)
  then have "2 ^ e \<le> sint w" "sint w < 2 ^ (e + 1)"
    unfolding sint_nonneg_unat(1) [OF assms(1)] by simp_all
  with e show thesis
    using that by blast
qed

lemma park_shift_bounds:
  fixes lo hi :: i64
  assumes "0 \<le> sint lo" "sint lo \<le> sint hi" "lo \<noteq> 0"
    and s: "int s \<le> number_of_leading_zeros lo - number_of_leading_zeros hi"
  shows "sint (push_bit s lo) = sint lo * 2 ^ s"
    and "int s < number_of_leading_zeros lo - number_of_leading_zeros hi \<Longrightarrow> sint lo * 2 ^ s \<le> sint hi"
proof -
  obtain e where e: "e < 63" "number_of_leading_zeros lo = 63 - int e" "sint lo < 2 ^ (e + 1)"
    using nonneg_top_bit [OF assms(1,3)] by blast
  have "0 < sint lo"
    using assms(1,3) by (metis order_le_less signed_eq_0_iff)
  then have "hi \<noteq> 0" "0 \<le> sint hi"
    using assms(2) by auto
  then obtain f where f: "f < 63" "number_of_leading_zeros hi = 63 - int f" "2 ^ f \<le> sint hi"
    using nonneg_top_bit [of hi] by blast
  have mono: "sint lo * 2 ^ s < 2 ^ k" if "e + 1 + s \<le> k" for k
  proof -
    have "sint lo * 2 ^ s < 2 ^ (e + 1) * 2 ^ s"
      using e(3) by simp
    also have "\<dots> = 2 ^ (e + 1 + s)"
      by (simp only: power_add)
    also have "\<dots> \<le> (2 :: int) ^ k"
      using that by (intro power_increasing) simp_all
    finally show ?thesis .
  qed
  have "sint lo * 2 ^ s < 2 ^ 63"
    using mono [of 63] s e f by simp
  moreover have "push_bit s lo = word_of_int (sint lo * 2 ^ s)"
    by (simp add: push_bit_eq_mult)
  ultimately show "sint (push_bit s lo) = sint lo * 2 ^ s"
    using assms(1) by (simp only:) (intro sint_word_of_int_id, simp_all add: order_trans [of _ 0])
  assume "int s < number_of_leading_zeros lo - number_of_leading_zeros hi"
  then have "sint lo * 2 ^ s < 2 ^ f"
    using mono [of f] e f by simp
  with f(3) show "sint lo * 2 ^ s \<le> sint hi"
    by simp
qed

lemma nlz_range:
  assumes "0 \<le> sint (w :: i64)"
  shows "1 \<le> number_of_leading_zeros w \<and> number_of_leading_zeros w \<le> 64"
proof (cases "w = 0")
  case True
  then show ?thesis by (simp add: number_of_leading_zeros_def)
next
  case False
  obtain e where "e < 63" "number_of_leading_zeros w = 63 - int e"
    using nonneg_top_bit [OF assms False] by blast
  then show ?thesis by simp
qed

lemma nlz_antimono:
  assumes "0 \<le> sint (lo :: i64)" "sint lo \<le> sint hi"
  shows "number_of_leading_zeros hi \<le> number_of_leading_zeros lo"
proof (cases "lo = 0")
  case True
  then show ?thesis
    using nlz_range [of hi] assms by (simp add: number_of_leading_zeros_def)
next
  case False
  then have "hi \<noteq> 0" "0 \<le> sint hi"
    using assms by (auto, metis order_antisym signed_0 signed_eq_0_iff)
  then obtain f where f: "number_of_leading_zeros hi = 63 - int f" "sint hi < 2 ^ (f + 1)"
    using nonneg_top_bit [of hi] by blast
  obtain e where e: "number_of_leading_zeros lo = 63 - int e" "2 ^ e \<le> sint lo"
    using nonneg_top_bit [OF assms(1) False] by blast
  have "(2 :: int) ^ e < 2 ^ (f + 1)"
    using e(2) f(2) assms(2) by linarith
  then have "e < f + 1"
    by (rule power_less_imp_less_exp [rotated]) simp
  with e f show ?thesis
    by simp
qed

lemma park_time_range:
  assumes "make_backoff spins yields lo hi = Inr b" "0 \<le> sint hi"
    "sint spins + sint yields < 2 ^ 63" "sint (park_threshold b) \<le> sint n"
  shows "sint lo \<le> sint (park_time b n) \<and> sint (park_time b n) \<le> sint hi \<and>
    (sint (park_threshold b) + 65 \<le> sint n \<longrightarrow> park_time b n = hi)"
proof -
  have neg: "\<not> (sint spins < 0 \<or> sint yields < 0 \<or> sint lo < 0 \<or> sint (hi - lo) < 0)"
    and b: "b = \<lparr>yield_threshold = spins, park_threshold = spins + yields,
       min_park_period_ns = lo, max_park_period_ns = hi,
       max_shift = word_of_int (number_of_leading_zeros lo - number_of_leading_zeros hi)\<rparr>"
    using assms(1) by (auto simp: make_backoff_def split: if_splits)
  have le: "0 \<le> sint lo" "sint lo \<le> sint hi"
    using neg sint_sub_nonneg [of hi lo] assms(2) by auto
  define d where "d = number_of_leading_zeros lo - number_of_leading_zeros hi"
  have d: "0 \<le> d" "d \<le> 63"
    using nlz_antimono [OF le] nlz_range [of lo] nlz_range [of hi] le assms(2) by (auto simp: d_def)
  have sh: "sint (max_shift b) = d"
    using d by (simp add: b flip: d_def) (rule sint_word_of_int_id, simp_all)
  have "0 \<le> sint (park_threshold b)"
  proof -
    have "sint (spins + yields) = sint spins + sint yields"
      using neg assms(3) by (simp add: sint_word_ariths signed_take_bit_int_eq_self)
    then show ?thesis using neg by (simp add: b)
  qed
  then have p: "sint (n - park_threshold b) = sint n - sint (park_threshold b)"
    using assms(4) by (intro sint_sub_nonneg) simp_all
  define s where "s = nat (sint n - sint (park_threshold b))"
  have s: "sint (n - park_threshold b) = int s"
    using p assms(4) by (simp add: s_def)
  show ?thesis
  proof (cases "d < int s")
    case True
    then have "park_time b n = hi"
      by (simp add: park_time_def Let_def sh s) (simp add: b)
    then show ?thesis
      using le by simp
  next
    case False
    then have pt: "park_time b n = (if int s < d \<or> sint (push_bit s lo) \<le> sint hi then push_bit s lo else hi)"
      by (auto simp: park_time_def Let_def sh s) (simp_all add: b)
    have far: "\<not> sint (park_threshold b) + 65 \<le> sint n"
      using False d(2) s p by simp
    show ?thesis
    proof (cases "lo = 0")
      case True
      then show ?thesis using pt far assms(2) by simp
    next
      case False
      have "int s \<le> d"
        using \<open>\<not> d < int s\<close> by simp
      note bounds = park_shift_bounds [OF le False, of s, folded d_def, OF this]
      have "sint lo * 1 \<le> sint lo * 2 ^ s"
        using le by (intro mult_left_mono) simp_all
      then show ?thesis
        using pt far bounds le by auto
    qed
  qed
qed

text \<open>
  C5. The parking time of the idle strategy is always between its configured minimum and maximum,
  however many rounds have passed, and it is the maximum from 65 rounds past the parking
  threshold on; no shift overflows on the way.
\<close>

theorem park_time_bounds:
  assumes "make_backoff spins yields lo hi = Inr b" "0 \<le> sint hi"
    "sint spins + sint yields < 2 ^ 63" "sint (park_threshold b) \<le> sint n"
  shows "sint lo \<le> sint (park_time b n) \<and> sint (park_time b n) \<le> sint hi \<and>
    (sint (park_threshold b) + 65 \<le> sint n \<longrightarrow> park_time b n = hi)"
  using assms by (rule park_time_range)

theorem park_time_bounds_witness:
  "\<exists>b. make_backoff 10 10 50 500 = Inr b \<and>
    sint (50 :: i64) \<le> sint (park_time b 22) \<and> sint (park_time b 22) \<le> sint (500 :: i64)"
proof -
  obtain b where b: "make_backoff 10 10 50 500 = Inr b" "park_threshold b = 20"
    by (simp add: make_backoff_def)
  then show ?thesis
    using park_time_bounds [OF b(1), of 22] by auto
qed

end
