(* ===== verification/Compact_Schema.thy ===== *)
theory Compact_Schema
  imports HZ_Prelude "HOL-Library.List_Lexorder" "HOL-Library.Multiset"
begin

text \<open>
  Schemas of the compact serialization format, from \<open>src/hazelcast/client/compact.cpp\<close>
  (\<open>schema\<close>, \<open>schema_writer\<close>, \<open>rabin_finger_print\<close>) and the headers \<open>field_kind.h\<close>,
  \<open>field_descriptor.h\<close> and \<open>schema.h\<close>.

  A \<open>std::unordered_map\<close> is an association list with distinct keys, in some iteration order; a
  \<open>std::map\<close> built from it is the same list sorted by key.  Names are byte strings, ordered as
  \<open>std::string\<close> orders them.

  The lemmas show that the table-driven fingerprint is the bitwise one, that the layout computed
  by the constructor gives no two fields a common bit, and that it does not depend on the
  iteration order of the map.
\<close>

type_synonym hz_string = "byte list"

section \<open>Field kinds\<close>

datatype field_kind =
    FK_NOT_AVAILABLE | FK_BOOLEAN | FK_ARRAY_OF_BOOLEAN | FK_INT8 | FK_ARRAY_OF_INT8 | FK_INT16
     | FK_ARRAY_OF_INT16 | FK_INT32 | FK_ARRAY_OF_INT32 | FK_INT64 | FK_ARRAY_OF_INT64
     | FK_FLOAT32 | FK_ARRAY_OF_FLOAT32 | FK_FLOAT64 | FK_ARRAY_OF_FLOAT64 | FK_STRING
     | FK_ARRAY_OF_STRING | FK_DECIMAL | FK_ARRAY_OF_DECIMAL | FK_TIME | FK_ARRAY_OF_TIME
     | FK_DATE | FK_ARRAY_OF_DATE | FK_TIMESTAMP | FK_ARRAY_OF_TIMESTAMP
     | FK_TIMESTAMP_WITH_TIMEZONE | FK_ARRAY_OF_TIMESTAMP_WITH_TIMEZONE | FK_COMPACT
     | FK_ARRAY_OF_COMPACT | FK_NULLABLE_BOOLEAN | FK_ARRAY_OF_NULLABLE_BOOLEAN
     | FK_NULLABLE_INT8 | FK_ARRAY_OF_NULLABLE_INT8 | FK_NULLABLE_INT16
     | FK_ARRAY_OF_NULLABLE_INT16 | FK_NULLABLE_INT32 | FK_ARRAY_OF_NULLABLE_INT32
     | FK_NULLABLE_INT64 | FK_ARRAY_OF_NULLABLE_INT64 | FK_NULLABLE_FLOAT32
     | FK_ARRAY_OF_NULLABLE_FLOAT32 | FK_NULLABLE_FLOAT64 | FK_ARRAY_OF_NULLABLE_FLOAT64

fun kind_id :: "field_kind \<Rightarrow> nat" where
  "kind_id FK_NOT_AVAILABLE = 0"
| "kind_id FK_BOOLEAN = 1"
| "kind_id FK_ARRAY_OF_BOOLEAN = 2"
| "kind_id FK_INT8 = 3"
| "kind_id FK_ARRAY_OF_INT8 = 4"
| "kind_id FK_INT16 = 7"
| "kind_id FK_ARRAY_OF_INT16 = 8"
| "kind_id FK_INT32 = 9"
| "kind_id FK_ARRAY_OF_INT32 = 10"
| "kind_id FK_INT64 = 11"
| "kind_id FK_ARRAY_OF_INT64 = 12"
| "kind_id FK_FLOAT32 = 13"
| "kind_id FK_ARRAY_OF_FLOAT32 = 14"
| "kind_id FK_FLOAT64 = 15"
| "kind_id FK_ARRAY_OF_FLOAT64 = 16"
| "kind_id FK_STRING = 17"
| "kind_id FK_ARRAY_OF_STRING = 18"
| "kind_id FK_DECIMAL = 19"
| "kind_id FK_ARRAY_OF_DECIMAL = 20"
| "kind_id FK_TIME = 21"
| "kind_id FK_ARRAY_OF_TIME = 22"
| "kind_id FK_DATE = 23"
| "kind_id FK_ARRAY_OF_DATE = 24"
| "kind_id FK_TIMESTAMP = 25"
| "kind_id FK_ARRAY_OF_TIMESTAMP = 26"
| "kind_id FK_TIMESTAMP_WITH_TIMEZONE = 27"
| "kind_id FK_ARRAY_OF_TIMESTAMP_WITH_TIMEZONE = 28"
| "kind_id FK_COMPACT = 29"
| "kind_id FK_ARRAY_OF_COMPACT = 30"
| "kind_id FK_NULLABLE_BOOLEAN = 33"
| "kind_id FK_ARRAY_OF_NULLABLE_BOOLEAN = 34"
| "kind_id FK_NULLABLE_INT8 = 35"
| "kind_id FK_ARRAY_OF_NULLABLE_INT8 = 36"
| "kind_id FK_NULLABLE_INT16 = 37"
| "kind_id FK_ARRAY_OF_NULLABLE_INT16 = 38"
| "kind_id FK_NULLABLE_INT32 = 39"
| "kind_id FK_ARRAY_OF_NULLABLE_INT32 = 40"
| "kind_id FK_NULLABLE_INT64 = 41"
| "kind_id FK_ARRAY_OF_NULLABLE_INT64 = 42"
| "kind_id FK_NULLABLE_FLOAT32 = 43"
| "kind_id FK_ARRAY_OF_NULLABLE_FLOAT32 = 44"
| "kind_id FK_NULLABLE_FLOAT64 = 45"
| "kind_id FK_ARRAY_OF_NULLABLE_FLOAT64 = 46"

definition VARIABLE_SIZE :: int where
  "VARIABLE_SIZE = -1"

fun kind_size_in_bytes :: "field_kind \<Rightarrow> int" where
  "kind_size_in_bytes FK_BOOLEAN = 0"
| "kind_size_in_bytes FK_INT8 = 1"
| "kind_size_in_bytes FK_INT16 = 2"
| "kind_size_in_bytes FK_INT32 = 4"
| "kind_size_in_bytes FK_INT64 = 8"
| "kind_size_in_bytes FK_FLOAT32 = 4"
| "kind_size_in_bytes FK_FLOAT64 = 8"
| "kind_size_in_bytes k = VARIABLE_SIZE"

record field_descriptor =
  fd_kind :: field_kind
  fd_index :: int
  fd_offset :: int
  fd_bit_offset :: int

definition make_field_descriptor :: "field_kind \<Rightarrow> field_descriptor" where
  "make_field_descriptor k =
    \<lparr>fd_kind = k, fd_index = -1, fd_offset = -1, fd_bit_offset = -1\<rparr>"

section \<open>Rabin fingerprint\<close>

definition RABIN_INIT :: "64 word" where
  "RABIN_INIT = 0xc15d213aa4d7a795"

definition fp_step :: "64 word \<Rightarrow> 64 word" where
  "fp_step fp = drop_bit 1 fp XOR (RABIN_INIT AND ((- 1) * (fp AND 1)))"

definition init_fp_table :: "64 word list" where
  "init_fp_table = map (\<lambda>i. (fp_step ^^ 8) (of_nat i)) [0..<256]"

definition fingerprint64_byte :: "64 word \<Rightarrow> byte \<Rightarrow> 64 word" where
  "fingerprint64_byte fp b =
    drop_bit 8 fp XOR init_fp_table ! unat ((ucast (fp XOR ucast b) :: 32 word) AND 0xff)"

definition fingerprint64_int :: "64 word \<Rightarrow> i32 \<Rightarrow> 64 word" where
  "fingerprint64_int fp v =
    fingerprint64_byte (fingerprint64_byte (fingerprint64_byte (fingerprint64_byte fp
      (ucast (v AND 0xff))) (ucast (signed_drop_bit 8 v AND 0xff)))
      (ucast (signed_drop_bit 16 v AND 0xff))) (ucast (signed_drop_bit 24 v AND 0xff))"

definition fingerprint64_string :: "64 word \<Rightarrow> hz_string \<Rightarrow> 64 word" where
  "fingerprint64_string fp value =
    foldl fingerprint64_byte (fingerprint64_int fp (of_nat (length value))) value"

definition fingerprint64 :: "hz_string \<Rightarrow> (hz_string \<times> field_descriptor) list \<Rightarrow> i64" where
  "fingerprint64 type_name flds =
    foldl (\<lambda>fp (name, d). fingerprint64_int (fingerprint64_string fp name) (of_nat (kind_id (fd_kind d))))
      (fingerprint64_int (fingerprint64_string RABIN_INIT type_name) (of_nat (length flds))) flds"

section \<open>The schema constructor\<close>

record schema =
  sch_type_name :: hz_string
  field_definition_map :: "(hz_string \<times> field_descriptor) list"
  number_of_var_size_fields :: nat
  fixed_size_fields_length :: nat
  schema_id :: i64

text \<open>The remainder of C++, which has the sign of the dividend.\<close>

definition c_rem :: "int \<Rightarrow> int \<Rightarrow> int" where
  "c_rem a b = sgn a * (\<bar>a\<bar> mod \<bar>b\<bar>)"

fun assign_fixed :: "int \<Rightarrow> (hz_string \<times> field_descriptor) list \<Rightarrow>
    (hz_string \<times> field_descriptor) list \<times> int" where
  "assign_fixed offset [] = ([], offset)"
| "assign_fixed offset ((n, d) # fs) =
    (let (fs', offset') = assign_fixed (offset + kind_size_in_bytes (fd_kind d)) fs
     in ((n, d\<lparr>fd_offset := offset\<rparr>) # fs', offset'))"

fun assign_boolean :: "int \<Rightarrow> i8 \<Rightarrow> (hz_string \<times> field_descriptor) list \<Rightarrow>
    (hz_string \<times> field_descriptor) list \<times> int \<times> i8" where
  "assign_boolean offset bit_offset [] = ([], offset, bit_offset)"
| "assign_boolean offset bit_offset ((n, d) # fs) =
    (let bit_offset1 = bit_offset + 1;
         offset1 = (if c_rem (sint bit_offset1) 8 = 0 then offset + 1 else offset);
         (fs', r) = assign_boolean offset1 bit_offset1 fs
     in ((n, d\<lparr>fd_offset := offset, fd_bit_offset := c_rem (sint bit_offset) 8\<rparr>) # fs', r))"

fun assign_variable :: "int \<Rightarrow> (hz_string \<times> field_descriptor) list \<Rightarrow>
    (hz_string \<times> field_descriptor) list \<times> int" where
  "assign_variable index [] = ([], index)"
| "assign_variable index ((n, d) # fs) =
    (let (fs', index') = assign_variable (index + 1) fs in ((n, d\<lparr>fd_index := index\<rparr>) # fs', index'))"

definition is_variable_size :: "hz_string \<times> field_descriptor \<Rightarrow> bool" where
  "is_variable_size f = (kind_size_in_bytes (fd_kind (snd f)) = VARIABLE_SIZE)"

definition is_boolean :: "hz_string \<times> field_descriptor \<Rightarrow> bool" where
  "is_boolean f = (\<not> is_variable_size f \<and> fd_kind (snd f) = FK_BOOLEAN)"

definition is_fixed_size :: "hz_string \<times> field_descriptor \<Rightarrow> bool" where
  "is_fixed_size f = (\<not> is_variable_size f \<and> fd_kind (snd f) \<noteq> FK_BOOLEAN)"

definition schema_layout :: "(hz_string \<times> field_descriptor) list \<Rightarrow>
    (hz_string \<times> field_descriptor) list \<times> int \<times> int" where
  "schema_layout sorted_fields =
    (let fixed_size_fields = sort_key (\<lambda>f. - kind_size_in_bytes (fd_kind (snd f)))
           (filter is_fixed_size sorted_fields);
         (fixed', offset) = assign_fixed 0 fixed_size_fields;
         (bools', offset', bit_offset) = assign_boolean offset 0 (filter is_boolean sorted_fields);
         offset'' = (if c_rem (sint bit_offset) 8 \<noteq> 0 then offset' + 1 else offset');
         (vars', index) = assign_variable 0 (filter is_variable_size sorted_fields)
     in (fixed' @ bools' @ vars', offset'', index))"

definition make_schema :: "hz_string \<Rightarrow> (hz_string \<times> field_descriptor) list \<Rightarrow> schema" where
  "make_schema type_name flds =
    (let sorted_fields = sort_key fst flds;
         (assigned, offset, index) = schema_layout sorted_fields
     in \<lparr>sch_type_name = type_name,
         field_definition_map =
           map (\<lambda>(n, d). (n, case map_of assigned n of None \<Rightarrow> d | Some d' \<Rightarrow> d')) flds,
         number_of_var_size_fields = nat index,
         fixed_size_fields_length = nat offset,
         schema_id = fingerprint64 type_name sorted_fields\<rparr>)"

definition get_field :: "schema \<Rightarrow> hz_string \<Rightarrow> field_descriptor option" where
  "get_field s name = map_of (field_definition_map s) name"

definition descriptor_eq :: "field_descriptor \<Rightarrow> field_descriptor \<Rightarrow> bool" where
  "descriptor_eq x y = (fd_kind x = fd_kind y)"

definition schema_eq :: "schema \<Rightarrow> schema \<Rightarrow> bool" where
  "schema_eq x y =
    (number_of_var_size_fields x = number_of_var_size_fields y \<and>
     fixed_size_fields_length x = fixed_size_fields_length y \<and>
     schema_id x = schema_id y \<and> sch_type_name x = sch_type_name y \<and>
     length (field_definition_map x) = length (field_definition_map y) \<and>
     list_all (\<lambda>(n, d). case map_of (field_definition_map y) n of
         None \<Rightarrow> False | Some d' \<Rightarrow> descriptor_eq d' d) (field_definition_map x))"

record schema_writer =
  sw_type_name :: hz_string
  sw_fields :: "(hz_string \<times> field_descriptor) list"

definition add_field :: "hz_string \<Rightarrow> field_kind \<Rightarrow> (schema_writer, unit) sm" where
  "add_field name k = (\<lambda>w.
    if map_of (sw_fields w) name \<noteq> None then Inl HazelcastSerialization
    else Inr ((), w\<lparr>sw_fields := sw_fields w @ [(name, make_field_descriptor k)]\<rparr>))"

definition build_schema :: "schema_writer \<Rightarrow> schema" where
  "build_schema w = make_schema (sw_type_name w) (sw_fields w)"

section \<open>The table is the bitwise division\<close>

lemma fp_step_cases:
  "fp_step x = (if bit x 0 then drop_bit 1 x XOR RABIN_INIT else drop_bit 1 x)"
proof (cases "bit x 0")
  case True
  then have "x AND 1 = 1" by (simp add: and_one_eq bit_0 odd_iff_mod_2_eq_one)
  with True show ?thesis by (simp add: fp_step_def)
next
  case False
  then have "x AND 1 = 0" by (simp add: and_one_eq bit_0 even_iff_mod_2_eq_zero)
  with False show ?thesis by (simp add: fp_step_def)
qed

lemma fp_step_xor: "fp_step (x XOR y) = fp_step x XOR fp_step y"
  by (rule bit_word_eqI) (auto simp: fp_step_cases bit_simps)

lemma fp_steps_xor: "(fp_step ^^ n) (x XOR y) = (fp_step ^^ n) x XOR (fp_step ^^ n) y"
  by (induction n) (simp_all add: fp_step_xor)

lemma fp_steps_shift: "(fp_step ^^ n) (push_bit n (drop_bit n x)) = drop_bit n x"
proof (induction n arbitrary: x)
  case (Suc n)
  let ?y = "push_bit (Suc n) (drop_bit (Suc n) x)"
  have "drop_bit 1 ?y = push_bit n (drop_bit n (drop_bit 1 x))"
    by (rule bit_word_eqI) (auto simp: bit_simps dest: bit_imp_le_length simp del: push_bit_Suc)
  moreover have "\<not> bit ?y 0"
    by (simp add: bit_push_bit_iff del: push_bit_Suc)
  ultimately have "fp_step ?y = push_bit n (drop_bit n (drop_bit 1 x))"
    unfolding fp_step_cases by (simp del: push_bit_Suc)
  then have "(fp_step ^^ Suc n) ?y = drop_bit n (drop_bit 1 x)"
    using Suc.IH [of "drop_bit 1 x"] by (simp add: funpow_Suc_right del: funpow.simps push_bit_Suc)
  then show ?case
    by simp
qed simp

lemma split_low_byte: "(x :: 64 word) = push_bit 8 (drop_bit 8 x) XOR take_bit 8 x"
  by (rule bit_word_eqI) (auto simp: bit_simps)

lemma fp_table_index:
  "init_fp_table ! unat ((ucast y :: 32 word) AND 0xff) = (fp_step ^^ 8) (take_bit 8 y)"
  for y :: "64 word"
proof -
  have m: "(0xff :: 32 word) = mask 8"
    by code_simp
  have "(ucast y :: 32 word) AND 0xff = take_bit 8 (ucast y)"
    by (simp only: m take_bit_eq_mask)
  then have u: "unat ((ucast y :: 32 word) AND 0xff) = take_bit 8 (unat y)"
    by (simp add: unsigned_take_bit_eq unsigned_ucast_eq)
  moreover have "take_bit 8 (unat y) < 256"
    using take_bit_nat_less_exp [of 8 "unat y"] by simp
  moreover have "of_nat (take_bit 8 (unat y)) = take_bit 8 y"
    by (metis ucast_id of_nat_unat unsigned_take_bit_eq)
  ultimately show ?thesis
    by (simp add: init_fp_table_def)
qed

text \<open>
  C2. The table-driven fingerprint update is the bitwise polynomial division: folding one byte
  into a fingerprint through the 256-entry table gives the same 64-bit value as eight single-bit
  division steps on the fingerprint with the byte added to its low end.
\<close>

theorem fingerprint64_byte_bitwise:
  "fingerprint64_byte fp b = (fp_step ^^ 8) (fp XOR ucast b)"
proof -
  let ?y = "fp XOR ucast b"
  have "(fp_step ^^ 8) ?y =
    (fp_step ^^ 8) (push_bit 8 (drop_bit 8 ?y)) XOR (fp_step ^^ 8) (take_bit 8 ?y)"
    by (subst split_low_byte [of ?y]) (simp add: fp_steps_xor)
  also have "\<dots> = drop_bit 8 ?y XOR init_fp_table ! unat ((ucast ?y :: 32 word) AND 0xff)"
    by (simp only: fp_steps_shift fp_table_index)
  also have "drop_bit 8 ?y = drop_bit 8 fp"
    by (rule bit_word_eqI) (auto simp: bit_simps dest: bit_byte_bound)
  finally show ?thesis
    by (simp add: fingerprint64_byte_def)
qed

section \<open>The layout\<close>

lemma c_rem_bit_offset:
  "k \<le> 128 \<Longrightarrow> c_rem (sint (of_nat k :: i8)) 8 = int k mod 8"
  "k \<le> 129 \<Longrightarrow> c_rem (sint (of_nat k :: i8)) 8 = 0 \<longleftrightarrow> k mod 8 = 0"
proof -
  have small: "sint (of_nat k :: i8) = int k" if "k < 128" for k
    using that
    by (simp add: sint_uint unsigned_of_nat take_bit_nat_eq_self signed_take_bit_int_eq_self)
  have big: "sint (of_nat 128 :: i8) = - 128" "sint (of_nat 129 :: i8) = - 127"
    by simp_all
  have c: "c_rem (int k) 8 = int k mod 8" for k
    by (cases k) (simp_all add: c_rem_def sgn_if)
  have e: "int k mod 8 = 0 \<longleftrightarrow> k mod 8 = 0" for k
    by (metis of_nat_eq_0_iff of_nat_numeral zmod_int)
  show "c_rem (sint (of_nat k :: i8)) 8 = int k mod 8" if "k \<le> 128"
  proof (cases "k = 128")
    case True
    then show ?thesis using big by (simp add: c_rem_def)
  next
    case False
    with that show ?thesis by (simp only: small c le_neq_implies_less)
  qed
  show "c_rem (sint (of_nat k :: i8)) 8 = 0 \<longleftrightarrow> k mod 8 = 0" if k: "k \<le> 129"
  proof -
    consider "k < 128" | "k = 128" | "k = 129" using k by linarith
    then show ?thesis
    proof cases
      case 1
      then show ?thesis by (simp only: small c e)
    next
      case 2
      then show ?thesis using big by (simp add: c_rem_def)
    next
      case 3
      then show ?thesis using big by (simp add: c_rem_def)
    qed
  qed
qed

text \<open>The bits of the fixed-size part a field occupies, as pairs of byte and bit.\<close>

definition occupies :: "field_descriptor \<Rightarrow> (int \<times> int) set" where
  "occupies d =
    (if kind_size_in_bytes (fd_kind d) = VARIABLE_SIZE then {}
     else if fd_kind d = FK_BOOLEAN then {(fd_offset d, fd_bit_offset d)}
     else {fd_offset d..<fd_offset d + kind_size_in_bytes (fd_kind d)} \<times> {0..<8})"

lemma kind_size_nonneg: "kind_size_in_bytes k \<noteq> VARIABLE_SIZE \<Longrightarrow> 0 \<le> kind_size_in_bytes k"
  by (cases k) (simp_all add: VARIABLE_SIZE_def)

lemma assign_fixed_spec:
  assumes "assign_fixed o1 fs = (fs', o2)" "\<forall>f\<in>set fs. is_fixed_size f"
  shows "map fst fs' = map fst fs \<and> (\<forall>f\<in>set fs'. is_fixed_size f) \<and> o1 \<le> o2 \<and>
    (\<forall>f\<in>set fs'. occupies (snd f) \<subseteq> {o1..<o2} \<times> {0..<8}) \<and>
    sorted_wrt (\<lambda>f g. occupies (snd f) \<inter> occupies (snd g) = {}) fs'"
  using assms
proof (induction o1 fs arbitrary: fs' o2 rule: assign_fixed.induct)
  case (2 off n d fs)
  let ?s = "kind_size_in_bytes (fd_kind d)"
  obtain fs1 where fs1: "assign_fixed (off + ?s) fs = (fs1, o2)"
    "fs' = (n, d\<lparr>fd_offset := off\<rparr>) # fs1"
    using 2(2) by (auto split: prod.splits)
  have d: "is_fixed_size (n, d)" "0 \<le> ?s"
    using 2(3) kind_size_nonneg by (auto simp: is_fixed_size_def is_variable_size_def)
  then have occ: "occupies (d\<lparr>fd_offset := off\<rparr>) = {off..<off + ?s} \<times> {0..<8}"
    by (simp add: occupies_def is_fixed_size_def is_variable_size_def)
  have IH: "map fst fs1 = map fst fs" "\<forall>f\<in>set fs1. is_fixed_size f" "off + ?s \<le> o2"
    "\<forall>f\<in>set fs1. occupies (snd f) \<subseteq> {off + ?s..<o2} \<times> {0..<8}"
    "sorted_wrt (\<lambda>f g. occupies (snd f) \<inter> occupies (snd g) = {}) fs1"
    using 2(1) [OF fs1(1)] 2(3) by auto
  have "occupies (d\<lparr>fd_offset := off\<rparr>) \<inter> occupies (snd f) = {}" if "f \<in> set fs1" for f
    using IH(4) that occ by fastforce
  moreover have "occupies (snd f) \<subseteq> {off..<o2} \<times> {0..<8}" if "f \<in> set fs1" for f
    using IH(4) that d(2) by fastforce
  ultimately show ?case
    using IH d occ fs1(2)
    by (auto simp: is_fixed_size_def is_variable_size_def)
qed auto

lemma assign_boolean_spec:
  assumes "assign_boolean (base + int (k div 8)) (of_nat k) fs = (fs', o2, bo)"
    "k + length fs \<le> 129" "\<forall>f\<in>set fs. is_boolean f" "0 \<le> base"
  shows "map fst fs' = map fst fs \<and> (\<forall>f\<in>set fs'. is_boolean f) \<and>
    o2 = base + int ((k + length fs) div 8) \<and> bo = of_nat (k + length fs) \<and>
    (\<forall>i<length fs'. occupies (snd (fs' ! i)) =
      {(base + int ((k + i) div 8), int ((k + i) mod 8))})"
  using assms
proof (induction fs arbitrary: k fs' o2 bo)
  case (Cons f fs)
  obtain n d where f: "f = (n, d)" by force
  have b1: "(of_nat k + 1 :: i8) = of_nat (Suc k)"
    by (simp add: add.commute)
  have o1: "(if c_rem (sint (of_nat (Suc k) :: i8)) 8 = 0 then base + int (k div 8) + 1
     else base + int (k div 8)) = base + int (Suc k div 8)"
    using c_rem_bit_offset(2) [of "Suc k"] Cons.prems(2) by (auto simp: div_Suc)
  have bit: "c_rem (sint (of_nat k :: i8)) 8 = int (k mod 8)"
    using c_rem_bit_offset(1) [of k] Cons.prems(2) by (simp add: zmod_int)
  obtain fs1 where fs1: "assign_boolean (base + int (Suc k div 8)) (of_nat (Suc k)) fs = (fs1, o2, bo)"
    "fs' = (n, d\<lparr>fd_offset := base + int (k div 8), fd_bit_offset := int (k mod 8)\<rparr>) # fs1"
    using Cons.prems(1) unfolding f assign_boolean.simps Let_def b1 o1 bit
    by (auto split: prod.splits)
  from Cons.IH [OF fs1(1)] Cons.prems have IH: "map fst fs1 = map fst fs"
    "\<forall>f\<in>set fs1. is_boolean f" "o2 = base + int ((Suc k + length fs) div 8)"
    "bo = of_nat (Suc k + length fs)"
    "\<forall>i<length fs1. occupies (snd (fs1 ! i)) =
      {(base + int ((Suc k + i) div 8), int ((Suc k + i) mod 8))}"
    by auto
  have "is_boolean (n, d)"
    using Cons.prems(3) f by simp
  then have "occupies (d\<lparr>fd_offset := base + int (k div 8), fd_bit_offset := int (k mod 8)\<rparr>) =
    {(base + int (k div 8), int (k mod 8))}" "is_boolean
      (n, d\<lparr>fd_offset := base + int (k div 8), fd_bit_offset := int (k mod 8)\<rparr>)"
    by (auto simp: occupies_def is_boolean_def is_variable_size_def)
  with IH fs1(2) f show ?case
    by (auto simp: nth_Cons' less_Suc_eq_0_disj)
qed simp

lemma assign_variable_spec:
  assumes "assign_variable i fs = (fs', j)" "\<forall>f\<in>set fs. is_variable_size f"
  shows "map fst fs' = map fst fs \<and> (\<forall>f\<in>set fs'. is_variable_size f) \<and>
    j = i + int (length fs) \<and> (\<forall>k<length fs'. fd_index (snd (fs' ! k)) = i + int k)"
  using assms
proof (induction i fs arbitrary: fs' j rule: assign_variable.induct)
  case (2 i n d fs)
  obtain fs1 where fs1: "assign_variable (i + 1) fs = (fs1, j)" "fs' = (n, d\<lparr>fd_index := i\<rparr>) # fs1"
    using 2(2) by (auto split: prod.splits)
  from 2(1) [OF fs1(1)] 2(3) fs1(2) show ?case
    by (auto simp: nth_Cons' is_variable_size_def less_Suc_eq_0_disj)
qed auto

text \<open>What the layout of a list of fields promises.\<close>

definition layout_ok :: "(hz_string \<times> field_descriptor) list \<Rightarrow> int \<Rightarrow> int \<Rightarrow> bool" where
  "layout_ok A len nvars =
    ((\<forall>(n, d) \<in> set A. occupies d \<subseteq> {0..<len} \<times> {0..<8} \<and>
        (is_variable_size (n, d) \<longrightarrow> 0 \<le> fd_index d \<and> fd_index d < nvars)) \<and>
     (\<forall>(n, d) \<in> set A. \<forall>(n', d') \<in> set A. n \<noteq> n' \<longrightarrow>
        occupies d \<inter> occupies d' = {} \<and>
        (is_variable_size (n, d) \<and> is_variable_size (n', d') \<longrightarrow> fd_index d \<noteq> fd_index d')))"

lemma sorted_wrt_disjoint:
  assumes "sorted_wrt (\<lambda>f g. occupies (snd f) \<inter> occupies (snd g) = {}) fs"
    "f \<in> set fs" "g \<in> set fs" "f \<noteq> g"
  shows "occupies (snd f) \<inter> occupies (snd g) = {}"
proof -
  obtain i j where ij: "i < length fs" "j < length fs" "fs ! i = f" "fs ! j = g"
    using assms(2,3) by (metis in_set_conv_nth)
  with assms(4) consider "i < j" | "j < i"
    by (metis nat_neq_iff)
  then show ?thesis
    using ij sorted_wrt_nth_less [OF assms(1), of i j] sorted_wrt_nth_less [OF assms(1), of j i]
    by cases auto
qed

lemma layout_ok_append:
  assumes F: "\<forall>f\<in>set F. is_fixed_size f \<and> occupies (snd f) \<subseteq> {0..<o1} \<times> {0..<8}"
    "sorted_wrt (\<lambda>f g. occupies (snd f) \<inter> occupies (snd g) = {}) F" "0 \<le> o1"
    and B: "\<forall>f\<in>set B. is_boolean f"
    "\<forall>i<length B. occupies (snd (B ! i)) = {(o1 + int (i div 8), int (i mod 8))}"
    and len: "o1 \<le> len" "\<forall>i<length B. o1 + int (i div 8) < len"
    and V: "\<forall>f\<in>set V. is_variable_size f" "\<forall>k<length V. fd_index (snd (V ! k)) = int k"
  shows "layout_ok (F @ B @ V) len (int (length V))"
proof -
  have occV: "occupies (snd f) = {}" if "f \<in> set V" for f
    using V(1) that by (auto simp: occupies_def is_variable_size_def)
  have occB: "occupies (snd f) \<subseteq> {o1..<len} \<times> {0..<8}" if "f \<in> set B" for f
    using B(2) that len(2) by (auto simp: in_set_conv_nth)
  have occF: "occupies (snd f) \<subseteq> {0..<o1} \<times> {0..<8}" if "f \<in> set F" for f
    using F(1) that by blast
  have BB: "occupies (snd f) \<inter> occupies (snd g) = {}" if fg: "f \<in> set B" "g \<in> set B" "f \<noteq> g" for f g
  proof -
    obtain i j where ij: "i < length B" "j < length B" "B ! i = f" "B ! j = g"
      using fg by (metis in_set_conv_nth)
    then have "i \<noteq> j"
      using fg(3) by blast
    then have "i div 8 \<noteq> j div 8 \<or> i mod 8 \<noteq> j mod 8"
      by (metis div_mult_mod_eq)
    with ij B(2) show ?thesis
      by auto
  qed
  have VV: "fd_index (snd f) \<noteq> fd_index (snd g)" if fg: "f \<in> set V" "g \<in> set V" "f \<noteq> g" for f g
    using fg V(2) by (metis in_set_conv_nth of_nat_eq_iff)
  have idx: "0 \<le> fd_index (snd f) \<and> fd_index (snd f) < int (length V)" if "f \<in> set V" for f
    using that V(2) by (auto simp: in_set_conv_nth)
  have inside: "occupies (snd f) \<subseteq> {0..<len} \<times> {0..<8}" if "f \<in> set (F @ B @ V)" for f
    using that occV [of f] occB [of f] occF [of f] F(3) len(1) by fastforce
  have kind: "f \<in> set V" if "f \<in> set (F @ B @ V)" "is_variable_size f" for f
    using that F(1) B(1) by (auto simp: is_fixed_size_def is_boolean_def)
  have disj: "occupies (snd f) \<inter> occupies (snd g) = {}"
    if fg: "f \<in> set (F @ B @ V)" "g \<in> set (F @ B @ V)" "f \<noteq> g" for f g
  proof -
    have FB: "occupies (snd x) \<inter> occupies (snd y) = {}" if "x \<in> set F" "y \<in> set B" for x y
      using occF [OF that(1)] occB [OF that(2)] by fastforce
    consider "f \<in> set V \<or> g \<in> set V" | "f \<in> set F" "g \<in> set F" | "f \<in> set F" "g \<in> set B"
      | "f \<in> set B" "g \<in> set F" | "f \<in> set B" "g \<in> set B"
      using fg by auto
    then show ?thesis
    proof cases
      case 1
      then show ?thesis using occV by blast
    next
      case 2
      then show ?thesis using sorted_wrt_disjoint [OF F(2) _ _ fg(3)] by blast
    next
      case 3
      then show ?thesis by (rule FB)
    next
      case 4
      then show ?thesis using FB by blast
    next
      case 5
      then show ?thesis using BB fg(3) by blast
    qed
  qed
  show ?thesis
    unfolding layout_ok_def
  proof (intro conjI ballI; clarsimp simp del: set_append)
    fix n d
    assume x: "(n, d) \<in> set (F @ B @ V)"
    show "occupies d \<subseteq> {0..<len} \<times> {0..<8} \<and>
      (is_variable_size (n, d) \<longrightarrow> 0 \<le> fd_index d \<and> fd_index d < int (length V))"
      using inside [OF x] kind [OF x] idx [of "(n, d)"] by auto
    fix n' d'
    assume y: "(n', d') \<in> set (F @ B @ V)" "n \<noteq> n'"
    show "occupies d \<inter> occupies d' = {} \<and>
      (is_variable_size (n, d) \<and> is_variable_size (n', d') \<longrightarrow> fd_index d \<noteq> fd_index d')"
      using disj [OF x y(1)] y(2) kind [OF x] kind [OF y(1)] VV [of "(n, d)" "(n', d')"] by auto
  qed
qed

lemma bytes_for_bits:
  shows "n mod 8 \<noteq> 0 \<Longrightarrow> (n + 7) div 8 = n div 8 + (1 :: nat)"
    and "i < n \<Longrightarrow> i div 8 < (n + 7) div (8 :: nat)"
proof -
  assume nz: "n mod 8 \<noteq> 0"
  obtain q r where n: "n = 8 * q + r" "r < 8"
    by (metis mod_less_divisor mult_div_mod_eq zero_less_numeral)
  then have "r \<noteq> 0" "n div 8 = q"
    using nz by auto
  then show "(n + 7) div 8 = n div 8 + 1"
    using n by (intro div_nat_eqI) simp_all
next
  assume "i < n"
  moreover have "i div 8 * 8 \<le> i"
    by simp
  ultimately have "(i div 8 + 1) * 8 \<le> n + 7"
    unfolding add_mult_distrib by linarith
  then have "i div 8 + 1 \<le> (n + 7) div 8"
    by (subst less_eq_div_iff_mult_less_eq) simp_all
  then show "i div 8 < (n + 7) div 8"
    by simp
qed

lemma schema_layout_ok:
  assumes "schema_layout fs = (A, len, nvars)" "length (filter is_boolean fs) \<le> 129"
  shows "layout_ok A len nvars \<and> set (map fst A) = set (map fst fs) \<and> 0 \<le> len \<and>
    nvars = int (length (filter is_variable_size fs))"
proof -
  let ?fixed = "sort_key (\<lambda>f. - kind_size_in_bytes (fd_kind (snd f))) (filter is_fixed_size fs)"
  obtain F o1 where F: "assign_fixed 0 ?fixed = (F, o1)" by force
  obtain B o2 bo where B: "assign_boolean o1 0 (filter is_boolean fs) = (B, o2, bo)"
    by (metis prod_cases3)
  obtain V j where V: "assign_variable 0 (filter is_variable_size fs) = (V, j)" by force
  have res: "A = F @ B @ V" "nvars = j" "len = (if c_rem (sint bo) 8 \<noteq> 0 then o2 + 1 else o2)"
    using assms(1) unfolding schema_layout_def Let_def F B V prod.case by (simp_all only: prod.inject)
  let ?n = "length (filter is_boolean fs)"
  have f: "map fst F = map fst ?fixed" "\<forall>f\<in>set F. is_fixed_size f" "0 \<le> o1"
    "\<forall>f\<in>set F. occupies (snd f) \<subseteq> {0..<o1} \<times> {0..<8}"
    "sorted_wrt (\<lambda>f g. occupies (snd f) \<inter> occupies (snd g) = {}) F"
    using assign_fixed_spec [OF F] by (simp_all add: set_filter)
  have B0: "assign_boolean (o1 + int (0 div 8)) (of_nat 0) (filter is_boolean fs) = (B, o2, bo)"
    using B by simp
  have pre: "0 + ?n \<le> 129" "\<forall>f\<in>set (filter is_boolean fs). is_boolean f"
    using assms(2) by simp_all
  have b: "map fst B = map fst (filter is_boolean fs)" "\<forall>f\<in>set B. is_boolean f"
    "o2 = o1 + int (?n div 8)" "bo = of_nat ?n"
    "\<forall>i<length B. occupies (snd (B ! i)) = {(o1 + int (i div 8), int (i mod 8))}"
    using assign_boolean_spec [OF B0 pre f(3), unfolded add_0_left] by blast+
  have v: "map fst V = map fst (filter is_variable_size fs)" "\<forall>f\<in>set V. is_variable_size f"
    "j = int (length (filter is_variable_size fs))" "\<forall>k<length V. fd_index (snd (V ! k)) = int k"
    using assign_variable_spec [OF V] by auto
  have part: "set fs = set (filter is_fixed_size fs) \<union> set (filter is_boolean fs) \<union>
    set (filter is_variable_size fs)"
    by (auto simp: is_fixed_size_def is_boolean_def)
  have "fst ` set fs = fst ` set (filter is_fixed_size fs) \<union> fst ` set (filter is_boolean fs) \<union>
    fst ` set (filter is_variable_size fs)"
    unfolding image_Un [symmetric] using part by simp
  then have names: "set (map fst A) = set (map fst fs)"
    unfolding res(1) map_append set_append f(1) b(1) v(1)
    by (simp only: set_map set_sort Un_assoc)
  have len: "len = o1 + int ((?n + 7) div 8)"
  proof (cases "?n mod 8 = 0")
    case True
    with res(3) b(3,4) c_rem_bit_offset(2) [OF assms(2)] show ?thesis
      by (auto elim!: dvdE simp: mod_eq_0_iff_dvd)
  next
    case False
    then have "(?n + 7) div 8 = ?n div 8 + 1" by (rule bytes_for_bits)
    with False res(3) b(3,4) c_rem_bit_offset(2) [OF assms(2)] show ?thesis
      by simp
  qed
  have lB: "length B = ?n" and lV: "length V = length (filter is_variable_size fs)"
    using b(1) v(1) by (metis length_map)+
  have "\<forall>i<length B. o1 + int (i div 8) < len"
  proof (intro allI impI)
    fix i
    assume "i < length B"
    then have "i div 8 < (?n + 7) div 8" using lB by (simp add: bytes_for_bits(2))
    then show "o1 + int (i div 8) < len" using len by simp
  qed
  then have "layout_ok A len (int (length V))"
    unfolding res(1) using f b v len by (intro layout_ok_append [where ?o1.0 = o1]) auto
  then show ?thesis
    using names len f(3) v(3) lV res(2) by simp
qed

lemma make_schema_layout_ok:
  assumes "distinct (map fst flds)" "length (filter is_boolean flds) \<le> 129"
  shows "layout_ok (field_definition_map (make_schema tn flds))
      (int (fixed_size_fields_length (make_schema tn flds)))
      (int (number_of_var_size_fields (make_schema tn flds)))"
proof -
  let ?sorted = "sort_key fst flds"
  obtain A len nvars where L: "schema_layout ?sorted = (A, len, nvars)"
    by (metis prod_cases3)
  have "length (filter is_boolean ?sorted) \<le> 129"
    using assms(2) by (simp add: filter_sort)
  note ok = schema_layout_ok [OF L this]
  have s: "field_definition_map (make_schema tn flds) =
      map (\<lambda>(n, d). (n, case map_of A n of None \<Rightarrow> d | Some d' \<Rightarrow> d')) flds"
    "int (fixed_size_fields_length (make_schema tn flds)) = len"
    "int (number_of_var_size_fields (make_schema tn flds)) = nvars"
    using ok by (simp_all add: make_schema_def Let_def L)
  have "set (field_definition_map (make_schema tn flds)) \<subseteq> set A"
  proof
    fix x
    assume "x \<in> set (field_definition_map (make_schema tn flds))"
    then obtain n d where nd: "(n, d) \<in> set flds"
      "x = (n, case map_of A n of None \<Rightarrow> d | Some d' \<Rightarrow> d')"
      unfolding s by auto
    then have "n \<in> fst ` set A"
      using ok by (force simp: image_iff)
    then obtain d' where "map_of A n = Some d'"
      by (metis map_of_eq_None_iff not_None_eq)
    with nd show "x \<in> set A"
      by (auto dest: map_of_SomeD)
  qed
  with ok show ?thesis
    unfolding s layout_ok_def by blast
qed

text \<open>
  C1. Layout of a schema: with at most 129 boolean fields, no two fields of a schema built by the
  constructor share a bit of the fixed-size part, every field lies inside the first
  \<open>fixed_size_fields_length\<close> bytes, and the variable-size fields have distinct indices below
  \<open>number_of_var_size_fields\<close>.
\<close>

theorem schema_layout_disjoint:
  assumes "distinct (map fst flds)" "length (filter is_boolean flds) \<le> 129"
  shows "layout_ok (field_definition_map (make_schema tn flds))
      (int (fixed_size_fields_length (make_schema tn flds)))
      (int (number_of_var_size_fields (make_schema tn flds)))"
  using assms by (rule make_schema_layout_ok)

theorem schema_layout_disjoint_witness:
  "layout_ok (field_definition_map (make_schema [84]
      [([98], make_field_descriptor FK_BOOLEAN), ([97], make_field_descriptor FK_INT32),
       ([115], make_field_descriptor FK_STRING), ([99], make_field_descriptor FK_BOOLEAN)]))
    (int (fixed_size_fields_length (make_schema [84]
      [([98], make_field_descriptor FK_BOOLEAN), ([97], make_field_descriptor FK_INT32),
       ([115], make_field_descriptor FK_STRING), ([99], make_field_descriptor FK_BOOLEAN)])))
    (int (number_of_var_size_fields (make_schema [84]
      [([98], make_field_descriptor FK_BOOLEAN), ([97], make_field_descriptor FK_INT32),
       ([115], make_field_descriptor FK_STRING), ([99], make_field_descriptor FK_BOOLEAN)])))"
  by (rule schema_layout_disjoint)
     (simp_all add: is_boolean_def is_variable_size_def make_field_descriptor_def)

section \<open>Independence of the iteration order\<close>

lemma sort_distinct_keys_unique:
  assumes "distinct (map fst xs)" "mset xs = mset ys"
  shows "sort_key fst xs = sort_key fst ys"
proof (rule properties_for_sort_key)
  show "mset (sort_key fst ys) = mset xs"
    using assms(2) by simp
  show "sorted (map fst (sort_key fst ys))"
    by simp
  fix k
  assume k: "k \<in> set (sort_key fst ys)"
  have dist: "distinct (map fst (sort_key fst ys))"
    using assms by (metis distinct_map mset_eq_imp_distinct_iff mset_sort set_mset_mset)
  have "filter (\<lambda>x. fst k = fst x) zs = [k]" if "k \<in> set zs" "distinct (map fst zs)" for zs
    using that by (induction zs) (auto simp: filter_empty_conv rev_image_eqI)
  moreover have "k \<in> set xs"
    using k assms(2) by (metis set_mset_mset set_sort)
  ultimately show "filter (\<lambda>x. fst k = fst x) (sort_key fst ys) = filter (\<lambda>x. fst k = fst x) xs"
    using k dist assms(1) by simp
qed

lemma map_of_make_schema_fields:
  "map_of (map (\<lambda>(n, d). (n, case g n of None \<Rightarrow> d | Some d' \<Rightarrow> d')) flds) n =
    map_option (\<lambda>d. case g n of None \<Rightarrow> d | Some d' \<Rightarrow> d') (map_of flds n)"
  by (induction flds) (auto split: option.splits)

text \<open>
  C3. The constructor does not depend on the iteration order of the \<open>std::unordered_map\<close> it is
  given: two orders of the same fields give schemas that compare equal, have the same id and give
  every field the same offset, bit and index.
\<close>

theorem make_schema_order_independent:
  assumes "distinct (map fst flds)" "mset flds = mset flds'"
  shows "schema_eq (make_schema tn flds) (make_schema tn flds') \<and>
    get_field (make_schema tn flds) = get_field (make_schema tn flds')"
proof -
  obtain A len nvars where L: "schema_layout (sort_key fst flds) = (A, len, nvars)"
    by (metis prod_cases3)
  have same: "sort_key fst flds' = sort_key fst flds"
    using sort_distinct_keys_unique [OF assms] by simp
  have dist': "distinct (map fst flds')"
    using assms by (metis distinct_map mset_eq_imp_distinct_iff set_mset_mset)
  have look: "map_of flds' = map_of flds"
    using assms dist' by (metis map_of_inject_set set_mset_mset)
  then have g: "get_field (make_schema tn flds) = get_field (make_schema tn flds')"
    by (simp add: get_field_def make_schema_def Let_def same L map_of_make_schema_fields fun_eq_iff)
  have "distinct (map fst (field_definition_map (make_schema tn flds)))"
    using assms(1) by (simp add: make_schema_def Let_def L comp_def case_prod_unfold)
  then have "map_of (field_definition_map (make_schema tn flds')) n = Some d"
    if "(n, d) \<in> set (field_definition_map (make_schema tn flds))" for n d
    using that g by (metis get_field_def map_of_is_SomeI)
  then have "list_all (\<lambda>(n, d). case map_of (field_definition_map (make_schema tn flds')) n of
      None \<Rightarrow> False | Some d' \<Rightarrow> descriptor_eq d' d) (field_definition_map (make_schema tn flds))"
    by (auto simp: list_all_iff descriptor_eq_def)
  moreover have "length flds = length flds'"
    using assms(2) by (rule mset_eq_length)
  ultimately show ?thesis
    using g by (simp add: schema_eq_def make_schema_def Let_def same L)
qed

theorem make_schema_order_independent_witness:
  "schema_eq
    (make_schema [84] [([98], make_field_descriptor FK_BOOLEAN), ([97], make_field_descriptor FK_INT32)])
    (make_schema [84] [([97], make_field_descriptor FK_INT32), ([98], make_field_descriptor FK_BOOLEAN)])"
  using make_schema_order_independent
    [of "[([98], make_field_descriptor FK_BOOLEAN), ([97], make_field_descriptor FK_INT32)]"
      "[([97], make_field_descriptor FK_INT32), ([98], make_field_descriptor FK_BOOLEAN)]" "[84]"]
  by (simp add: add_mset_commute)

section \<open>More than 129 boolean fields\<close>

lemma assign_fixed_names: "map fst (fst (assign_fixed i fs)) = map fst fs"
  by (induction i fs rule: assign_fixed.induct) (auto split: prod.splits)

lemma assign_boolean_names: "map fst (fst (assign_boolean i b fs)) = map fst fs"
  by (induction i b fs rule: assign_boolean.induct) (auto simp: Let_def split: prod.splits)

lemma assign_variable_names: "map fst (fst (assign_variable i fs)) = map fst fs"
  by (induction i fs rule: assign_variable.induct) (auto split: prod.splits)

lemma schema_layout_parts:
  assumes "schema_layout fs = (A, len, nvars)"
  obtains o1 where "A =
    fst (assign_fixed 0 (sort_key (\<lambda>f. - kind_size_in_bytes (fd_kind (snd f)))
      (filter is_fixed_size fs))) @
    fst (assign_boolean o1 0 (filter is_boolean fs)) @
    fst (assign_variable 0 (filter is_variable_size fs))"
  using assms by (simp add: schema_layout_def Let_def split: prod.splits) (metis fst_conv)

lemma schema_layout_names:
  assumes "distinct (map fst fs)" "schema_layout fs = (A, len, nvars)"
  shows "distinct (map fst A)"
proof -
  let ?fixed = "sort_key (\<lambda>f. - kind_size_in_bytes (fd_kind (snd f))) (filter is_fixed_size fs)"
  obtain o1 where A: "A = fst (assign_fixed 0 ?fixed) @
    fst (assign_boolean o1 0 (filter is_boolean fs)) @
    fst (assign_variable 0 (filter is_variable_size fs))"
    using schema_layout_parts [OF assms(2)] by blast
  have "map fst A = map fst (?fixed @ filter is_boolean fs @ filter is_variable_size fs)"
    unfolding A map_append assign_fixed_names assign_boolean_names assign_variable_names ..
  moreover have "distinct (?fixed @ filter is_boolean fs @ filter is_variable_size fs)"
    using assms(1) by (auto simp: distinct_map is_fixed_size_def is_boolean_def)
  moreover have "inj_on fst (set (?fixed @ filter is_boolean fs @ filter is_variable_size fs))"
    using assms(1) by (rule inj_on_subset [OF distinct_map [THEN iffD1, THEN conjunct2]]) auto
  ultimately show ?thesis
    by (simp only: distinct_map simp_thms)
qed

lemma assign_boolean_nth:
  "i < length fs \<Longrightarrow> \<exists>off. fst (assign_boolean o1 b fs) ! i =
    (fst (fs ! i), (snd (fs ! i))\<lparr>fd_offset := off, fd_bit_offset := c_rem (sint (b + of_nat i)) 8\<rparr>)"
proof (induction o1 b fs arbitrary: i rule: assign_boolean.induct)
  case (2 o1 b n d fs)
  show ?case
  proof (cases i)
    case 0
    then show ?thesis by (auto simp: Let_def split: prod.splits)
  next
    case (Suc j)
    with 2 show ?thesis
      by (fastforce simp: Let_def add.assoc split: prod.splits)
  qed
qed simp

text \<open>
  C4. The counter of the boolean fields is an \<open>int8_t\<close>.  A schema with 130 or more boolean
  fields therefore has a boolean field whose bit offset is -7, outside the eight bits of a byte.
\<close>

theorem schema_bit_offset_overflow:
  assumes "distinct (map fst flds)" "130 \<le> length (filter is_boolean flds)"
  shows "\<exists>n d. get_field (make_schema tn flds) n = Some d \<and> fd_kind d = FK_BOOLEAN \<and>
    fd_bit_offset d = - 7"
proof -
  let ?bools = "filter is_boolean (sort_key fst flds)"
  obtain A len nvars where L: "schema_layout (sort_key fst flds) = (A, len, nvars)"
    by (metis prod_cases3)
  have len: "129 < length ?bools"
    using assms(2) by (simp add: filter_sort)
  obtain o1 where sub: "set (fst (assign_boolean o1 0 ?bools)) \<subseteq> set A"
    by (rule schema_layout_parts [OF L]) auto
  obtain off where nth: "fst (assign_boolean o1 0 ?bools) ! 129 = (fst (?bools ! 129),
    (snd (?bools ! 129))\<lparr>fd_offset := off, fd_bit_offset := c_rem (sint (0 + of_nat 129 :: i8)) 8\<rparr>)"
    using assign_boolean_nth [OF len] by blast
  define n d where "n = fst (?bools ! 129)"
    and "d = (snd (?bools ! 129))\<lparr>fd_offset := off, fd_bit_offset := - 7\<rparr>"
  have "length (fst (assign_boolean o1 0 ?bools)) = length ?bools"
    by (metis assign_boolean_names length_map)
  then have "(n, d) \<in> set A"
    using nth_mem [of 129 "fst (assign_boolean o1 0 ?bools)"] len sub nth
    by (auto simp: n_def d_def c_rem_def)
  moreover have "distinct (map fst A)"
    using schema_layout_names [OF _ L] assms(1)
    by (metis distinct_map distinct_sort set_sort)
  ultimately have A: "map_of A n = Some d"
    by simp
  have "?bools ! 129 \<in> set ?bools"
    using len by (rule nth_mem)
  then have b: "is_boolean (?bools ! 129)" "?bools ! 129 \<in> set flds"
    by auto
  then have "map_of flds n \<noteq> None"
    unfolding n_def by (simp add: map_of_eq_None_iff)
  with A have "get_field (make_schema tn flds) n = Some d"
    by (auto simp: get_field_def make_schema_def Let_def L map_of_make_schema_fields)
  moreover have "fd_kind d = FK_BOOLEAN" "fd_bit_offset d = - 7"
    using b(1) by (simp_all add: d_def is_boolean_def)
  ultimately show ?thesis
    by blast
qed

theorem schema_bit_offset_overflow_witness:
  "\<exists>n d. get_field (make_schema [84]
      (map (\<lambda>i. ([of_nat i], make_field_descriptor FK_BOOLEAN)) [0..<130])) n = Some d \<and>
    fd_kind d = FK_BOOLEAN \<and> fd_bit_offset d = - 7"
proof (rule schema_bit_offset_overflow)
  have "inj_on (\<lambda>i. [of_nat i :: byte]) {0..<130}"
    by (rule inj_onI) (auto simp: of_nat_eq_iff word_of_nat_eq_iff take_bit_nat_eq_self)
  then show "distinct (map fst (map (\<lambda>i. ([of_nat i :: byte], make_field_descriptor FK_BOOLEAN))
      [0..<130]))"
    by (simp add: distinct_map comp_def)
  show "130 \<le> length (filter is_boolean
      (map (\<lambda>i. ([of_nat i :: byte], make_field_descriptor FK_BOOLEAN)) [0..<130]))"
    by (simp add: filter_map comp_def is_boolean_def is_variable_size_def make_field_descriptor_def
        VARIABLE_SIZE_def)
qed

section \<open>The kinds of the fields\<close>

lemma assigned_kinds:
  "map (map_prod id fd_kind) (fst (assign_fixed i fs)) = map (map_prod id fd_kind) fs"
  "map (map_prod id fd_kind) (fst (assign_boolean i b fs)) = map (map_prod id fd_kind) fs"
  "map (map_prod id fd_kind) (fst (assign_variable i fs)) = map (map_prod id fd_kind) fs"
proof -
  show "map (map_prod id fd_kind) (fst (assign_fixed i fs)) = map (map_prod id fd_kind) fs"
    by (induction i fs rule: assign_fixed.induct) (auto split: prod.splits)
  show "map (map_prod id fd_kind) (fst (assign_boolean i b fs)) = map (map_prod id fd_kind) fs"
    by (induction i b fs rule: assign_boolean.induct) (auto simp: Let_def split: prod.splits)
  show "map (map_prod id fd_kind) (fst (assign_variable i fs)) = map (map_prod id fd_kind) fs"
    by (induction i fs rule: assign_variable.induct) (auto split: prod.splits)
qed

lemma schema_layout_kinds:
  assumes "schema_layout fs = (A, len, nvars)" "(n, d) \<in> set A"
  shows "(n, fd_kind d) \<in> map_prod id fd_kind ` set fs"
proof -
  obtain o1 where A: "A = fst (assign_fixed 0 (sort_key (\<lambda>f. - kind_size_in_bytes (fd_kind (snd f)))
      (filter is_fixed_size fs))) @ fst (assign_boolean o1 0 (filter is_boolean fs)) @
      fst (assign_variable 0 (filter is_variable_size fs))"
    using schema_layout_parts [OF assms(1)] by blast
  have "(n, fd_kind d) \<in> set (map (map_prod id fd_kind) A)"
    using assms(2) by (auto intro: rev_image_eqI)
  then show ?thesis
    unfolding A map_append assigned_kinds by (auto intro: rev_image_eqI)
qed

lemma make_schema_names [simp]:
  "sch_type_name (make_schema name flds) = name"
  "map fst (field_definition_map (make_schema name flds)) = map fst flds"
  by (simp_all add: make_schema_def Let_def comp_def case_prod_beta)

lemma make_schema_kinds:
  assumes "distinct (map fst flds)"
  shows "map (map_prod id fd_kind) (field_definition_map (make_schema name flds)) = map (map_prod id fd_kind) flds"
proof -
  obtain A len nv where lay: "schema_layout (sort_key fst flds) = (A, len, nv)"
    by (cases "schema_layout (sort_key fst flds)") auto
  have kind: "fd_kind d' = fd_kind d" if A: "(n, d) \<in> set flds" "map_of A n = Some d'" for n d d'
  proof -
    obtain d2 where d2: "(n, d2) \<in> set flds" "fd_kind d' = fd_kind d2"
      using schema_layout_kinds [OF lay map_of_SomeD [OF A(2)]] by auto
    with eq_key_imp_eq_value [OF assms A(1) d2(1)] show ?thesis
      by simp
  qed
  have "field_definition_map (make_schema name flds) =
    map (\<lambda>(n, d). (n, case map_of A n of None \<Rightarrow> d | Some d' \<Rightarrow> d')) flds"
    by (simp add: make_schema_def lay)
  moreover have "fd_kind (case map_of A n of None \<Rightarrow> d | Some d' \<Rightarrow> d') = fd_kind d" if "(n, d) \<in> set flds" for n d
    using kind [OF that] by (cases "map_of A n") simp_all
  ultimately show ?thesis
    by (simp add: case_prod_beta map_prod_def)
qed

end
