(* ===== verification/Heap_Data.thy ===== *)
theory Heap_Data
  imports Util_Numeric Compact_Schema
begin

text \<open>
  Serialized values and the partition table: \<open>serialization::pimpl::data\<close> of
  \<open>src/hazelcast/client/serialization.cpp\<close> and \<open>ClientPartitionServiceImpl\<close> of
  \<open>src/hazelcast/client/spi.cpp\<close>.

  A value is its bytes: four bytes of partition hash, four of type id, then the payload.  The
  partition service holds an atomic pointer to an immutable table, \<open>None\<close> when it was reset;
  loading a null pointer is undefined behaviour.  One round of its compare-exchange loop is
  \<open>apply_partition_event\<close>; the loop ends in its first round when no other thread interferes.
\<close>

section \<open>Serialized values\<close>

abbreviation "PARTITION_HASH_OFFSET \<equiv> (0 :: nat)"
abbreviation "TYPE_OFFSET \<equiv> (4 :: nat)"
abbreviation "DATA_OFFSET \<equiv> (8 :: nat)"
abbreviation "DATA_OVERHEAD \<equiv> (8 :: nat)"

record heap_data =
  data_bytes :: "byte list"
  cached_hash_value :: i32
  data_schemas :: "schema list"

definition data_size :: "byte list \<Rightarrow> nat" where
  "data_size bs = nat (max (sint (of_nat (length bs) :: i32) - int DATA_OVERHEAD) 0)"

definition has_partition_hash :: "byte list \<Rightarrow> bool" where
  "has_partition_hash bs =
    (DATA_OVERHEAD \<le> length bs \<and> (le_word (slice PARTITION_HASH_OFFSET 4 bs) :: i32) \<noteq> 0)"

definition calculate_hash :: "byte list \<Rightarrow> i32" where
  "calculate_hash bs =
    (if data_size bs = 0 then 0
     else if has_partition_hash bs then be_word (slice PARTITION_HASH_OFFSET 4 bs)
     else murmur_hash3_x86_32 (slice DATA_OFFSET (data_size bs) bs))"

definition make_data :: "byte list \<Rightarrow> schema list \<Rightarrow> heap_data res" where
  "make_data buffer s =
    (if 0 < length buffer \<and> length buffer < DATA_OVERHEAD then Inl IllegalArgument
     else Inr \<lparr>data_bytes = buffer, cached_hash_value = calculate_hash buffer, data_schemas = s\<rparr>)"

definition empty_data :: heap_data where
  "empty_data = \<lparr>data_bytes = [], cached_hash_value = - 1, data_schemas = []\<rparr>"

definition get_partition_hash :: "heap_data \<Rightarrow> i32" where
  "get_partition_hash d = cached_hash_value d"

definition data_type :: "heap_data \<Rightarrow> i32 res" where
  "data_type d =
    (if length (data_bytes d) = 0 then Inr 0
     else if TYPE_OFFSET + 4 \<le> length (data_bytes d) then Inr (be_word (slice TYPE_OFFSET 4 (data_bytes d)))
     else Inl UndefinedBehaviour)"

definition data_less :: "heap_data \<Rightarrow> heap_data \<Rightarrow> bool" where
  "data_less x y = (sint (cached_hash_value x) < sint (cached_hash_value y))"

definition data_eq :: "heap_data \<Rightarrow> heap_data \<Rightarrow> bool" where
  "data_eq x y = (data_bytes x = data_bytes y)"

lemma data_size_eq: "length bs < 2 ^ 31 \<Longrightarrow> data_size bs = length bs - 8"
proof -
  assume l: "length bs < 2 ^ 31"
  then have "unat (of_nat (length bs) :: i32) = length bs"
    by (simp add: unsigned_of_nat take_bit_nat_eq_self)
  with l have "sint (of_nat (length bs) :: i32) = int (length bs)"
    using sint_unat [of "of_nat (length bs) :: i32"] by simp
  then show ?thesis
    by (simp add: data_size_def)
qed

lemma be_word_zero_iff:
  assumes "length bs = 4"
  shows "(be_word bs :: i32) = 0 \<longleftrightarrow> (le_word bs :: i32) = 0"
proof -
  have "(be_word bs :: i32) = 0 \<longleftrightarrow> bs = be_bytes 4 (0 :: i32)"
    using assms by (metis be4.dec_enc be4.enc_dec)
  moreover have "(le_word bs :: i32) = 0 \<longleftrightarrow> bs = le_bytes 4 (0 :: i32)"
    using assms by (metis le4.dec_enc le4.enc_dec)
  moreover have "be_bytes 4 (0 :: i32) = le_bytes 4 (0 :: i32)"
    by code_simp
  ultimately show ?thesis by simp
qed



section \<open>Partition service\<close>

datatype uuid = Uuid (uuid_hi: i64) (uuid_lo: i64)

definition nil_uuid :: uuid where
  "nil_uuid = Uuid 0 0"

definition is_nil :: "uuid \<Rightarrow> bool" where
  "is_nil u = (u = nil_uuid)"

record partition_table =
  pt_connection_id :: int
  pt_version :: int
  pt_partitions :: "int \<rightharpoonup> uuid"

record partition_service =
  partition_count :: i32
  partition_table_ptr :: "partition_table option"

definition init_partition_service :: partition_service where
  "init_partition_service = \<lparr>partition_count = 0,
    partition_table_ptr = Some \<lparr>pt_connection_id = 0, pt_version = -1, pt_partitions = Map.empty\<rparr>\<rparr>"

definition convert_to_map :: "(uuid \<times> int list) list \<Rightarrow> (int \<rightharpoonup> uuid)" where
  "convert_to_map partitions =
    foldl (\<lambda>m (u, pids). foldl (\<lambda>m pid. if m pid = None then m(pid \<mapsto> u) else m) m pids)
      Map.empty partitions"

definition should_be_applied :: "int \<Rightarrow> int \<Rightarrow> (uuid \<times> int list) list \<Rightarrow> partition_table \<Rightarrow> bool" where
  "should_be_applied connection_id version partitions current =
    (if partitions = [] then False
     else if pt_connection_id current = 0 \<or> connection_id \<noteq> pt_connection_id current then True
     else \<not> version \<le> pt_version current)"

definition apply_partition_event :: "int \<Rightarrow> int \<Rightarrow> (uuid \<times> int list) list \<Rightarrow>
    (partition_service, unit) sm" where
  "apply_partition_event connection_id version partitions = (\<lambda>s.
    case partition_table_ptr s of
      None \<Rightarrow> Inl UndefinedBehaviour
    | Some current \<Rightarrow>
        if should_be_applied connection_id version partitions current
        then Inr ((), s\<lparr>partition_table_ptr := Some \<lparr>pt_connection_id = connection_id,
               pt_version = version, pt_partitions = convert_to_map partitions\<rparr>\<rparr>)
        else Inr ((), s))"

definition get_partition_owner :: "int \<Rightarrow> (partition_service, uuid) sm" where
  "get_partition_owner pid = (\<lambda>s.
    case partition_table_ptr s of
      None \<Rightarrow> Inl UndefinedBehaviour
    | Some t \<Rightarrow> Inr (case pt_partitions t pid of Some u \<Rightarrow> u | None \<Rightarrow> nil_uuid, s))"

definition get_partition_id_of :: "partition_service \<Rightarrow> heap_data \<Rightarrow> i32 res" where
  "get_partition_id_of s key =
    (if sint (partition_count s) \<le> 0 then Inr 0
     else hash_to_index (get_partition_hash key) (partition_count s))"

definition check_and_set_partition_count :: "i32 \<Rightarrow> partition_service \<Rightarrow> bool \<times> partition_service" where
  "check_and_set_partition_count new_count s =
    (if partition_count s = 0 then (True, s\<lparr>partition_count := new_count\<rparr>)
     else (partition_count s = new_count, s))"

definition reset_partition_table :: "partition_service \<Rightarrow> partition_service" where
  "reset_partition_table s = s\<lparr>partition_table_ptr := None\<rparr>"

text \<open>
  Every key has a partition: with a positive partition count the partition id of any
  serialized key is at least 0 and below the count, whatever its hash; before the count is known
  it is 0.
\<close>

lemma partition_id_in_range:
  "\<exists>i. get_partition_id_of s key = Inr i \<and> 0 \<le> sint i \<and>
    (if 0 < sint (partition_count s) then sint i < sint (partition_count s) else i = 0)"
  using hash_to_index_range [where hash = "get_partition_hash key" and len = "partition_count s"]
  by (auto simp: get_partition_id_of_def split: sum.splits)

lemma insert_first_wins:
  "foldl (\<lambda>m pid. if m pid = None then m(pid \<mapsto> u) else m) m pids =
    (\<lambda>p. case m p of Some v \<Rightarrow> Some v | None \<Rightarrow> map_of (map (\<lambda>p. (p, u)) pids) p)"
  by (induction pids arbitrary: m) (auto simp: fun_eq_iff split: option.splits)

text \<open>The entry that lists a partition first owns it.\<close>

lemma convert_to_map_first_wins:
  "convert_to_map ps = map_of (concat (map (\<lambda>(u, pids). map (\<lambda>p. (p, u)) pids) ps))"
proof -
  have "foldl (\<lambda>m (u, pids). foldl (\<lambda>m pid. if m pid = None then m(pid \<mapsto> u) else m) m pids) m ps =
    (\<lambda>p. case m p of Some v \<Rightarrow> Some v
      | None \<Rightarrow> map_of (concat (map (\<lambda>(u, pids). map (\<lambda>p. (p, u)) pids) ps)) p)" for m
  proof (induction ps arbitrary: m)
    case Nil
    then show ?case by (auto simp: fun_eq_iff split: option.splits)
  next
    case (Cons e ps)
    then show ?case
      by (cases e) (auto simp: fun_eq_iff insert_first_wins map_add_def split: option.splits)
  qed
  then show ?thesis
    by (simp add: convert_to_map_def fun_eq_iff)
qed

fun apply_events :: "(int \<times> int \<times> (uuid \<times> int list) list) list \<Rightarrow> (partition_service, unit) sm" where
  "apply_events [] = sreturn ()"
| "apply_events ((c, v, ps) # evs) = sthen (apply_partition_event c v ps) (apply_events evs)"

lemma apply_events_same_connection:
  assumes "\<forall>(c', v, ps) \<in> set evs. c' = c \<and> ps \<noteq> []" "c \<noteq> 0"
    "partition_table_ptr s = Some t" "pt_connection_id t = c"
  shows "\<exists>s' t'. apply_events evs s = Inr ((), s') \<and> partition_table_ptr s' = Some t' \<and>
    pt_connection_id t' = c \<and> pt_version t' = Max (insert (pt_version t) (set (map (fst \<circ> snd) evs))) \<and>
    (t' = t \<or> (\<exists>ps. (c, pt_version t', ps) \<in> set evs \<and> pt_partitions t' = convert_to_map ps))"
  using assms
proof (induction evs arbitrary: s t)
  case Nil
  then show ?case by simp
next
  case (Cons e evs)
  obtain v ps where e: "e = (c, v, ps)" "ps \<noteq> []"
    using Cons.prems(1) by (cases e) auto
  let ?t = "if pt_version t < v then
    \<lparr>pt_connection_id = c, pt_version = v, pt_partitions = convert_to_map ps\<rparr> else t"
  let ?s = "if pt_version t < v then s\<lparr>partition_table_ptr := Some ?t\<rparr> else s"
  have step: "apply_partition_event c v ps s = Inr ((), ?s)"
    using Cons.prems e by (simp add: apply_partition_event_def should_be_applied_def)
  have t: "partition_table_ptr ?s = Some ?t" "pt_connection_id ?t = c" "pt_version ?t = max (pt_version t) v"
    using Cons.prems by auto
  have evs: "\<forall>(c', v, ps) \<in> set evs. c' = c \<and> ps \<noteq> []"
    using Cons.prems(1) by simp
  obtain s' t' where IH: "apply_events evs ?s = Inr ((), s')" "partition_table_ptr s' = Some t'"
    "pt_connection_id t' = c" "pt_version t' = Max (insert (pt_version ?t) (set (map (fst \<circ> snd) evs)))"
    "t' = ?t \<or> (\<exists>ps. (c, pt_version t', ps) \<in> set evs \<and> pt_partitions t' = convert_to_map ps)"
    using Cons.IH [OF evs Cons.prems(2) t(1,2)] by blast
  have "pt_version t' = Max (insert (pt_version t) (set (map (fst \<circ> snd) (e # evs))))"
    using IH(4) unfolding t(3) e by (cases "evs = []") (simp_all add: insert_commute max.assoc)
  moreover have "t' = t \<or> (\<exists>ps. (c, pt_version t', ps) \<in> set (e # evs) \<and> pt_partitions t' = convert_to_map ps)"
    using IH(5) e by (auto split: if_splits)
  moreover have "apply_events (e # evs) s = Inr ((), s')"
    using step IH(1) e by simp
  ultimately show ?case
    using IH(2,3) by blast
qed

text \<open>
  C7. Partition tables never go back: after any non-empty sequence of events of one connection,
  each with some partitions, in whatever order they arrive at a fresh service, the table has the
  highest version of them and the owners of an event of that version, every partition belonging to
  the first entry that lists it.
\<close>

theorem partition_table_highest_version:
  assumes "evs \<noteq> []" "\<forall>(c', v, ps) \<in> set evs. c' = c \<and> ps \<noteq> [] \<and> 0 \<le> v" "c \<noteq> 0"
  shows "\<exists>s t ps. apply_events evs init_partition_service = Inr ((), s) \<and>
    partition_table_ptr s = Some t \<and> pt_version t = Max (set (map (fst \<circ> snd) evs)) \<and>
    (c, pt_version t, ps) \<in> set evs \<and>
    (\<forall>pid. get_partition_owner pid s =
      Inr (case map_of (concat (map (\<lambda>(u, pids). map (\<lambda>p. (p, u)) pids) ps)) pid of
             Some u \<Rightarrow> u | None \<Rightarrow> nil_uuid, s))"
proof -
  obtain v ps evs' where e: "evs = (c, v, ps) # evs'" "ps \<noteq> []" "0 \<le> v"
    using assms(1,2) by (cases evs) auto
  define t0 where "t0 = \<lparr>pt_connection_id = c, pt_version = v, pt_partitions = convert_to_map ps\<rparr>"
  define s0 where "s0 = init_partition_service\<lparr>partition_table_ptr := Some t0\<rparr>"
  have first: "apply_partition_event c v ps init_partition_service = Inr ((), s0)"
    using e assms(3)
    by (simp add: apply_partition_event_def should_be_applied_def init_partition_service_def s0_def t0_def)
  have rest: "\<forall>(c', v, ps) \<in> set evs'. c' = c \<and> ps \<noteq> []" "partition_table_ptr s0 = Some t0"
    "pt_connection_id t0 = c"
    using assms(2) e by (auto simp: s0_def t0_def)
  obtain s t where st: "apply_events evs' s0 = Inr ((), s)" "partition_table_ptr s = Some t"
    "pt_version t = Max (insert (pt_version t0) (set (map (fst \<circ> snd) evs')))"
    "t = t0 \<or> (\<exists>ps. (c, pt_version t, ps) \<in> set evs' \<and> pt_partitions t = convert_to_map ps)"
    using apply_events_same_connection [OF rest(1) assms(3) rest(2,3)] by blast
  have "\<exists>ps'. (c, pt_version t, ps') \<in> set evs \<and> pt_partitions t = convert_to_map ps'"
  proof (cases "t = t0")
    case True
    then show ?thesis by (intro exI [of _ ps]) (simp add: e t0_def)
  next
    case False
    with st(4) e(1) show ?thesis by auto
  qed
  then obtain ps' where ps': "(c, pt_version t, ps') \<in> set evs" "pt_partitions t = convert_to_map ps'"
    by blast
  have "apply_events evs init_partition_service = Inr ((), s)"
    using first st(1) e(1) by simp
  moreover have "pt_version t = Max (set (map (fst \<circ> snd) evs))"
    using st(3) by (simp add: e(1) t0_def)
  moreover have "get_partition_owner pid s =
    Inr (case map_of (concat (map (\<lambda>(u, pids). map (\<lambda>p. (p, u)) pids) ps')) pid of
           Some u \<Rightarrow> u | None \<Rightarrow> nil_uuid, s)" for pid
    by (simp add: get_partition_owner_def st(2) ps'(2) convert_to_map_first_wins)
  ultimately show ?thesis
    using st(2) ps'(1) by blast
qed

theorem partition_table_highest_version_witness:
  "\<exists>s t ps. apply_events [(1, 7, [(Uuid 1 2, [0, 1])]), (1, 5, [(Uuid 3 4, [0, 1])])]
      init_partition_service = Inr ((), s) \<and>
    partition_table_ptr s = Some t \<and> pt_version t = 7 \<and>
    (1, 7, ps) \<in> set [(1 :: int, 7 :: int, [(Uuid 1 2, [0 :: int, 1])]), (1, 5, [(Uuid 3 4, [0, 1])])]"
  using partition_table_highest_version
    [of "[(1, 7, [(Uuid 1 2, [0, 1])]), (1, 5, [(Uuid 3 4, [0, 1])])]" 1] by auto

end
