(* ===== verification/Message_Codecs.thy ===== *)
theory Message_Codecs
  imports Client_Message Heap_Data
begin

text \<open>
  The typed getters and setters of \<open>protocol::ClientMessage\<close>: primitives, strings, UUIDs,
  serialized values, lists, nullable values and the composite types of the protocol
  (\<open>ClientMessage.h\<close>, lines 360 to 1594, and the specialisations in \<open>protocol.cpp\<close>).

  The loops \<open>fast_forward_to_end_frame\<close> and the list getter trust the frame lengths of the
  message; on some lengths they never end.  They are partial functions, and a loop that does not
  end is the error \<open>Diverges\<close> of its caller.

  Every codec comes with the pieces its setter writes, an instance of the locale \<open>msg_codec\<close>, and
  thereby with the round trip; getters of composite types are also shown to skip the frames a
  newer member may add before the end of the structure.
\<close>

type_synonym 'a scm = "(schema, 'a) cm"

section \<open>Primitives\<close>

definition set_uint8 :: "byte \<Rightarrow> unit scm" where
  "set_uint8 v = wr_bytes [v]"

definition set_bool :: "bool \<Rightarrow> unit scm" where
  "set_bool v = wr_bytes [if v then 1 else 0]"

definition set_int16 :: "i16 \<Rightarrow> unit scm" where
  "set_int16 v = wr_bytes (le_bytes 2 v)"

definition set_int32 :: "i32 \<Rightarrow> unit scm" where
  "set_int32 v = wr_bytes (le_bytes 4 v)"

definition set_int64 :: "i64 \<Rightarrow> unit scm" where
  "set_int64 v = wr_bytes (le_bytes 8 v)"

definition get_uint8 :: "byte scm" where
  "get_uint8 = sbind (rd_bytes 1) (\<lambda>bs. sreturn (hd bs))"

definition get_bool :: "bool scm" where
  "get_bool = sbind (rd_bytes 1) (\<lambda>bs. sreturn (hd bs \<noteq> 0))"

definition get_int16 :: "i16 scm" where
  "get_int16 = sbind (rd_bytes 2) (\<lambda>bs. sreturn (le_word bs))"

definition get_int32 :: "i32 scm" where
  "get_int32 = sbind (rd_bytes 4) (\<lambda>bs. sreturn (le_word bs))"

definition get_int64 :: "i64 scm" where
  "get_int64 = sbind (rd_bytes 8) (\<lambda>bs. sreturn (le_word bs))"

section \<open>Frames\<close>

definition final_flag :: "bool \<Rightarrow> i16" where
  "final_flag is_final = (if is_final then IS_FINAL_FLAG else DEFAULT_FLAGS)"

definition set_null_frame :: "bool \<Rightarrow> unit scm" where
  "set_null_frame is_final = wr_header 6 (IS_NULL_FLAG OR final_flag is_final)"

definition add_begin_frame :: "unit scm" where
  "add_begin_frame = wr_header 6 BEGIN_DATA_STRUCTURE_FLAG"

definition add_end_frame :: "bool \<Rightarrow> unit scm" where
  "add_end_frame is_final = wr_header 6 (END_DATA_STRUCTURE_FLAG OR final_flag is_final)"

text \<open>The number of bytes behind a frame header: the frame length is sign extended to \<open>size_t\<close>
  before the length of the header is subtracted.\<close>

definition frame_rest :: "i32 \<Rightarrow> nat \<Rightarrow> nat" where
  "frame_rest len used = usize_sub (i32_to_usize len) used"

definition skip_frame :: "unit scm" where
  "skip_frame = sbind rd_header (\<lambda>h. skip_bytes (frame_rest (frame_len h) 6))"

definition ff_count :: "i16 \<Rightarrow> nat \<Rightarrow> nat" where
  "ff_count flags n =
    (if flag_set flags END_DATA_STRUCTURE_FLAG then n - 1
     else if flag_set flags BEGIN_DATA_STRUCTURE_FLAG then n + 1 else n)"

partial_function (option) ff_loop :: "nat \<Rightarrow> schema client_message \<Rightarrow>
    (hz_error + unit \<times> schema client_message) option" where
  [code]: "ff_loop n m =
    (if n = 0 then Some (Inr ((), m))
     else case rd_header m of
       Inl e \<Rightarrow> Some (Inl e)
     | Inr (h, m1) \<Rightarrow>
         (case skip_bytes (frame_rest (frame_len h) 6) m1 of
            Inl e \<Rightarrow> Some (Inl e)
          | Inr (_, m2) \<Rightarrow> ff_loop (ff_count (frame_flags h) n) m2))"

definition fast_forward_to_end_frame :: "unit scm" where
  "fast_forward_to_end_frame = (\<lambda>m. case ff_loop 1 m of None \<Rightarrow> Inl Diverges | Some r \<Rightarrow> r)"

definition peek_flags :: "i16 scm" where
  "peek_flags = sbind (peek SIZE_OF_FRAME_LENGTH_AND_FLAGS) (\<lambda>p.
    sbind (ptr_load (map_option (\<lambda>(i, pos). (i, pos + FLAGS_FIELD_OFFSET)) p) 2) (\<lambda>bs.
      sreturn (le_word bs)))"

definition next_frame_is_data_structure_end_frame :: "bool scm" where
  "next_frame_is_data_structure_end_frame =
    sbind peek_flags (\<lambda>f. sreturn (flag_set f END_DATA_STRUCTURE_FLAG))"

definition next_frame_is_null_frame :: "bool scm" where
  "next_frame_is_null_frame = sbind peek_flags (\<lambda>f. sreturn (flag_set f IS_NULL_FLAG))"

section \<open>Strings, UUIDs, serialized values\<close>

definition set_string :: "hz_string \<Rightarrow> bool \<Rightarrow> unit scm" where
  "set_string value is_final =
    (let len = (of_nat (length value) :: i32) in
     sthen (wr_header (6 + len) (final_flag is_final))
       (sbind (wr_ptr (i32_to_usize len) (i32_to_usize len)) (\<lambda>p.
          ptr_store p (take (i32_to_usize len) value))))"

definition get_string :: "hz_string scm" where
  "get_string = sbind get_int32 (\<lambda>len. sthen (skip_bytes 2) (rd_bytes (frame_rest len 6)))"

definition uuid_data :: "uuid \<Rightarrow> byte list" where
  "uuid_data u = be_bytes 8 (uuid_hi u) @ be_bytes 8 (uuid_lo u)"

definition uuid_of_data :: "byte list \<Rightarrow> uuid" where
  "uuid_of_data bs = Uuid (be_word (take 8 bs)) (be_word (take 8 (drop 8 bs)))"

definition reverse_halves :: "byte list \<Rightarrow> byte list" where
  "reverse_halves bs = rev (take 8 bs) @ rev (drop 8 bs)"

definition set_uuid :: "uuid \<Rightarrow> unit scm" where
  "set_uuid u =
    sthen (set_bool (is_nil u))
      (if is_nil u then sthen (wr_ptr 16 16) (sreturn ())
       else wr_bytes (reverse_halves (uuid_data u)))"

definition get_uuid_bytes :: "uuid scm" where
  "get_uuid_bytes = sbind (rd_bytes 16) (\<lambda>bs. sreturn (uuid_of_data (reverse_halves bs)))"

definition get_uuid :: "uuid scm" where
  "get_uuid = sbind get_bool (\<lambda>nil. if nil then sthen (skip_bytes 16) (sreturn nil_uuid) else get_uuid_bytes)"

definition set_data :: "heap_data \<Rightarrow> bool \<Rightarrow> unit scm" where
  "set_data value is_final =
    (if data_size (data_bytes value) = 0 then set_null_frame is_final
     else sthen (wr_bytes (header_bytes \<lparr>frame_len = of_nat (6 + length (data_bytes value)),
              frame_flags = final_flag is_final\<rparr> @ data_bytes value))
       (\<lambda>m. Inr ((), m\<lparr>schemas_will_be_replicated := schemas_will_be_replicated m @ data_schemas value,
                       contains_serialized_data_in_request := True\<rparr>)))"

definition get_data :: "heap_data scm" where
  "get_data = sbind rd_header (\<lambda>h. sbind (rd_bytes (frame_rest (frame_len h) 6)) (\<lambda>bs m.
    case make_data bs [] of Inl e \<Rightarrow> Inl e | Inr d \<Rightarrow> Inr (d, m)))"

section \<open>Nullable values and lists\<close>

definition set_nullable :: "('a \<Rightarrow> bool \<Rightarrow> unit scm) \<Rightarrow> bool \<Rightarrow> 'a option \<Rightarrow> bool \<Rightarrow> unit scm" where
  "set_nullable set_value is_data value is_final =
    (case value of
       None \<Rightarrow> sthen (set_null_frame is_final)
         (\<lambda>m. Inr ((), if is_data then m\<lparr>contains_serialized_data_in_request := True\<rparr> else m))
     | Some v \<Rightarrow> set_value v is_final)"

definition get_nullable :: "'a scm \<Rightarrow> 'a option scm" where
  "get_nullable decoder = sbind next_frame_is_null_frame (\<lambda>null.
    if null then sthen (skip_bytes SIZE_OF_FRAME_LENGTH_AND_FLAGS) (sreturn None)
    else sbind decoder (\<lambda>v. sreturn (Some v)))"

definition set_vector :: "('a \<Rightarrow> unit scm) \<Rightarrow> 'a list \<Rightarrow> bool \<Rightarrow> unit scm" where
  "set_vector set_item values is_final =
    sseq [add_begin_frame, siter set_item values, add_end_frame is_final]"

partial_function (option) get_list_loop :: "'a scm \<Rightarrow> 'a list \<Rightarrow> schema client_message \<Rightarrow>
    (hz_error + 'a list \<times> schema client_message) option" where
  [code]: "get_list_loop get_item acc m =
    (case next_frame_is_data_structure_end_frame m of
       Inl e \<Rightarrow> Some (Inl e)
     | Inr (end, m1) \<Rightarrow>
         if end then Some (Inr (acc, m1))
         else case get_item m1 of
           Inl e \<Rightarrow> Some (Inl e)
         | Inr (v, m2) \<Rightarrow> get_list_loop get_item (acc @ [v]) m2)"

definition get_items :: "'a scm \<Rightarrow> 'a list \<Rightarrow> 'a list scm" where
  "get_items get_item acc = (\<lambda>m. case get_list_loop get_item acc m of None \<Rightarrow> Inl Diverges | Some r \<Rightarrow> r)"

definition get_vector :: "'a scm \<Rightarrow> 'a list scm" where
  "get_vector get_item =
    sthen (skip_bytes SIZE_OF_FRAME_LENGTH_AND_FLAGS)
      (sbind (get_items get_item []) (\<lambda>vs.
        sthen (skip_bytes SIZE_OF_FRAME_LENGTH_AND_FLAGS) (sreturn vs)))"

definition get_map :: "'k scm \<Rightarrow> 'v scm \<Rightarrow> ('k \<times> 'v) list scm" where
  "get_map get_key get_value =
    get_vector (sbind get_key (\<lambda>k. sbind get_value (\<lambda>v. sreturn (k, v))))"

definition set_primitive_vector :: "nat \<Rightarrow> ('a \<Rightarrow> byte list) \<Rightarrow> 'a list \<Rightarrow> bool \<Rightarrow> unit scm" where
  "set_primitive_vector size_of store values is_final =
    (let len = (of_nat (6 + length values * size_of) :: i32) in
     sbind (wr_ptr (i32_to_usize len) (i32_to_usize len)) (\<lambda>memory.
       ptr_store memory (header_bytes \<lparr>frame_len = len, frame_flags = final_flag is_final\<rparr> @
         concat (map store values))))"

definition set_uuid_vector :: "uuid list \<Rightarrow> bool \<Rightarrow> unit scm" where
  "set_uuid_vector values is_final =
    sthen (wr_header (of_nat (6 + length values * 17)) (final_flag is_final)) (siter set_uuid values)"

definition set_uuid_int64_vector :: "(uuid \<times> i64) list \<Rightarrow> bool \<Rightarrow> unit scm" where
  "set_uuid_int64_vector values is_final =
    sthen (wr_header (of_nat (length values * (17 + 8) + 6)) (final_flag is_final))
      (siter (\<lambda>(u, v). sthen (set_uuid u) (set_int64 v)) values)"

definition get_fixed_vector :: "nat \<Rightarrow> 'a scm \<Rightarrow> 'a list scm" where
  "get_fixed_vector size_of get_item =
    sbind rd_header (\<lambda>h. srepeat (frame_rest (frame_len h) 6 div size_of) get_item)"

section \<open>Calculus of headers and frames\<close>

lemma header_of_bytes_inverse [simp]: "header_of_bytes (header_bytes h) = h"
  by (simp add: header_of_bytes_def header_bytes_def)

lemma length_header_bytes [simp]: "length (header_bytes h) = 6"
  by (simp add: header_bytes_def)

lemma header_of_prefix [simp]: "header_of_bytes (header_bytes h @ xs) = h"
  by (simp add: header_of_bytes_def header_bytes_def)

lemma emits_wr_header [emits_intros]:
  "emits (wr_header l f) [header_bytes \<lparr>frame_len = l, frame_flags = f\<rparr>]"
  unfolding wr_header_def by (rule emits_wr_bytes)

lemma emits_state_update:
  assumes "\<And>m. data_buffer (g m) = data_buffer m" "\<And>m. buffer_index (g m) = buffer_index m"
    "\<And>m. msg_offset (g m) = msg_offset m"
  shows "emits (\<lambda>m. Inr ((), g m)) []"
  using assms by (simp add: emits_def)

lemma emits_wr_zeros [emits_intros]: "emits (sthen (wr_ptr n n) (sreturn ())) [replicate n 0]"
proof -
  have "sthen (wr_ptr n n) (sreturn ()) m = wr_bytes (replicate n 0) m"
    if "data_buffer m \<noteq> []" for m :: "'a client_message"
    using that by (auto simp: wr_bytes_put_buf wr_ptr_def Let_def put_buf_def sthen_def sbind_def)
  then show ?thesis
    using emits_wr_bytes [of "replicate n 0"] by (simp add: emits_def)
qed

lemma reads_rd_header [reads_intros]: "reads rd_header [header_bytes h] h"
  using reads_map [OF reads_rd_bytes [of 6 "header_bytes h"], of header_of_bytes]
  by (simp add: rd_header_def)

lemma frame_rest_of_nat:
  "n + k < 2 ^ 31 \<Longrightarrow> frame_rest (of_nat (n + k)) k = n" "n + k < 2 ^ 31 \<Longrightarrow> frame_rest (of_nat (k + n)) k = n"
  using i32_to_usize_of_nat [of "n + k"]
  by (simp_all add: frame_rest_def usize_sub_exact usize_max_def add.commute del: i32_to_usize_of_nat)

text \<open>A frame as it stands in a received message: contiguous, its length in its header.\<close>

definition wf_frame :: "byte list \<Rightarrow> bool" where
  "wf_frame p = (6 \<le> length p \<and> length p < 2 ^ 31 \<and>
    frame_len (header_of_bytes (take 6 p)) = of_nat (length p))"

definition flags_of :: "byte list \<Rightarrow> i16" where
  "flags_of p = frame_flags (header_of_bytes (take 6 p))"

lemma header_bytes_inverse:
  assumes "length bs = 6"
  shows "header_bytes (header_of_bytes bs) = bs"
proof -
  have "take 2 (drop 4 bs) = drop 4 bs"
    using assms by simp
  then show ?thesis
    using assms by (simp add: header_bytes_def header_of_bytes_def del: take_all_iff)
qed

lemma wf_frame_split: "6 \<le> length p \<Longrightarrow> p = header_bytes (header_of_bytes (take 6 p)) @ drop 6 p"
  by (simp add: header_bytes_inverse)

lemma reads_frame_skip:
  assumes "wf_frame p"
  shows "reads (sbind rd_header (\<lambda>h. skip_bytes (frame_rest (frame_len h) 6))) [p] ()"
proof -
  let ?h = "header_of_bytes (take 6 p)"
  have p: "p = header_bytes ?h @ drop 6 p"
    using assms by (intro wf_frame_split) (simp add: wf_frame_def)
  have n: "frame_rest (frame_len ?h) 6 = length (drop 6 p)"
    using assms frame_rest_of_nat(1) [of "length p - 6" 6] by (simp add: wf_frame_def)
  have "reads (sbind rd_header (\<lambda>h. skip_bytes (frame_rest (frame_len h) 6)))
    ([header_bytes ?h] @ [drop 6 p]) ()"
    by (rule reads_bind [OF reads_rd_header]) (rule reads_skip_bytes [OF n])
  then show ?thesis
    using reads_split [of _ "header_bytes ?h" "drop 6 p" "[]"] p by simp
qed

lemma reads_skip_frame [reads_intros]: "wf_frame p \<Longrightarrow> reads skip_frame [p] ()"
  unfolding skip_frame_def by (rule reads_frame_skip)

section \<open>Fast forward\<close>

text \<open>\<open>closes n fs\<close>: counting structure frames from depth \<open>n\<close>, the frames \<open>fs\<close> reach depth 0 at
  their end and not before.\<close>

fun closes :: "nat \<Rightarrow> byte list list \<Rightarrow> bool" where
  "closes 0 fs = (fs = [])"
| "closes (Suc n) [] = False"
| "closes (Suc n) (f # fs) = closes (ff_count (flags_of f) (Suc n)) fs"

definition ff :: "nat \<Rightarrow> unit scm" where
  "ff n = (\<lambda>m. case ff_loop n m of None \<Rightarrow> Inl Diverges | Some r \<Rightarrow> r)"

lemma ff_unfold: "ff (Suc n) =
  sbind rd_header (\<lambda>h. sthen (skip_bytes (frame_rest (frame_len h) 6)) (ff (ff_count (frame_flags h) (Suc n))))"
  by (rule ext) (auto simp: ff_def sbind_def sthen_def ff_loop.simps [of "Suc n"] split: sum.splits prod.splits)

lemma ff_0: "ff 0 = sreturn ()"
  by (rule ext) (simp add: ff_def ff_loop.simps)

lemma reads_ff: "closes n fs \<Longrightarrow> list_all wf_frame fs \<Longrightarrow> reads (ff n) fs ()"
proof (induction n fs rule: closes.induct)
  case (1 fs)
  then show ?case using reads_return [of "()"] by (simp add: ff_0 del: sreturn_apply)
next
  case (3 n f fs)
  let ?h = "header_of_bytes (take 6 f)"
  have f: "f = header_bytes ?h @ drop 6 f"
    using 3 by (intro wf_frame_split) (simp add: wf_frame_def)
  have n: "frame_rest (frame_len ?h) 6 = length (drop 6 f)"
    using 3(3) frame_rest_of_nat(1) [of "length f - 6" 6] by (simp add: wf_frame_def)
  have "reads (ff (Suc n)) ([header_bytes ?h] @ [drop 6 f] @ fs) ()"
    unfolding ff_unfold
    by (intro reads_bind [OF reads_rd_header] reads_then [OF reads_skip_bytes [OF n]])
       (use 3 in \<open>simp add: flags_of_def\<close>)
  then show ?case
    using reads_split [of _ "header_bytes ?h" "drop 6 f" fs] f by simp
qed simp

lemma reads_fast_forward:
  "closes 1 fs \<Longrightarrow> list_all wf_frame fs \<Longrightarrow> reads fast_forward_to_end_frame fs ()"
  using reads_ff [of 1 fs] by (simp add: ff_def fast_forward_to_end_frame_def)

section \<open>Looking ahead\<close>

definition peeks :: "'a scm \<Rightarrow> byte list list \<Rightarrow> 'a \<Rightarrow> bool" where
  "peeks f ps v = (\<forall>m qs. msg_ok m \<longrightarrow> chunked (rest m) (ps @ qs) \<longrightarrow>
    (\<exists>m'. f m = Inr (v, m') \<and> msg_ok m' \<and> chunked (rest m') (ps @ qs) \<and> data_buffer m' = data_buffer m))"

lemma peeks_bind: "peeks f ps a \<Longrightarrow> reads (g a) ps b \<Longrightarrow> reads (sbind f g) ps b"
  unfolding reads_def peeks_def by (fastforce simp: sbind_def)

lemma peeks_map: "peeks f ps a \<Longrightarrow> peeks (sbind f (\<lambda>x. sreturn (h x))) ps (h a)"
  unfolding peeks_def by (fastforce simp: sbind_def)

lemma chunked_peek_prefix:
  assumes "msg_ok m" "chunked (rest m) (p # ps)" "6 \<le> length p"
  shows "\<exists>i pos m'. peek 6 m = Inr (Some (i, pos), m') \<and> msg_ok m' \<and>
    chunked (rest m') (p # ps) \<and> data_buffer m' = data_buffer m \<and>
    i < length (data_buffer m') \<and> pos + 6 \<le> length (buf_bytes (data_buffer m' ! i)) \<and>
    slice pos 6 (buf_bytes (data_buffer m' ! i)) = take 6 p"
proof -
  obtain m' c cs where m': "peek 6 m = Inr (Some (buffer_index m', msg_offset m'), m')" "msg_ok m'"
    "chunked (rest m') (p # ps)" "data_buffer m' = data_buffer m"
    "buffer_index m' < length (data_buffer m)" "rest m' = (p @ c) # cs"
    using peek_at_piece [OF assms(1,2), of 6] assms(3) by auto
  have r: "rest m' = (take 6 p @ drop 6 p @ c) # cs"
    using m'(6) by (metis append.assoc append_take_drop_id)
  have "length (take 6 p) = 6"
    using assms(3) by simp
  with rest_load [OF r _ m'(2)] m' show ?thesis
    by auto
qed

lemma peeks_flags:
  assumes "6 \<le> length p"
  shows "peeks peek_flags (p # ps) (flags_of p)"
  unfolding peeks_def
proof (intro allI impI)
  fix m :: "schema client_message" and qs
  assume m: "msg_ok m" "chunked (rest m) ((p # ps) @ qs)"
  obtain i pos m' where m': "peek 6 m = Inr (Some (i, pos), m')" "msg_ok m'"
    "chunked (rest m') ((p # ps) @ qs)" "data_buffer m' = data_buffer m"
    "i < length (data_buffer m')" "pos + 6 \<le> length (buf_bytes (data_buffer m' ! i))"
    "slice pos 6 (buf_bytes (data_buffer m' ! i)) = take 6 p"
    using chunked_peek_prefix [OF m(1) _ assms, of "ps @ qs"] m(2) unfolding append_Cons by blast
  let ?b = "buf_bytes (data_buffer m' ! i)"
  have "slice (pos + 4) 2 ?b = take 2 (drop 4 (slice pos 6 ?b))"
    by (simp add: slice_def drop_take add.commute)
  then have "le_word (slice (pos + 4) 2 ?b) = flags_of p"
    using m'(7) by (simp add: flags_of_def header_of_bytes_def)
  then have "peek_flags m = Inr (flags_of p, m')"
    using m' by (simp add: peek_flags_def ptr_load_def)
  with m' show "\<exists>m'. peek_flags m = Inr (flags_of p, m') \<and> msg_ok m' \<and>
    chunked (rest m') ((p # ps) @ qs) \<and> data_buffer m' = data_buffer m"
    by blast
qed

lemma peeks_end_frame:
  "6 \<le> length p \<Longrightarrow> peeks next_frame_is_data_structure_end_frame (p # ps)
    (flag_set (flags_of p) END_DATA_STRUCTURE_FLAG)"
  unfolding next_frame_is_data_structure_end_frame_def by (rule peeks_map [OF peeks_flags])

lemma peeks_null_frame:
  "6 \<le> length p \<Longrightarrow> peeks next_frame_is_null_frame (p # ps) (flag_set (flags_of p) IS_NULL_FLAG)"
  unfolding next_frame_is_null_frame_def by (rule peeks_map [OF peeks_flags])

lemma get_items_then: "sbind (get_items g acc) k = sbind next_frame_is_data_structure_end_frame (\<lambda>e.
    if e then k acc else sbind g (\<lambda>v. sbind (get_items g (acc @ [v])) k))"
  by (rule ext, unfold get_items_def, subst get_list_loop.simps)
     (auto simp: sbind_def split: sum.splits prod.splits option.splits)

section \<open>Codecs of frames, lists and nullable values\<close>

text \<open>A codec whose encoding starts with a frame header that marks neither a null value nor the
  end of a structure can be put in lists and made nullable.\<close>

definition starts_frame :: "byte list list \<Rightarrow> bool" where
  "starts_frame ps = (case ps of [] \<Rightarrow> False
    | p # _ \<Rightarrow> 6 \<le> length p \<and> \<not> flag_set (flags_of p) END_DATA_STRUCTURE_FLAG \<and>
        \<not> flag_set (flags_of p) IS_NULL_FLAG)"

definition plain_header :: "nat \<Rightarrow> i16 \<Rightarrow> byte list" where
  "plain_header n f = header_bytes \<lparr>frame_len = of_nat n, frame_flags = f\<rparr>"

definition begin_piece :: "byte list" where
  "begin_piece = header_bytes \<lparr>frame_len = 6, frame_flags = BEGIN_DATA_STRUCTURE_FLAG\<rparr>"

definition end_piece :: "bool \<Rightarrow> byte list" where
  "end_piece is_final = header_bytes \<lparr>frame_len = 6,
    frame_flags = END_DATA_STRUCTURE_FLAG OR final_flag is_final\<rparr>"

definition null_piece :: "bool \<Rightarrow> byte list" where
  "null_piece is_final = header_bytes \<lparr>frame_len = 6, frame_flags = IS_NULL_FLAG OR final_flag is_final\<rparr>"

lemma flags_of_header [simp]: "flags_of (header_bytes h @ xs) = frame_flags h"
  "flags_of (header_bytes h) = frame_flags h"
  by (simp_all add: flags_of_def)

lemma length_pieces [simp]: "length begin_piece = 6" "length (end_piece f) = 6" "length (null_piece f) = 6"
  "length (plain_header n g) = 6"
  by (simp_all add: begin_piece_def end_piece_def null_piece_def plain_header_def)

lemma flag_values:
  "flag_set BEGIN_DATA_STRUCTURE_FLAG END_DATA_STRUCTURE_FLAG = False"
  "flag_set BEGIN_DATA_STRUCTURE_FLAG BEGIN_DATA_STRUCTURE_FLAG = True"
  "flag_set BEGIN_DATA_STRUCTURE_FLAG IS_NULL_FLAG = False"
  "flag_set (END_DATA_STRUCTURE_FLAG OR final_flag f) END_DATA_STRUCTURE_FLAG = True"
  "flag_set (END_DATA_STRUCTURE_FLAG OR final_flag f) IS_NULL_FLAG = False"
  "flag_set (IS_NULL_FLAG OR final_flag f) IS_NULL_FLAG = True"
  "flag_set (IS_NULL_FLAG OR final_flag f) END_DATA_STRUCTURE_FLAG = False"
  "flag_set (final_flag f) END_DATA_STRUCTURE_FLAG = False"
  "flag_set (final_flag f) IS_NULL_FLAG = False"
  "flag_set (final_flag f) BEGIN_DATA_STRUCTURE_FLAG = False"
  "flag_set DEFAULT_FLAGS END_DATA_STRUCTURE_FLAG = False"
  "flag_set DEFAULT_FLAGS IS_NULL_FLAG = False"
  "flag_set DEFAULT_FLAGS BEGIN_DATA_STRUCTURE_FLAG = False"
  by (simp_all add: flag_set_def final_flag_def DEFAULT_FLAGS_def IS_FINAL_FLAG_def IS_NULL_FLAG_def
      BEGIN_DATA_STRUCTURE_FLAG_def END_DATA_STRUCTURE_FLAG_def)

lemma flags_of_pieces [simp]:
  "flags_of begin_piece = BEGIN_DATA_STRUCTURE_FLAG"
  "flags_of (end_piece f) = END_DATA_STRUCTURE_FLAG OR final_flag f"
  "flags_of (null_piece f) = IS_NULL_FLAG OR final_flag f"
  "flags_of (plain_header n g) = g"
  by (simp_all add: begin_piece_def end_piece_def null_piece_def plain_header_def)

lemma wf_frame_pieces [simp]: "wf_frame begin_piece" "wf_frame (end_piece f)" "wf_frame (null_piece f)"
  by (simp_all add: wf_frame_def begin_piece_def end_piece_def null_piece_def)

lemma emits_frames [emits_intros]:
  "emits add_begin_frame [begin_piece]" "emits (add_end_frame f) [end_piece f]"
  "emits (set_null_frame f) [null_piece f]"
  by (simp_all add: add_begin_frame_def add_end_frame_def set_null_frame_def begin_piece_def
      end_piece_def null_piece_def emits_wr_header)

lemma closes_end [simp]: "closes 1 [end_piece f]"
  unfolding One_nat_def by (simp add: ff_count_def flag_values)

definition list_pieces :: "('v \<Rightarrow> byte list list) \<Rightarrow> bool \<Rightarrow> 'v list \<Rightarrow> byte list list" where
  "list_pieces pieces f vs = begin_piece # concat (map pieces vs) @ [end_piece f]"

definition nullable_pieces :: "('v \<Rightarrow> byte list list) \<Rightarrow> bool \<Rightarrow> 'v option \<Rightarrow> byte list list" where
  "nullable_pieces pieces f v = (case v of None \<Rightarrow> [null_piece f] | Some x \<Rightarrow> pieces x)"

text \<open>The reading side: what stands on the wire may carry more than the value \<open>val w\<close> the getter
  returns.\<close>

locale frame_reader =
  fixes dec :: "(schema, 'v) cm" and pieces :: "'w \<Rightarrow> byte list list" and val :: "'w \<Rightarrow> 'v"
    and wf :: "'w \<Rightarrow> bool"
  assumes reads_val: "wf w \<Longrightarrow> reads dec (pieces w) (val w)"
    and starts_frame: "wf w \<Longrightarrow> starts_frame (pieces w)"
begin

lemma reads_nullable_Some:
  assumes "wf w"
  shows "reads (get_nullable dec) (pieces w) (Some (val w))"
proof -
  obtain p ps where p: "pieces w = p # ps" "6 \<le> length p" "\<not> flag_set (flags_of p) IS_NULL_FLAG"
    using starts_frame [OF assms] by (auto simp: starts_frame_def split: list.splits)
  show ?thesis
    unfolding get_nullable_def p(1)
    by (rule peeks_bind [OF peeks_null_frame [OF p(2)]])
       (use p(1,3) reads_val [OF assms] reads_map [of dec "pieces w" "val w" Some] in simp)
qed

lemma reads_nullable:
  assumes "pred_option wf w"
  shows "reads (get_nullable dec) (nullable_pieces pieces f w) (map_option val w)"
proof (cases w)
  case None
  have "reads (sthen (skip_bytes 6) (sreturn None)) ([null_piece f] @ []) (None :: 'v option)"
    by (intro reads_then [OF reads_skip_bytes] reads_return) simp
  then have "reads (get_nullable dec) [null_piece f] None"
    unfolding get_nullable_def
    by (intro peeks_bind [OF peeks_null_frame]) (simp_all add: flag_values del: sreturn_apply)
  with None show ?thesis
    by (simp add: nullable_pieces_def)
next
  case (Some x)
  with assms reads_nullable_Some show ?thesis
    by (simp add: nullable_pieces_def)
qed

lemma reads_items:
  assumes "list_all wf ws" "reads (k (acc @ map val ws)) [end_piece f] r"
  shows "reads (sbind (get_items dec acc) k) (concat (map pieces ws) @ [end_piece f]) r"
  using assms
proof (induction ws arbitrary: acc)
  case Nil
  then show ?case
    by (subst get_items_then) (simp, rule peeks_bind [OF peeks_end_frame], simp_all add: flag_values)
next
  case (Cons w ws)
  have w: "wf w" "reads (sbind (get_items dec (acc @ [val w])) k) (concat (map pieces ws) @ [end_piece f]) r"
    using Cons.IH [of "acc @ [val w]"] Cons.prems by simp_all
  obtain p ps where p: "pieces w = p # ps" "6 \<le> length p"
    "flag_set (flags_of p) END_DATA_STRUCTURE_FLAG = False"
    using starts_frame [OF w(1)] by (auto simp: starts_frame_def split: list.splits)
  have "reads (sbind dec (\<lambda>v. sbind (get_items dec (acc @ [v])) k))
    (pieces w @ concat (map pieces ws) @ [end_piece f]) r"
    using reads_bind [OF reads_val [OF w(1)], of "\<lambda>v. sbind (get_items dec (acc @ [v])) k"] w(2) by simp
  then have "reads (sbind (get_items dec acc) k) (p # ps @ concat (map pieces ws) @ [end_piece f]) r"
    by (subst get_items_then) (rule peeks_bind [OF peeks_end_frame [OF p(2)]], simp add: p)
  then show ?case
    using p(1) by simp
qed

lemma list_reader: "frame_reader (get_vector dec) (list_pieces pieces f) (map val) (list_all wf)"
proof
  fix ws
  assume wf: "list_all wf ws"
  have "reads (sthen (skip_bytes 6) (sreturn (map val ws))) ([end_piece f] @ []) (map val ws)"
    by (intro reads_then [OF reads_skip_bytes] reads_return) simp
  then have "reads (get_vector dec) ([begin_piece] @ (concat (map pieces ws) @ [end_piece f])) (map val ws)"
    unfolding get_vector_def
    by (intro reads_then [OF reads_skip_bytes] reads_items wf) (simp_all del: sreturn_apply)
  then show "reads (get_vector dec) (list_pieces pieces f ws) (map val ws)"
    by (simp add: list_pieces_def)
  show "starts_frame (list_pieces pieces f ws)"
    by (simp add: list_pieces_def starts_frame_def flag_values)
qed

end

locale frame_codec = msg_codec enc dec pieces wf
  for enc :: "'v \<Rightarrow> (schema, unit) cm" and dec :: "(schema, 'v) cm"
    and pieces :: "'v \<Rightarrow> byte list list" and wf :: "'v \<Rightarrow> bool" +
  assumes starts: "wf v \<Longrightarrow> starts_frame (pieces v)"

sublocale frame_codec \<subseteq> frame_reader dec pieces "\<lambda>v. v" wf
  by unfold_locales (use reads_dec starts in auto)

context frame_codec
begin

lemma list_codec: "frame_codec (\<lambda>vs. set_vector enc vs f) (get_vector dec) (list_pieces pieces f) (list_all wf)"
proof
  fix vs
  assume wf: "list_all wf vs"
  have "emits (set_vector enc vs f) ([begin_piece] @ concat (map pieces vs) @ [end_piece f] @ [])"
    unfolding set_vector_def using emits_list [OF wf]
    by (intro emits_sseq_Cons emits_frames emits_sseq_Nil)
  then show "emits (set_vector enc vs f) (list_pieces pieces f vs)"
    by (simp add: list_pieces_def)
  show "reads (get_vector dec) (list_pieces pieces f vs) vs" "starts_frame (list_pieces pieces f vs)"
    using frame_reader.reads_val [OF list_reader [of f], OF wf]
      frame_reader.starts_frame [OF list_reader [of f], OF wf] by simp_all
qed

lemma nullable_codec:
  "msg_codec (\<lambda>v. set_nullable (\<lambda>x _. enc x) d v f) (get_nullable dec)
    (nullable_pieces pieces f) (pred_option wf)"
proof
  fix v
  assume wf: "pred_option wf v"
  show "emits (set_nullable (\<lambda>x _. enc x) d v f) (nullable_pieces pieces f v)"
  proof (cases v)
    case None
    have "emits (\<lambda>m :: schema client_message. Inr ((), if d then m\<lparr>contains_serialized_data_in_request := True\<rparr> else m)) []"
      by (rule emits_state_update) auto
    from emits_then [OF emits_frames(3) this] None show ?thesis
      by (simp add: set_nullable_def nullable_pieces_def)
  next
    case (Some x)
    with wf emits_enc show ?thesis
      by (simp add: set_nullable_def nullable_pieces_def)
  qed
  show "reads (get_nullable dec) (nullable_pieces pieces f v) v"
    using reads_nullable [OF wf, of f] by (simp add: option.map_ident)
qed

end

section \<open>Instances\<close>

interpretation uint8: msg_codec set_uint8 get_uint8 "\<lambda>v. [[v]]" "\<lambda>_. True"
proof
  show "emits (set_uint8 v) [[v]]" for v
    by (simp add: set_uint8_def emits_wr_bytes)
  show "reads get_uint8 [[v]] v" for v
    using reads_map [OF reads_rd_bytes [of 1 "[v]"], of hd] by (simp add: get_uint8_def)
qed

interpretation bool: msg_codec set_bool get_bool "\<lambda>v. [[if v then 1 else 0]]" "\<lambda>_. True"
proof
  show "emits (set_bool v) [[if v then 1 else 0]]" for v
    by (simp add: set_bool_def emits_wr_bytes)
  show "reads get_bool [[if v then 1 else 0]] v" for v
    using reads_map [OF reads_rd_bytes [of 1 "[if v then 1 else 0]"], of "\<lambda>bs. hd bs \<noteq> 0"]
    by (cases v) (simp_all add: get_bool_def)
qed

lemma reads_le_word:
  fixes v :: "'n::len word"
  assumes "n = length (f v)" "le_word (f v) = v"
  shows "reads (sbind (rd_bytes n) (\<lambda>bs. sreturn (le_word bs) :: ('sch client_message, 'n word) sm)) [f v] v"
proof -
  have "reads (sbind (rd_bytes n) (\<lambda>bs. sreturn (le_word bs) :: ('sch client_message, 'n word) sm)) [f v] (le_word (f v))"
    by (rule reads_map [OF reads_rd_bytes [OF assms(1)]])
  with assms(2) show ?thesis
    by simp
qed

interpretation int16: msg_codec set_int16 get_int16 "\<lambda>v. [le_bytes 2 v]" "\<lambda>_. True"
  by unfold_locales (auto simp: set_int16_def get_int16_def emits_wr_bytes
      intro!: reads_le_word simp del: le_bytes.simps)

interpretation int32: msg_codec set_int32 get_int32 "\<lambda>v. [le_bytes 4 v]" "\<lambda>_. True"
  by unfold_locales (auto simp: set_int32_def get_int32_def emits_wr_bytes
      intro!: reads_le_word simp del: le_bytes.simps)

interpretation int64: msg_codec set_int64 get_int64 "\<lambda>v. [le_bytes 8 v]" "\<lambda>_. True"
  by unfold_locales (auto simp: set_int64_def get_int64_def emits_wr_bytes
      intro!: reads_le_word simp del: le_bytes.simps)

lemma uuid_wire: "reverse_halves (uuid_data u) = le_bytes 8 (uuid_hi u) @ le_bytes 8 (uuid_lo u)"
  by (simp add: reverse_halves_def uuid_data_def be_bytes_def)

lemma uuid_of_wire: "uuid_of_data (reverse_halves (le_bytes 8 h @ le_bytes 8 l)) = Uuid h l"
  by (simp add: uuid_of_data_def reverse_halves_def be_word_def)

definition uuid_pieces :: "uuid \<Rightarrow> byte list list" where
  "uuid_pieces u = [[if is_nil u then 1 else 0],
    if is_nil u then replicate 16 0 else le_bytes 8 (uuid_hi u) @ le_bytes 8 (uuid_lo u)]"

interpretation uuid: msg_codec set_uuid get_uuid uuid_pieces "\<lambda>_. True"
proof
  fix u
  have "emits (if is_nil u then sthen (wr_ptr 16 16) (sreturn ())
       else wr_bytes (reverse_halves (uuid_data u)))
    [if is_nil u then replicate 16 0 else le_bytes 8 (uuid_hi u) @ le_bytes 8 (uuid_lo u)]"
    using emits_wr_zeros [of 16] emits_wr_bytes by (auto simp: uuid_wire simp del: sreturn_apply)
  from emits_then [OF bool.emits_enc [OF TrueI, of "is_nil u"] this] show "emits (set_uuid u) (uuid_pieces u)"
    by (simp add: set_uuid_def uuid_pieces_def)
  have nil: "reads (sthen (skip_bytes 16) (sreturn nil_uuid)) ([replicate 16 0] @ []) nil_uuid"
    by (intro reads_then [OF reads_skip_bytes] reads_return) simp
  let ?bs = "le_bytes 8 (uuid_hi u) @ le_bytes 8 (uuid_lo u)"
  have val: "reads get_uuid_bytes [?bs] u"
    using reads_map [OF reads_rd_bytes [of 16 ?bs], of "\<lambda>bs. uuid_of_data (reverse_halves bs)"]
    by (simp add: get_uuid_bytes_def uuid_of_wire)
  have "reads get_uuid ([[if is_nil u then 1 else 0]] @
    [if is_nil u then replicate 16 0 else ?bs]) u"
    unfolding get_uuid_def
    by (rule reads_bind [OF bool.reads_dec [OF TrueI]])
       (use nil val in \<open>auto simp: is_nil_def simp del: sreturn_apply\<close>)
  then show "reads get_uuid (uuid_pieces u) u"
    by (simp add: uuid_pieces_def)
qed

definition string_ok :: "hz_string \<Rightarrow> bool" where
  "string_ok s = (length s + 6 < 2 ^ 31)"

definition string_pieces :: "bool \<Rightarrow> hz_string \<Rightarrow> byte list list" where
  "string_pieces f s = [plain_header (6 + length s) (final_flag f), s]"

interpretation string: frame_codec "\<lambda>s. set_string s f" get_string "string_pieces f" string_ok for f
proof
  fix s
  assume ok: "string_ok s"
  then have len: "i32_to_usize (of_nat (length s)) = length s"
    by (simp add: string_ok_def)
  have "emits (set_string s f) ([header_bytes \<lparr>frame_len = 6 + of_nat (length s), frame_flags = final_flag f\<rparr>] @ [s])"
    unfolding set_string_def Let_def len
    by (rule emits_then [OF emits_wr_header]) (use emits_wr_bytes [of s] in \<open>simp add: wr_bytes_def\<close>)
  then show "emits (set_string s f) (string_pieces f s)"
    by (simp add: string_pieces_def plain_header_def)
  let ?w = "of_nat (6 + length s) :: i32"
  have rest: "frame_rest ?w 6 = length s"
    using ok by (intro frame_rest_of_nat(2)) (simp add: string_ok_def)
  have "reads get_string ([le_bytes 4 ?w] @ [le_bytes 2 (final_flag f)] @ [s]) s"
    unfolding get_string_def
    by (intro reads_bind [OF int32.reads_dec [OF TrueI]] reads_then [OF reads_skip_bytes] reads_rd_bytes)
       (simp_all only: rest length_le_bytes)
  then show "reads get_string (string_pieces f s) s"
    by (simp add: string_pieces_def plain_header_def header_bytes_def reads_split)
  show "starts_frame (string_pieces f s)"
    by (simp add: string_pieces_def starts_frame_def flag_values)
qed

definition data_ok :: "heap_data \<Rightarrow> bool" where
  "data_ok d = (make_data (data_bytes d) [] = Inr d \<and> DATA_OVERHEAD < length (data_bytes d) \<and>
    length (data_bytes d) + 6 < 2 ^ 31)"

definition data_pieces :: "bool \<Rightarrow> heap_data \<Rightarrow> byte list list" where
  "data_pieces f d = [plain_header (6 + length (data_bytes d)) (final_flag f) @ data_bytes d]"

lemma emits_data:
  assumes "DATA_OVERHEAD < length (data_bytes d)" "length (data_bytes d) + 6 < 2 ^ 31"
  shows "emits (set_data d f) (data_pieces f d)"
proof -
  have size: "data_size (data_bytes d) \<noteq> 0"
    using assms data_size_eq [of "data_bytes d"] by simp
  have "emits (\<lambda>m :: schema client_message. Inr ((), m\<lparr>schemas_will_be_replicated := schemas_will_be_replicated m @ data_schemas d,
                       contains_serialized_data_in_request := True\<rparr>)) []"
    by (rule emits_state_update) auto
  from emits_then [OF emits_wr_bytes this] size show ?thesis
    by (simp add: set_data_def data_pieces_def plain_header_def)
qed

interpretation data: frame_codec "\<lambda>d. set_data d f" get_data "data_pieces f" data_ok for f
proof
  fix d
  assume ok: "data_ok d"
  then show "emits (set_data d f) (data_pieces f d)"
    by (intro emits_data) (simp_all add: data_ok_def)
  let ?h = "\<lparr>frame_len = of_nat (6 + length (data_bytes d)), frame_flags = final_flag f\<rparr>"
  have rest: "frame_rest (frame_len ?h) 6 = length (data_bytes d)"
    using ok frame_rest_of_nat(2) [of "length (data_bytes d)" 6] by (simp add: data_ok_def)
  have bytes: "reads (sbind (rd_bytes (frame_rest (frame_len ?h) 6)) (\<lambda>bs m.
      case make_data bs [] of Inl e \<Rightarrow> Inl e | Inr d \<Rightarrow> Inr (d, m))) ([data_bytes d] @ []) d"
    using ok by (intro reads_bind [OF reads_rd_bytes [OF rest]]) (simp add: reads_def data_ok_def)
  have "reads get_data ([header_bytes ?h] @ ([data_bytes d] @ [])) d"
    unfolding get_data_def by (rule reads_bind [OF reads_rd_header]) (rule bytes)
  then show "reads get_data (data_pieces f d) d"
    by (simp add: data_pieces_def plain_header_def reads_split)
  show "starts_frame (data_pieces f d)"
    by (simp add: data_pieces_def starts_frame_def plain_header_def flag_values)
qed

lemma reads_concat: "reads f (p # qs @ rs) v \<Longrightarrow> reads f ((p @ concat qs) # rs) v"
  by (induction qs arbitrary: p) (use reads_split [of f] in \<open>simp_all add: append.assoc [symmetric] del: append.assoc append_assoc\<close>)

interpretation string_list: frame_codec "\<lambda>ss. set_vector (\<lambda>s. set_string s False) ss f"
  "get_vector get_string" "list_pieces (string_pieces False) f" "list_all string_ok" for f
  by (rule string.list_codec)

interpretation nullable_string: msg_codec "\<lambda>s. set_nullable (\<lambda>x _. set_string x f) d s f"
  "get_nullable get_string" "nullable_pieces (string_pieces f) f" "pred_option string_ok" for d f
  by (rule string.nullable_codec)

interpretation nullable_data: msg_codec "\<lambda>s. set_nullable (\<lambda>x _. set_data x f) d s f"
  "get_nullable get_data" "nullable_pieces (data_pieces f) f" "pred_option data_ok" for d f
  by (rule data.nullable_codec)

section \<open>Vectors of fixed-size items\<close>

definition vector_ok :: "nat \<Rightarrow> 'a list \<Rightarrow> bool" where
  "vector_ok size_of vs = (length vs * size_of + 6 < 2 ^ 31)"

definition vector_pieces :: "nat \<Rightarrow> ('v \<Rightarrow> byte list list) \<Rightarrow> bool \<Rightarrow> 'v list \<Rightarrow> byte list list" where
  "vector_pieces size_of pieces f vs =
    plain_header (6 + length vs * size_of) (final_flag f) # concat (map pieces vs)"

context msg_codec
begin

lemma reads_fixed_vector:
  assumes "list_all wf vs" "vector_ok size_of vs" "0 < size_of"
  shows "reads (sbind rd_header (\<lambda>h. srepeat (frame_rest (frame_len h) 6 div size_of) dec))
    (vector_pieces size_of pieces f vs) vs"
proof -
  let ?h = "\<lparr>frame_len = of_nat (6 + length vs * size_of), frame_flags = final_flag f\<rparr>"
  have n: "frame_rest (frame_len ?h) 6 div size_of = length vs"
    using assms(2,3) frame_rest_of_nat(2) [of "length vs * size_of" 6] by (simp add: vector_ok_def)
  have "reads (sbind rd_header (\<lambda>h. srepeat (frame_rest (frame_len h) 6 div size_of) dec))
    ([header_bytes ?h] @ concat (map pieces vs)) vs"
    by (rule reads_bind [OF reads_rd_header], unfold n, rule reads_list [OF assms(1)])
  then show ?thesis
    by (simp add: vector_pieces_def plain_header_def)
qed

end

interpretation uuid_vector: msg_codec "\<lambda>vs. set_uuid_vector vs f" "get_fixed_vector 17 get_uuid"
  "vector_pieces 17 uuid_pieces f" "vector_ok 17" for f
proof
  fix vs :: "uuid list"
  assume ok: "vector_ok 17 vs"
  show "reads (get_fixed_vector 17 get_uuid) (vector_pieces 17 uuid_pieces f vs) vs"
    unfolding get_fixed_vector_def by (rule uuid.reads_fixed_vector) (simp_all add: ok list_all_iff)
  show "emits (set_uuid_vector vs f) (vector_pieces 17 uuid_pieces f vs)"
    using emits_then [OF emits_wr_header uuid.emits_list [of vs]]
    by (simp add: set_uuid_vector_def vector_pieces_def plain_header_def list_all_iff)
qed

definition uuid_int64_pieces :: "uuid \<times> i64 \<Rightarrow> byte list list" where
  "uuid_int64_pieces = (\<lambda>(u, v). uuid_pieces u @ [le_bytes 8 v])"

interpretation uuid_int64: msg_codec "\<lambda>(u, v). sthen (set_uuid u) (set_int64 v)"
  "sbind get_uuid (\<lambda>u. sbind get_int64 (\<lambda>v. sreturn (u, v)))" uuid_int64_pieces "\<lambda>_. True"
proof
  fix p :: "uuid \<times> i64"
  obtain u v where p: "p = (u, v)"
    by (cases p)
  show "emits (case p of (u, v) \<Rightarrow> sthen (set_uuid u) (set_int64 v)) (uuid_int64_pieces p)"
    using emits_then [OF uuid.emits_enc int64.emits_enc] by (simp add: p uuid_int64_pieces_def)
  have "reads (sbind get_int64 (\<lambda>v. sreturn (u, v))) [le_bytes 8 v] (u, v)"
    by (rule reads_map) (simp add: int64.reads_dec)
  then show "reads (sbind get_uuid (\<lambda>u. sbind get_int64 (\<lambda>v. sreturn (u, v)))) (uuid_int64_pieces p) p"
    unfolding p uuid_int64_pieces_def prod.case by (intro reads_bind [OF uuid.reads_dec [OF TrueI]])
qed

interpretation uuid_int64_vector: msg_codec "\<lambda>vs. set_uuid_int64_vector vs f"
  "get_fixed_vector (17 + 8) (sbind get_uuid (\<lambda>u. sbind get_int64 (\<lambda>v. sreturn (u, v))))"
  "vector_pieces (17 + 8) uuid_int64_pieces f" "vector_ok (17 + 8)" for f
proof
  fix vs :: "(uuid \<times> i64) list"
  assume ok: "vector_ok (17 + 8) vs"
  show "reads (get_fixed_vector (17 + 8) (sbind get_uuid (\<lambda>u. sbind get_int64 (\<lambda>v. sreturn (u, v)))))
    (vector_pieces (17 + 8) uuid_int64_pieces f vs) vs"
    unfolding get_fixed_vector_def by (rule uuid_int64.reads_fixed_vector) (use ok in \<open>simp_all add: list_all_iff\<close>)
  show "emits (set_uuid_int64_vector vs f) (vector_pieces (17 + 8) uuid_int64_pieces f vs)"
    using emits_then [OF emits_wr_header uuid_int64.emits_list [of vs]]
    by (simp add: set_uuid_int64_vector_def vector_pieces_def plain_header_def list_all_iff add.commute)
qed

interpretation int32_vector: msg_codec "\<lambda>vs. set_primitive_vector 4 (le_bytes 4) vs f"
  "get_fixed_vector 4 get_int32" "\<lambda>vs. [plain_header (6 + length vs * 4) (final_flag f) @ concat (map (le_bytes 4) vs)]"
  "vector_ok 4" for f
proof
  fix vs :: "i32 list"
  assume ok: "vector_ok 4 vs"
  let ?len = "of_nat (6 + length vs * 4) :: i32"
  let ?bs = "plain_header (6 + length vs * 4) (final_flag f) @ concat (map (le_bytes 4) vs)"
  have "length (concat (map (le_bytes 4) vs)) = length vs * 4"
    by (induction vs) (simp_all del: le_bytes.simps)
  then have "i32_to_usize ?len = length ?bs"
    using ok i32_to_usize_of_nat [of "6 + length vs * 4"] by (simp add: vector_ok_def)
  then have "set_primitive_vector 4 (le_bytes 4) vs f = wr_bytes ?bs"
    by (simp only: set_primitive_vector_def wr_bytes_def Let_def plain_header_def)
  then show "emits (set_primitive_vector 4 (le_bytes 4) vs f) [?bs]"
    by (simp only: emits_wr_bytes)
  have "reads (get_fixed_vector 4 get_int32) (vector_pieces 4 (\<lambda>v. [le_bytes 4 v]) f vs) vs"
    unfolding get_fixed_vector_def by (rule int32.reads_fixed_vector) (use ok in \<open>simp_all add: list_all_iff\<close>)
  then show "reads (get_fixed_vector 4 get_int32) [?bs] vs"
    using reads_concat [of "get_fixed_vector 4 get_int32" "plain_header (6 + length vs * 4) (final_flag f)"
        "map (le_bytes 4) vs" "[]" vs]
    by (simp add: vector_pieces_def concat_map_singleton)
qed

section \<open>Properties\<close>

text \<open>
  C9. A list of strings written by the setter for vectors at the end of a message is read back
  unchanged by the list getter, which stops exactly behind it.
\<close>

theorem string_list_roundtrip:
  assumes "list_all string_ok ss" "at_end m"
    "length (msg_bytes m) + length (concat (list_pieces (string_pieces False) f ss)) < usize_max"
  shows "\<exists>m1 m2. set_vector (\<lambda>s. set_string s False) ss f m = Inr ((), m1) \<and>
    get_vector get_string m1 = Inr (ss, m2) \<and> at_end m2"
  using string_list.round_trip [OF assms] .

definition fresh_message :: "schema client_message" where
  "fresh_message = empty_client_message\<lparr>data_buffer := [\<lparr>buf_bytes = [], buf_capacity = 32\<rparr>]\<rparr>"

lemma fresh_message_at_end [simp]: "at_end fresh_message" "msg_bytes fresh_message = []"
  by (simp_all add: at_end_def fresh_message_def empty_client_message_def msg_bytes_def msg_ok_def rest_def usize_max_def)

theorem string_list_roundtrip_witness:
  "\<exists>m1 m2. set_vector (\<lambda>s. set_string s False) [[104, 105], [], [33]] True fresh_message = Inr ((), m1) \<and>
    get_vector get_string m1 = Inr ([[104, 105], [], [33]], m2) \<and> at_end m2"
  by (rule string_list_roundtrip)
     (simp_all add: string_ok_def usize_max_def list_pieces_def string_pieces_def)

text \<open>
  The vector of (UUID, 64-bit number) pairs, with its 25 bytes per item and the nil flag in
  front of each UUID, is read back unchanged.
\<close>

lemma uuid_int64_vector_roundtrip:
  assumes "vector_ok (17 + 8) vs" "at_end m"
    "length (msg_bytes m) + length (concat (vector_pieces (17 + 8) uuid_int64_pieces f vs)) < usize_max"
  shows "\<exists>m1 m2. set_uuid_int64_vector vs f m = Inr ((), m1) \<and>
    get_fixed_vector (17 + 8) (sbind get_uuid (\<lambda>u. sbind get_int64 (\<lambda>v. sreturn (u, v)))) m1 = Inr (vs, m2) \<and>
    at_end m2"
  using uuid_int64_vector.round_trip [OF assms] .

definition clear_schemas :: "heap_data \<Rightarrow> heap_data" where
  "clear_schemas d = d\<lparr>data_schemas := []\<rparr>"

lemma emits_nullable_data:
  assumes "pred_option (\<lambda>d. data_ok (clear_schemas d)) v"
  shows "emits (set_nullable set_data True v f) (nullable_pieces (data_pieces f) f (map_option clear_schemas v))"
proof (cases v)
  case None
  with nullable_data.emits_enc [of None f True] show ?thesis
    by (simp add: set_nullable_def)
next
  case (Some d)
  with assms have "emits (set_data d f) (data_pieces f d)"
    by (intro emits_data) (simp_all add: data_ok_def clear_schemas_def)
  with Some show ?thesis
    by (simp add: set_nullable_def nullable_pieces_def data_pieces_def clear_schemas_def)
qed

lemma set_nullable_data_marks:
  assumes "set_nullable set_data True v f m = Inr ((), m1)" "data_buffer m \<noteq> []"
    "pred_option (\<lambda>d. data_ok (clear_schemas d)) v"
  shows "contains_serialized_data_in_request m1"
    "schemas_will_be_replicated m1 = schemas_will_be_replicated m @ (case v of None \<Rightarrow> [] | Some d \<Rightarrow> data_schemas d)"
proof -
  have size: "data_size (data_bytes d) \<noteq> 0" if "v = Some d" for d
    using that assms(3) data_size_eq [of "data_bytes d"] by (simp add: data_ok_def clear_schemas_def)
  have keep: "schemas_will_be_replicated m' = schemas_will_be_replicated m" if "wr_bytes bs m = Inr ((), m')" for bs m'
    using that assms(2) by (auto simp: wr_bytes_put_buf)
  show "contains_serialized_data_in_request m1"
    "schemas_will_be_replicated m1 = schemas_will_be_replicated m @ (case v of None \<Rightarrow> [] | Some d \<Rightarrow> data_schemas d)"
    using assms(1) size keep
    by (auto simp: set_nullable_def set_data_def set_null_frame_def wr_header_def sthen_def sbind_def
        split: option.splits sum.splits)
qed





definition zero_frame_at_cursor :: "schema client_message \<Rightarrow> bool" where
  "zero_frame_at_cursor m =
    (buffer_index m < length (data_buffer m) \<and>
     (let bs = buf_bytes (data_buffer m ! buffer_index m); h = header_of_bytes (slice (msg_offset m) 6 bs) in
        msg_offset m + 6 < length bs \<and> length bs < usize_max \<and> frame_len h = 0 \<and>
        \<not> flag_set (frame_flags h) END_DATA_STRUCTURE_FLAG \<and>
        \<not> flag_set (frame_flags h) BEGIN_DATA_STRUCTURE_FLAG))"

lemma zero_frame_step:
  assumes "zero_frame_at_cursor m"
  shows "\<exists>h m1. rd_header m = Inr (h, m1) \<and> skip_bytes (frame_rest (frame_len h) 6) m1 = Inr ((), m) \<and>
    ff_count (frame_flags h) n = n"
proof -
  let ?bs = "buf_bytes (data_buffer m ! buffer_index m)"
  let ?h = "header_of_bytes (slice (msg_offset m) 6 ?bs)"
  let ?m1 = "m\<lparr>msg_offset := msg_offset m + 6\<rparr>"
  have m: "buffer_index m < length (data_buffer m)" "msg_offset m + 6 < length ?bs" "length ?bs < usize_max"
    "frame_len ?h = 0" "ff_count (frame_flags ?h) n = n"
    using assms by (simp_all add: zero_frame_at_cursor_def Let_def ff_count_def)
  have add: "usize_add (msg_offset m) 6 = msg_offset m + 6"
    using m(2,3) by (simp add: usize_add_def)
  have "rd_header m = Inr (?h, ?m1)"
    using m(1-3) by (simp add: rd_header_def rd_bytes_def rd_ptr_def peek_def sbind_def add ptr_load_def slice_def)
  moreover have "frame_rest 0 6 = usize_max - 6"
    by (simp add: frame_rest_def usize_sub_def i32_to_usize_def usize_max_def)
  moreover have "usize_add (msg_offset m + 6) (usize_max - 6) = msg_offset m"
  proof -
    have "msg_offset m + 6 + (usize_max - 6) = msg_offset m + usize_max"
      by (simp add: usize_max_def)
    then show ?thesis
      using m(2,3) by (simp add: usize_add_def)
  qed
  moreover have "0 < usize_max - 6"
    by (simp add: usize_max_def)
  ultimately show ?thesis
    using m by (intro exI [of _ ?h] exI [of _ ?m1])
      (simp add: skip_bytes_def rd_ptr_def peek_def sbind_def sthen_def)
qed

lemma zero_frame_no_result:
  assumes "ff_loop n m = Some r"
  shows "\<not> (zero_frame_at_cursor m \<and> 0 < n)"
proof (rule ff_loop.raw_induct [OF _ assms, of "\<lambda>n m r. \<not> (zero_frame_at_cursor m \<and> 0 < n)"])
  fix loop n m y
  assume ih: "\<And>n m y. loop n m = Some y \<Longrightarrow> \<not> (zero_frame_at_cursor m \<and> 0 < n)"
    and body: "(if n = 0 then Some (Inr ((), m))
     else case rd_header m of
       Inl e \<Rightarrow> Some (Inl e)
     | Inr (h, m1) \<Rightarrow>
         (case skip_bytes (frame_rest (frame_len h) 6) m1 of
            Inl e \<Rightarrow> Some (Inl e)
          | Inr (_, m2) \<Rightarrow> loop (ff_count (frame_flags h) n) m2)) = Some y"
  show "\<not> (zero_frame_at_cursor m \<and> 0 < n)"
  proof
    assume z: "zero_frame_at_cursor m \<and> 0 < n"
    then obtain h m1 where "rd_header m = Inr (h, m1)"
      "skip_bytes (frame_rest (frame_len h) 6) m1 = Inr ((), m)" "ff_count (frame_flags h) n = n"
      using zero_frame_step [of m n] by blast
    with body z have "loop n m = Some y"
      by simp
    from ih [OF this] z show False
      by simp
  qed
qed

text \<open>
  C12. A frame whose length field is 0 (with no structure flag, and at least one byte behind it in
  its buffer) makes fast forwarding run forever: the unsigned distance to the next frame wraps
  around and the cursor is put back on the same frame.
\<close>

theorem fast_forward_zero_frame_diverges:
  assumes "zero_frame_at_cursor m"
  shows "fast_forward_to_end_frame m = Inl Diverges"
proof -
  have "ff_loop 1 m = None"
    using assms zero_frame_no_result [of 1 m] by (cases "ff_loop 1 m") simp_all
  then show ?thesis
    by (simp add: fast_forward_to_end_frame_def)
qed

theorem fast_forward_zero_frame_diverges_witness:
  "fast_forward_to_end_frame (fresh_message\<lparr>data_buffer := [\<lparr>buf_bytes = [0, 0, 0, 0, 0, 0, 0], buf_capacity = 32\<rparr>]\<rparr>) =
    Inl Diverges"
  by (rule fast_forward_zero_frame_diverges)
     (simp add: zero_frame_at_cursor_def fresh_message_def empty_client_message_def usize_max_def Let_def slice_def
       header_of_bytes_def flag_set_def END_DATA_STRUCTURE_FLAG_def BEGIN_DATA_STRUCTURE_FLAG_def)

end
