(* ===== verification/Message_Types.thy ===== *)
theory Message_Types
  imports Message_Codecs
begin

text \<open>
  The composite types of the protocol (\<open>ClientMessage.h\<close> and \<open>protocol.cpp\<close>): addresses, versions,
  members, Raft group ids, index configurations, paging predicates, entry views, schemas and the
  errors of a response.

  A structure on the wire is a begin frame, an initial frame with the fixed-size fields, the
  variable-size fields and an end frame.  Getters are shown to read back what the setters write and
  to skip what a newer member adds behind the fields they know.
\<close>

section \<open>Structures\<close>

text \<open>The frame shared by the setters and getters of structures.  \<open>decode_struct\<close> skips the rest of
  the initial frame, \<open>decode_struct_exact\<close> does not.\<close>

definition encode_struct :: "i32 \<Rightarrow> unit scm \<Rightarrow> unit scm \<Rightarrow> bool \<Rightarrow> unit scm" where
  "encode_struct len fixed vars is_final =
    sseq [add_begin_frame, wr_header (6 + len) DEFAULT_FLAGS, fixed, vars, add_end_frame is_final]"

definition decode_struct :: "nat \<Rightarrow> 'a scm \<Rightarrow> ('a \<Rightarrow> 'b scm) \<Rightarrow> 'b scm" where
  "decode_struct len fixed vars =
    sthen (skip_bytes SIZE_OF_FRAME_LENGTH_AND_FLAGS) (sbind rd_header (\<lambda>h. sbind fixed (\<lambda>a.
      sthen (skip_bytes (frame_rest (frame_len h) (6 + len))) (sbind (vars a) (\<lambda>v.
        sthen fast_forward_to_end_frame (sreturn v))))))"

definition decode_struct_exact :: "'a scm \<Rightarrow> ('a \<Rightarrow> 'b scm) \<Rightarrow> 'b scm" where
  "decode_struct_exact fixed vars =
    sthen (skip_bytes SIZE_OF_FRAME_LENGTH_AND_FLAGS) (sthen (skip_bytes SIZE_OF_FRAME_LENGTH_AND_FLAGS)
      (sbind fixed (\<lambda>a. sbind (vars a) (\<lambda>v. sthen fast_forward_to_end_frame (sreturn v)))))"

section \<open>Addresses, versions, members\<close>

record address =
  address_host :: hz_string
  address_port :: i32

definition set_address :: "address \<Rightarrow> bool \<Rightarrow> unit scm" where
  "set_address a is_final =
    encode_struct 4 (set_int32 (address_port a)) (set_string (address_host a) False) is_final"

definition get_address :: "address scm" where
  "get_address = decode_struct 4 get_int32 (\<lambda>port. sbind get_string (\<lambda>host.
    sreturn \<lparr>address_host = host, address_port = port\<rparr>))"

datatype cluster_version = Cluster_Version (version_major: byte) (version_minor: byte)

datatype member_version = Member_Version (member_major: byte) (member_minor: byte) (member_patch: byte)

definition get_cluster_version :: "cluster_version scm" where
  "get_cluster_version = decode_struct_exact
    (sbind get_uint8 (\<lambda>major. sbind get_uint8 (\<lambda>minor. sreturn (Cluster_Version major minor)))) sreturn"

definition get_member_version :: "member_version scm" where
  "get_member_version = decode_struct_exact
    (sbind get_uint8 (\<lambda>major. sbind get_uint8 (\<lambda>minor. sbind get_uint8 (\<lambda>patch.
      sreturn (Member_Version major minor patch))))) sreturn"

datatype endpoint_qualifier = Endpoint_Qualifier (endpoint_type: i32) (endpoint_identifier: hz_string)

definition get_endpoint_qualifier :: "endpoint_qualifier scm" where
  "get_endpoint_qualifier = decode_struct_exact get_int32 (\<lambda>type. sbind get_string (\<lambda>identifier.
    sreturn (Endpoint_Qualifier type identifier)))"

record hz_member =
  member_address :: address
  member_uuid :: uuid
  lite_member :: bool
  attributes :: "(hz_string \<times> hz_string) list"
  address_map :: "(endpoint_qualifier \<times> address) list"
  member_ver :: member_version

definition get_member :: "hz_member scm" where
  "get_member = decode_struct (17 + 1)
    (sbind get_uuid (\<lambda>uuid. sbind get_bool (\<lambda>lite. sreturn (uuid, lite))))
    (\<lambda>(uuid, lite). sbind get_address (\<lambda>addr. sbind (get_map get_string get_string) (\<lambda>attrs.
      sbind get_member_version (\<lambda>ver. sbind (get_map get_endpoint_qualifier get_address) (\<lambda>amap.
        sreturn \<lparr>member_address = addr, member_uuid = uuid, lite_member = lite, attributes = attrs,
                 address_map = amap, member_ver = ver\<rparr>)))))"

section \<open>Raft groups, indexes, paging predicates, entry views\<close>

record raft_group_id =
  group_name :: hz_string
  group_seed :: i64
  group_id :: i64

definition set_raft_group_id :: "raft_group_id \<Rightarrow> bool \<Rightarrow> unit scm" where
  "set_raft_group_id g is_final =
    encode_struct (2 * 8) (sthen (set_int64 (group_seed g)) (set_int64 (group_id g)))
      (set_string (group_name g) False) is_final"

definition get_raft_group_id :: "raft_group_id scm" where
  "get_raft_group_id = decode_struct (2 * 8)
    (sbind get_int64 (\<lambda>seed. sbind get_int64 (\<lambda>gid. sreturn (seed, gid))))
    (\<lambda>(seed, gid). sbind get_string (\<lambda>name.
      sreturn \<lparr>group_name = name, group_seed = seed, group_id = gid\<rparr>))"

record bitmap_index_options =
  transformation :: i32
  unique_key :: hz_string

record index_config =
  index_name :: "hz_string option"
  index_type :: i32
  index_attributes :: "hz_string list"
  index_options :: "bitmap_index_options option"

definition set_bitmap_index_options :: "bitmap_index_options \<Rightarrow> bool \<Rightarrow> unit scm" where
  "set_bitmap_index_options o' is_final =
    encode_struct 4 (set_int32 (transformation o')) (set_string (unique_key o') False) is_final"

definition set_index_config :: "index_config \<Rightarrow> bool \<Rightarrow> unit scm" where
  "set_index_config c is_final =
    encode_struct 4 (set_int32 (index_type c))
      (sseq [set_nullable set_string False (index_name c) False,
             set_vector (\<lambda>s. set_string s False) (index_attributes c) False,
             set_nullable set_bitmap_index_options False (index_options c) False]) is_final"

record anchor_data_list =
  page_list :: "i32 list"
  data_list :: "(heap_data \<times> heap_data option) list"

definition set_anchor_data_list :: "anchor_data_list \<Rightarrow> bool \<Rightarrow> unit scm" where
  "set_anchor_data_list l is_final =
    sseq [add_begin_frame, set_primitive_vector 4 (le_bytes 4) (page_list l) False,
          set_vector (\<lambda>(k, v). sthen (set_data k False) (set_nullable set_data True v False)) (data_list l) False,
          add_end_frame is_final]"

definition get_anchor_data_list :: "anchor_data_list scm" where
  "get_anchor_data_list = sthen (skip_bytes SIZE_OF_FRAME_LENGTH_AND_FLAGS)
    (sbind (get_fixed_vector 4 get_int32) (\<lambda>pages.
     sbind (get_vector (sbind get_data (\<lambda>k. sbind (get_nullable get_data) (\<lambda>v. sreturn (k, v))))) (\<lambda>ds.
     sthen fast_forward_to_end_frame (sreturn \<lparr>page_list = pages, data_list = ds\<rparr>))))"

record paging_predicate_holder =
  page_size :: i32
  pp_page :: i32
  iteration_type :: byte
  anchor_list :: anchor_data_list
  predicate_data :: "heap_data option"
  comparator_data :: "heap_data option"

definition set_paging_predicate_holder :: "paging_predicate_holder \<Rightarrow> bool \<Rightarrow> unit scm" where
  "set_paging_predicate_holder p is_final =
    encode_struct (2 * 4 + 1)
      (sseq [set_int32 (page_size p), set_int32 (pp_page p), set_uint8 (iteration_type p)])
      (sseq [set_anchor_data_list (anchor_list p) False,
             set_nullable set_data True (predicate_data p) False,
             set_nullable set_data True (comparator_data p) False,
             set_nullable set_data True None False]) is_final"

record data_entry_view =
  view_key :: heap_data
  view_value :: heap_data
  view_numbers :: "i64 list"

text \<open>The ten numbers are cost, creation time, expiration time, hits, last access, last store and
  last update time, version, time to live and maximal idle time, in this order.\<close>

definition get_data_entry_view :: "data_entry_view scm" where
  "get_data_entry_view = decode_struct (10 * 8) (srepeat 10 get_int64)
    (\<lambda>ns. sbind get_data (\<lambda>key. sbind get_data (\<lambda>value.
      sreturn \<lparr>view_key = key, view_value = value, view_numbers = ns\<rparr>)))"

section \<open>Dates\<close>

record local_date = date_year :: i32 date_month :: byte date_day :: byte

record local_time = time_hour :: byte time_minute :: byte time_second :: byte time_nano :: i32

definition get_local_date :: "local_date scm" where
  "get_local_date = sbind get_int32 (\<lambda>y. sbind get_uint8 (\<lambda>m. sbind get_uint8 (\<lambda>d.
    sreturn \<lparr>date_year = y, date_month = m, date_day = d\<rparr>)))"

definition get_local_time :: "local_time scm" where
  "get_local_time = sbind get_uint8 (\<lambda>h. sbind get_uint8 (\<lambda>m. sbind get_uint8 (\<lambda>s. sbind get_int32 (\<lambda>n.
    sreturn \<lparr>time_hour = h, time_minute = m, time_second = s, time_nano = n\<rparr>))))"

definition get_local_date_time :: "(local_date \<times> local_time) scm" where
  "get_local_date_time = sbind get_local_date (\<lambda>d. sbind get_local_time (\<lambda>t. sreturn (d, t)))"

definition get_offset_date_time :: "((local_date \<times> local_time) \<times> i32) scm" where
  "get_offset_date_time = sbind get_local_date_time (\<lambda>dt. sbind get_int32 (\<lambda>off. sreturn (dt, off)))"

definition get_json :: "hz_string scm" where
  "get_json = sthen skip_frame (sbind get_string (\<lambda>s. sthen fast_forward_to_end_frame (sreturn s)))"

text \<open>\<open>&bytes[0]\<close> of an empty vector is undefined; \<open>from_bytes\<close> of the unscaled value is in
  \<open>serialization\<close> and the value is kept as its bytes.\<close>

definition get_big_decimal :: "(byte list \<times> i32) scm" where
  "get_big_decimal = sbind get_int32 (\<lambda>content_size.
    sbind (rd_bytes (i32_to_usize content_size)) (\<lambda>bs.
      sthen (sguard (i32_to_usize content_size \<noteq> 0) UndefinedBehaviour)
        (sbind get_int32 (\<lambda>scale. sreturn (bs, scale)))))"

section \<open>Schemas\<close>

definition set_field_descriptor :: "field_descriptor \<Rightarrow> hz_string \<Rightarrow> bool \<Rightarrow> unit scm" where
  "set_field_descriptor d name is_final =
    encode_struct 4 (set_int32 (of_nat (kind_id (fd_kind d)))) (set_string name False) is_final"

definition set_schema :: "schema \<Rightarrow> bool \<Rightarrow> unit scm" where
  "set_schema s is_final =
    sseq [add_begin_frame, set_string (sch_type_name s) False,
          add_begin_frame,
          siter (\<lambda>(name, d). set_field_descriptor d name False) (field_definition_map s),
          add_end_frame False,
          add_end_frame is_final]"

text \<open>A number that is not a field kind would index the table of field operations outside its
  bounds in the constructor of the schema.\<close>

definition all_field_kinds :: "field_kind list" where
  "all_field_kinds = [FK_NOT_AVAILABLE, FK_BOOLEAN, FK_ARRAY_OF_BOOLEAN, FK_INT8, FK_ARRAY_OF_INT8,
    FK_INT16, FK_ARRAY_OF_INT16, FK_INT32, FK_ARRAY_OF_INT32, FK_INT64, FK_ARRAY_OF_INT64,
    FK_FLOAT32, FK_ARRAY_OF_FLOAT32, FK_FLOAT64, FK_ARRAY_OF_FLOAT64, FK_STRING, FK_ARRAY_OF_STRING,
    FK_DECIMAL, FK_ARRAY_OF_DECIMAL, FK_TIME, FK_ARRAY_OF_TIME, FK_DATE, FK_ARRAY_OF_DATE,
    FK_TIMESTAMP, FK_ARRAY_OF_TIMESTAMP, FK_TIMESTAMP_WITH_TIMEZONE,
    FK_ARRAY_OF_TIMESTAMP_WITH_TIMEZONE, FK_COMPACT, FK_ARRAY_OF_COMPACT, FK_NULLABLE_BOOLEAN,
    FK_ARRAY_OF_NULLABLE_BOOLEAN, FK_NULLABLE_INT8, FK_ARRAY_OF_NULLABLE_INT8, FK_NULLABLE_INT16,
    FK_ARRAY_OF_NULLABLE_INT16, FK_NULLABLE_INT32, FK_ARRAY_OF_NULLABLE_INT32, FK_NULLABLE_INT64,
    FK_ARRAY_OF_NULLABLE_INT64, FK_NULLABLE_FLOAT32, FK_ARRAY_OF_NULLABLE_FLOAT32,
    FK_NULLABLE_FLOAT64, FK_ARRAY_OF_NULLABLE_FLOAT64]"

definition field_kind_of :: "i32 \<Rightarrow> field_kind option" where
  "field_kind_of key = find (\<lambda>k. of_nat (kind_id k) = key) all_field_kinds"

definition insert_field :: "hz_string \<times> i32 \<Rightarrow> (hz_string \<times> field_descriptor) list \<Rightarrow>
    (hz_string \<times> field_descriptor) list res" where
  "insert_field = (\<lambda>(name, key) flds.
    case field_kind_of key of
      None \<Rightarrow> Inl UndefinedBehaviour
    | Some k \<Rightarrow> Inr (if map_of flds name = None then flds @ [(name, make_field_descriptor k)] else flds))"

fun insert_fields :: "(hz_string \<times> i32) list \<Rightarrow> (hz_string \<times> field_descriptor) list \<Rightarrow>
    (hz_string \<times> field_descriptor) list res" where
  "insert_fields [] flds = Inr flds"
| "insert_fields (f # fs) flds =
    (case insert_field f flds of Inl e \<Rightarrow> Inl e | Inr flds' \<Rightarrow> insert_fields fs flds')"

definition get_schema_field :: "(hz_string \<times> i32) scm" where
  "get_schema_field = sthen skip_frame (sthen (skip_bytes SIZE_OF_FRAME_LENGTH_AND_FLAGS)
    (sbind get_int32 (\<lambda>key. sbind get_string (\<lambda>field_name.
      sthen fast_forward_to_end_frame (sreturn (field_name, key))))))"

definition get_schema :: "schema scm" where
  "get_schema = sthen skip_frame (sbind get_string (\<lambda>type_name. sthen skip_frame
    (sbind (get_items get_schema_field []) (\<lambda>fs. sthen fast_forward_to_end_frame (\<lambda>m.
      case insert_fields fs [] of Inl e \<Rightarrow> Inl e | Inr flds \<Rightarrow> Inr (make_schema type_name flds, m))))))"

section \<open>Errors\<close>

record stack_trace_element =
  declaring_class :: hz_string
  method_name :: hz_string
  file_name :: "hz_string option"
  line_number :: i32

record error_holder =
  error_code :: i32
  class_name :: hz_string
  message :: "hz_string option"
  stack_trace :: "stack_trace_element list"

definition get_stack_trace_element :: "stack_trace_element scm" where
  "get_stack_trace_element = decode_struct 4 get_int32 (\<lambda>line. sbind get_string (\<lambda>cls.
    sbind get_string (\<lambda>meth. sbind (get_nullable get_string) (\<lambda>file.
      sreturn \<lparr>declaring_class = cls, method_name = meth, file_name = file, line_number = line\<rparr>))))"

definition get_error_holder :: "error_holder scm" where
  "get_error_holder = decode_struct 4 get_int32 (\<lambda>code. sbind get_string (\<lambda>cls.
    sbind (get_nullable get_string) (\<lambda>msg. sbind (get_vector get_stack_trace_element) (\<lambda>trace.
      sreturn \<lparr>error_code = code, class_name = cls, message = msg, stack_trace = trace\<rparr>))))"

definition error_codec_decode :: "error_holder list scm" where
  "error_codec_decode = sthen skip_frame (get_vector get_error_holder)"

section \<open>SQL metadata and errors\<close>

datatype sql_column_type = SQL_VARCHAR | SQL_BOOLEAN | SQL_TINYINT | SQL_SMALLINT | SQL_INTEGER
  | SQL_BIGINT | SQL_DECIMAL | SQL_REAL | SQL_DOUBLE | SQL_DATE | SQL_TIME | SQL_TIMESTAMP
  | SQL_TIMESTAMP_WITH_TIMEZONE | SQL_OBJECT | SQL_NULL | SQL_JSON

definition sql_column_types :: "sql_column_type list" where
  "sql_column_types = [SQL_VARCHAR, SQL_BOOLEAN, SQL_TINYINT, SQL_SMALLINT, SQL_INTEGER, SQL_BIGINT,
    SQL_DECIMAL, SQL_REAL, SQL_DOUBLE, SQL_DATE, SQL_TIME, SQL_TIMESTAMP,
    SQL_TIMESTAMP_WITH_TIMEZONE, SQL_OBJECT, SQL_NULL, SQL_JSON]"

record sql_column_metadata =
  column_name :: hz_string
  column_type :: sql_column_type
  column_nullable :: bool

definition create_sql_column_metadata :: "hz_string \<Rightarrow> i32 \<Rightarrow> bool \<Rightarrow> bool \<Rightarrow> sql_column_metadata res" where
  "create_sql_column_metadata name type is_nullable_exists nullability =
    (if sint type < 0 \<or> sint type > 15 then Inl HazelcastError
     else Inr \<lparr>column_name = name, column_type = sql_column_types ! nat (sint type),
               column_nullable = (if is_nullable_exists then nullability else True)\<rparr>)"

definition get_sql_column_metadata :: "sql_column_metadata scm" where
  "get_sql_column_metadata = sthen skip_frame (sbind rd_header (\<lambda>h. sbind get_int32 (\<lambda>type.
    let nullable_exist = (4 + 1 \<le> frame_rest (frame_len h) 6) in
    sbind (if nullable_exist then get_bool else sreturn True) (\<lambda>nullable.
    sthen (skip_bytes (frame_rest (frame_len h) (6 + 4 + (if nullable_exist then 1 else 0))))
    (sbind get_string (\<lambda>name. sthen fast_forward_to_end_frame (\<lambda>m.
      case create_sql_column_metadata name type nullable_exist nullable of
        Inl e \<Rightarrow> Inl e | Inr c \<Rightarrow> Inr (c, m))))))))"

record sql_error =
  sql_error_code :: i32
  sql_error_message :: "hz_string option"
  originating_member_id :: uuid
  suggestion :: "hz_string option"

definition get_sql_error :: "sql_error scm" where
  "get_sql_error = sthen skip_frame (sbind rd_header (\<lambda>h. sbind get_int32 (\<lambda>code. sbind get_uuid (\<lambda>mid.
    sthen (skip_bytes (frame_rest (frame_len h) (6 + 4 + 17)))
    (sbind (get_nullable get_string) (\<lambda>msg.
     sbind next_frame_is_data_structure_end_frame (\<lambda>end.
     sbind (if end then sreturn None else get_nullable get_string) (\<lambda>sug.
     sthen fast_forward_to_end_frame
       (sreturn \<lparr>sql_error_code = code, sql_error_message = msg, originating_member_id = mid,
                 suggestion = sug\<rparr>)))))))))"

section \<open>Calculus of structures\<close>

definition opt_piece :: "byte list \<Rightarrow> byte list list" where
  "opt_piece ex = (if ex = [] then [] else [ex])"

text \<open>A structure as it may stand in a message: \<open>ex\<close> are bytes of the initial frame behind the
  fields the client knows, \<open>tail\<close> are further frames up to the end frame.\<close>

definition struct_pieces :: "nat \<Rightarrow> byte list list \<Rightarrow> byte list \<Rightarrow> byte list list \<Rightarrow> byte list list \<Rightarrow> byte list list" where
  "struct_pieces n fixed ex vars tail =
    begin_piece # plain_header (6 + n + length ex) DEFAULT_FLAGS # fixed @ opt_piece ex @ vars @ tail"

definition struct_ok :: "nat \<Rightarrow> byte list \<Rightarrow> byte list list \<Rightarrow> bool" where
  "struct_ok n ex tail = (6 + n + length ex < 2 ^ 31 \<and> closes 1 tail \<and> list_all wf_frame tail)"

lemma struct_ok_end [simp]: "n < 2 ^ 20 \<Longrightarrow> struct_ok n [] [end_piece f]"
  using closes_end [of f] by (simp add: struct_ok_def del: closes.simps)

lemma starts_struct [simp]: "starts_frame (struct_pieces n ps ex qs tail)"
  by (simp add: struct_pieces_def starts_frame_def flag_values)

lemma reads_opt_skip: "reads (skip_bytes (length ex)) (opt_piece ex) ()"
  using reads_skip_bytes [OF refl, of ex]
  by (auto simp: opt_piece_def reads_def skip_bytes_def rd_ptr_zero)

lemma emits_struct:
  assumes "emits fixed ps" "emits vars qs" "len = of_nat n"
  shows "emits (encode_struct len fixed vars f) (struct_pieces n ps [] qs [end_piece f])"
proof -
  have "emits (encode_struct len fixed vars f)
    ([begin_piece] @ [header_bytes \<lparr>frame_len = 6 + len, frame_flags = DEFAULT_FLAGS\<rparr>] @ ps @ qs @
      [end_piece f] @ [])"
    unfolding encode_struct_def by (intro emits_sseq_Cons emits_frames emits_sseq_Nil emits_wr_header assms)
  then show ?thesis
    by (simp add: struct_pieces_def opt_piece_def plain_header_def assms(3))
qed

lemma reads_tail:
  assumes "reads g qs v" "closes 1 tail" "list_all wf_frame tail"
  shows "reads (sbind g (\<lambda>v. sthen fast_forward_to_end_frame (sreturn v))) (qs @ tail) v"
proof -
  have "reads (sthen fast_forward_to_end_frame (sreturn v)) (tail @ []) v"
    by (intro reads_then [OF reads_fast_forward] reads_return assms)
  then show ?thesis
    by (intro reads_bind [OF assms(1)]) simp
qed

lemma reads_struct:
  assumes "reads fixed ps a" "reads (vars a) qs v" "struct_ok n ex tail"
  shows "reads (decode_struct n fixed vars) (struct_pieces n ps ex qs tail) v"
proof -
  let ?h = "\<lparr>frame_len = of_nat (length ex + (6 + n)), frame_flags = DEFAULT_FLAGS\<rparr>"
  have n: "frame_rest (frame_len ?h) (6 + n) = length ex"
    using assms(3) frame_rest_of_nat(1) [of "length ex" "6 + n"] by (simp add: struct_ok_def)
  have tail: "reads (sbind (vars a) (\<lambda>v. sthen fast_forward_to_end_frame (sreturn v))) (qs @ tail) v"
    using assms(3) by (intro reads_tail [OF assms(2)]) (simp_all add: struct_ok_def)
  have "reads (sthen (skip_bytes (frame_rest (frame_len ?h) (6 + n)))
      (sbind (vars a) (\<lambda>v. sthen fast_forward_to_end_frame (sreturn v)))) (opt_piece ex @ (qs @ tail)) v"
    unfolding n by (rule reads_then [OF reads_opt_skip tail])
  then have "reads (decode_struct n fixed vars) ([begin_piece] @ ([header_bytes ?h] @ (ps @ (opt_piece ex @ (qs @ tail))))) v"
    unfolding decode_struct_def
    by (intro reads_then [OF reads_skip_bytes] reads_bind [OF reads_rd_header] reads_bind [OF assms(1)]) simp_all
  then show ?thesis
    by (simp add: struct_pieces_def plain_header_def add_ac)
qed

lemma reads_struct_exact:
  assumes "reads fixed ps a" "reads (vars a) qs v" "struct_ok n [] tail"
  shows "reads (decode_struct_exact fixed vars) (struct_pieces n ps [] qs tail) v"
proof -
  have "reads (decode_struct_exact fixed vars) ([begin_piece] @ ([plain_header (6 + n) DEFAULT_FLAGS] @ (ps @ (qs @ tail)))) v"
    unfolding decode_struct_exact_def using assms(3)
    by (intro reads_then [OF reads_skip_bytes] reads_bind [OF assms(1)] reads_tail [OF assms(2)])
       (simp_all add: struct_ok_def)
  then show ?thesis
    by (simp add: struct_pieces_def opt_piece_def)
qed

lemma reads_pair:
  assumes "reads f ps a" "reads g qs b"
  shows "reads (sbind f (\<lambda>x. sbind g (\<lambda>y. sreturn (h x y)))) (ps @ qs) (h a b)"
  by (rule reads_bind [OF assms(1)], rule reads_map [OF assms(2)])

lemmas reads_basic = uint8.reads_dec [OF TrueI] bool.reads_dec [OF TrueI] int32.reads_dec [OF TrueI]
  int64.reads_dec [OF TrueI] uuid.reads_dec [OF TrueI]

lemmas emits_basic = uint8.emits_enc [OF TrueI] bool.emits_enc [OF TrueI] int32.emits_enc [OF TrueI]
  int64.emits_enc [OF TrueI] uuid.emits_enc [OF TrueI]

lemma reads_cong: "reads f ps v \<Longrightarrow> v = w \<Longrightarrow> reads f ps w"
  by simp

section \<open>Codecs of structures\<close>

definition address_pieces :: "byte list \<Rightarrow> byte list list \<Rightarrow> address \<Rightarrow> byte list list" where
  "address_pieces ex tail a =
    struct_pieces 4 [le_bytes 4 (address_port a)] ex (string_pieces False (address_host a)) tail"

lemma reads_address:
  assumes "string_ok (address_host a)" "struct_ok 4 ex tail"
  shows "reads get_address (address_pieces ex tail a) a"
  unfolding get_address_def address_pieces_def
  by (rule reads_cong [OF reads_struct [OF reads_basic(3) reads_map [OF string.reads_dec [OF assms(1)]] assms(2)]]) simp

interpretation address: frame_codec "\<lambda>a. set_address a f" get_address
  "address_pieces [] [end_piece f]" "\<lambda>a. string_ok (address_host a)" for f
proof
  fix a :: address
  assume ok: "string_ok (address_host a)"
  show "emits (set_address a f) (address_pieces [] [end_piece f] a)"
    unfolding set_address_def address_pieces_def by (intro emits_struct emits_basic string.emits_enc ok) simp
  show "reads get_address (address_pieces [] [end_piece f] a) a"
    by (intro reads_address ok) simp
qed (simp add: address_pieces_def)

definition raft_group_pieces :: "byte list \<Rightarrow> byte list list \<Rightarrow> raft_group_id \<Rightarrow> byte list list" where
  "raft_group_pieces ex tail g =
    struct_pieces (2 * 8) ([le_bytes 8 (group_seed g)] @ [le_bytes 8 (group_id g)]) ex
      (string_pieces False (group_name g)) tail"

lemma reads_raft_group:
  assumes "string_ok (group_name g)" "struct_ok (2 * 8) ex tail"
  shows "reads get_raft_group_id (raft_group_pieces ex tail g) g"
  unfolding get_raft_group_id_def raft_group_pieces_def
  by (rule reads_struct [OF reads_pair [OF reads_basic(4) reads_basic(4)] _ assms(2)], simp,
      rule reads_cong [OF reads_map [OF string.reads_dec [OF assms(1)]]]) simp

interpretation raft_group: frame_codec "\<lambda>g. set_raft_group_id g f" get_raft_group_id
  "raft_group_pieces [] [end_piece f]" "\<lambda>g. string_ok (group_name g)" for f
proof
  fix g :: raft_group_id
  assume ok: "string_ok (group_name g)"
  show "emits (set_raft_group_id g f) (raft_group_pieces [] [end_piece f] g)"
    unfolding set_raft_group_id_def raft_group_pieces_def
    by (intro emits_struct emits_then emits_basic string.emits_enc ok) simp
  show "reads get_raft_group_id (raft_group_pieces [] [end_piece f] g) g"
    by (intro reads_raft_group ok) simp
qed (simp add: raft_group_pieces_def)

text \<open>Stack traces and errors are only read; what follows the known fields of each of them is
  part of the wire value.\<close>

type_synonym 'v wire = "'v \<times> byte list \<times> byte list list"

definition wire_ok :: "nat \<Rightarrow> ('v \<Rightarrow> bool) \<Rightarrow> 'v wire \<Rightarrow> bool" where
  "wire_ok n ok = (\<lambda>(v, ex, tail). ok v \<and> struct_ok n ex tail)"

definition stack_trace_pieces :: "stack_trace_element wire \<Rightarrow> byte list list" where
  "stack_trace_pieces = (\<lambda>(s, ex, tail).
    struct_pieces 4 [le_bytes 4 (line_number s)] ex
      (string_pieces False (declaring_class s) @ string_pieces False (method_name s) @
       nullable_pieces (string_pieces False) False (file_name s)) tail)"

definition stack_trace_ok :: "stack_trace_element \<Rightarrow> bool" where
  "stack_trace_ok s = (string_ok (declaring_class s) \<and> string_ok (method_name s) \<and> pred_option string_ok (file_name s))"

interpretation stack_trace: frame_reader get_stack_trace_element stack_trace_pieces fst "wire_ok 4 stack_trace_ok"
proof
  fix w
  assume ok: "wire_ok 4 stack_trace_ok w"
  obtain s ex tail where w: "w = (s, ex, tail)" "stack_trace_ok s" "struct_ok 4 ex tail"
    using ok by (cases w) (auto simp: wire_ok_def)
  have "reads (sbind get_string (\<lambda>cls. sbind get_string (\<lambda>meth. sbind (get_nullable get_string) (\<lambda>file.
      sreturn \<lparr>declaring_class = cls, method_name = meth, file_name = file, line_number = line_number s\<rparr>))))
    (string_pieces False (declaring_class s) @ string_pieces False (method_name s) @
       nullable_pieces (string_pieces False) False (file_name s)) s"
    using w(2) unfolding stack_trace_ok_def
    by (intro reads_bind [OF string.reads_dec])
       (auto intro!: reads_cong [OF reads_map [OF nullable_string.reads_dec]])
  then show "reads get_stack_trace_element (stack_trace_pieces w) (fst w)"
    unfolding get_stack_trace_element_def stack_trace_pieces_def w(1) prod.case fst_conv
    by (intro reads_struct [OF reads_basic(3) _ w(3)])
qed (simp add: stack_trace_pieces_def split: prod.splits)

interpretation stack_traces: frame_reader "get_vector get_stack_trace_element"
  "list_pieces stack_trace_pieces f" "map fst" "list_all (wire_ok 4 stack_trace_ok)" for f
  by (rule stack_trace.list_reader)

text \<open>An error on the wire: the error without its stack trace, the stack trace elements as they
  stand on the wire, and what follows the known fields.\<close>

type_synonym wire_error = "(error_holder \<times> stack_trace_element wire list) wire"

definition error_pieces :: "wire_error \<Rightarrow> byte list list" where
  "error_pieces = (\<lambda>((e, ws), ex, tail).
    struct_pieces 4 [le_bytes 4 (error_code e)] ex
      (string_pieces False (class_name e) @ nullable_pieces (string_pieces False) False (message e) @
       list_pieces stack_trace_pieces False ws) tail)"

definition error_val :: "wire_error \<Rightarrow> error_holder" where
  "error_val = (\<lambda>((e, ws), ex, tail). e\<lparr>stack_trace := map fst ws\<rparr>)"

definition error_ok :: "error_holder \<times> stack_trace_element wire list \<Rightarrow> bool" where
  "error_ok = (\<lambda>(e, ws). string_ok (class_name e) \<and> pred_option string_ok (message e) \<and>
    list_all (wire_ok 4 stack_trace_ok) ws)"

interpretation error: frame_reader get_error_holder error_pieces error_val "wire_ok 4 error_ok"
proof
  fix w
  assume ok: "wire_ok 4 error_ok w"
  obtain e ws ex tail where w: "w = ((e, ws), ex, tail)" "error_ok (e, ws)" "struct_ok 4 ex tail"
    using ok by (cases w) (auto simp: wire_ok_def)
  have "reads (sbind get_string (\<lambda>cls. sbind (get_nullable get_string) (\<lambda>msg.
      sbind (get_vector get_stack_trace_element) (\<lambda>trace.
      sreturn \<lparr>error_code = error_code e, class_name = cls, message = msg, stack_trace = trace\<rparr>))))
    (string_pieces False (class_name e) @ nullable_pieces (string_pieces False) False (message e) @
       list_pieces stack_trace_pieces False ws) (error_val w)"
    using w(2) unfolding error_ok_def prod.case w(1) error_val_def
    by (intro reads_bind [OF string.reads_dec] reads_bind [OF nullable_string.reads_dec])
       (auto intro!: reads_cong [OF reads_map [OF stack_traces.reads_val]])
  then show "reads get_error_holder (error_pieces w) (error_val w)"
    unfolding get_error_holder_def error_pieces_def w(1) prod.case
    by (intro reads_struct [OF reads_basic(3) _ w(3)])
qed (simp add: error_pieces_def split: prod.splits)

interpretation errors: frame_reader "get_vector get_error_holder"
  "list_pieces error_pieces f" "map error_val" "list_all (wire_ok 4 error_ok)" for f
  by (rule error.list_reader)

text \<open>
  C13. Decoding an error response returns the errors, causes included, in the order in which the
  member wrote them, also when a newer member appends bytes to the initial frame or frames to the
  end of an error or of a stack trace element.
\<close>

theorem error_codec_decode_reads:
  assumes "msg_ok m" "wf_frame initial" "list_all (wire_ok 4 error_ok) ws"
    "chunked (rest m) (initial # list_pieces error_pieces f ws @ following)"
  shows "\<exists>m'. error_codec_decode m = Inr (map error_val ws, m') \<and> chunked (rest m') following"
proof -
  have "reads error_codec_decode ([initial] @ list_pieces error_pieces f ws) (map error_val ws)"
    unfolding error_codec_decode_def
    by (rule reads_then [OF reads_skip_frame [OF assms(2)] errors.reads_val [OF assms(3)]])
  with assms(1,4) show ?thesis
    unfolding reads_def by fastforce
qed

text \<open>A received message whose bytes are the given pieces, in one buffer.\<close>

definition message_of :: "byte list list \<Rightarrow> schema client_message" where
  "message_of ps = fresh_message\<lparr>data_buffer := [\<lparr>buf_bytes = concat ps, buf_capacity = length (concat ps)\<rparr>]\<rparr>"

lemma chunked_concat: "chunked [concat ps] ps"
  by (induction ps) (simp_all add: chunked_done chunked_piece)

lemma message_of_ok:
  assumes "length (concat ps) < usize_max"
  shows "msg_ok (message_of ps)" "chunked (rest (message_of ps)) ps"
  using assms chunked_concat [of ps]
  by (simp_all add: msg_ok_def rest_def message_of_def fresh_message_def empty_client_message_def)

definition sample_error :: wire_error where
  "sample_error = ((\<lparr>error_code = 7, class_name = [65], message = Some [66, 67], stack_trace = []\<rparr>,
    [(\<lparr>declaring_class = [68], method_name = [69], file_name = None, line_number = 12\<rparr>, [1, 2], [end_piece False])]),
    [3], [null_piece False, end_piece False])"

lemma sample_error_ok: "wire_ok 4 error_ok sample_error"
  using closes_end [of False]
  by (simp add: sample_error_def wire_ok_def error_ok_def stack_trace_ok_def string_ok_def struct_ok_def
      ff_count_def flag_values)
     (simp add: flag_set_def final_flag_def IS_NULL_FLAG_def BEGIN_DATA_STRUCTURE_FLAG_def DEFAULT_FLAGS_def)

theorem error_codec_decode_reads_witness:
  "\<exists>m'. error_codec_decode (message_of (begin_piece # list_pieces error_pieces True [sample_error])) =
     Inr ([\<lparr>error_code = 7, class_name = [65], message = Some [66, 67],
       stack_trace = [\<lparr>declaring_class = [68], method_name = [69], file_name = None, line_number = 12\<rparr>]\<rparr>], m') \<and>
     chunked (rest m') []"
proof -
  let ?ps = "begin_piece # list_pieces error_pieces True [sample_error]"
  have "length (concat ?ps) < usize_max"
    by (simp add: usize_max_def list_pieces_def error_pieces_def sample_error_def struct_pieces_def
        string_pieces_def nullable_pieces_def stack_trace_pieces_def opt_piece_def)
  from error_codec_decode_reads [OF message_of_ok(1) [OF this], of begin_piece "[sample_error]" True "[]"]
    message_of_ok(2) [OF this] sample_error_ok
  show ?thesis
    by (simp add: error_val_def sample_error_def)
qed

section \<open>Schemas\<close>

lemma field_kind_of_kind_id [simp]: "field_kind_of (of_nat (kind_id k)) = Some k"
  by (cases k) (simp_all add: field_kind_of_def all_field_kinds_def)

definition descriptor_pieces :: "hz_string \<times> i32 \<Rightarrow> byte list list" where
  "descriptor_pieces = (\<lambda>(name, key). struct_pieces 4 [le_bytes 4 key] [] (string_pieces False name) [end_piece False])"

interpretation schema_field: frame_reader get_schema_field descriptor_pieces "\<lambda>f. f" "\<lambda>f. string_ok (fst f)"
proof
  fix f :: "hz_string \<times> i32"
  assume ok: "string_ok (fst f)"
  have "reads get_schema_field ([begin_piece] @ ([plain_header (6 + 4) DEFAULT_FLAGS] @
      ([le_bytes 4 (snd f)] @ (string_pieces False (fst f) @ ([end_piece False] @ []))))) (fst f, snd f)"
    unfolding get_schema_field_def
    by (intro reads_then [OF reads_skip_frame] reads_then [OF reads_skip_bytes] reads_bind [OF reads_basic(3)]
        reads_bind [OF string.reads_dec [OF ok]] reads_then [OF reads_fast_forward] reads_return)
       (simp_all del: closes.simps One_nat_def)
  then show "reads get_schema_field (descriptor_pieces f) f"
    by (cases f) (simp add: descriptor_pieces_def struct_pieces_def opt_piece_def)
qed (simp add: descriptor_pieces_def split: prod.splits)

definition schema_keys :: "(hz_string \<times> field_descriptor) list \<Rightarrow> (hz_string \<times> i32) list" where
  "schema_keys flds = map (\<lambda>(n, d). (n, of_nat (kind_id (fd_kind d)))) flds"

definition schema_pieces :: "schema \<Rightarrow> byte list list" where
  "schema_pieces s = begin_piece # string_pieces False (sch_type_name s) @
    list_pieces descriptor_pieces False (schema_keys (field_definition_map s))"

definition schema_ok :: "schema \<Rightarrow> bool" where
  "schema_ok s = (string_ok (sch_type_name s) \<and> list_all (\<lambda>f. string_ok (fst f)) (field_definition_map s))"

lemma emits_schema:
  assumes "schema_ok s"
  shows "emits (set_schema s f) (schema_pieces s @ [end_piece f])"
proof -
  let ?g = "\<lambda>(name, d). set_field_descriptor d name False"
  have field: "emits (?g p) (descriptor_pieces (fst p, of_nat (kind_id (fd_kind (snd p)))))"
    if "p \<in> set (field_definition_map s)" for p
    using that assms unfolding set_field_descriptor_def descriptor_pieces_def prod.case_eq_if fst_conv snd_conv
    by (intro emits_struct emits_basic string.emits_enc) (auto simp: schema_ok_def list_all_iff)
  have "emits (siter ?g (field_definition_map s))
    (concat (map (\<lambda>p. descriptor_pieces (fst p, of_nat (kind_id (fd_kind (snd p))))) (field_definition_map s)))"
    by (rule emits_siter) (rule field)
  then have fields: "emits (siter ?g (field_definition_map s))
    (concat (map descriptor_pieces (schema_keys (field_definition_map s))))"
    by (simp add: schema_keys_def comp_def case_prod_beta)
  have "emits (set_schema s f) ([begin_piece] @ string_pieces False (sch_type_name s) @ [begin_piece] @
    concat (map descriptor_pieces (schema_keys (field_definition_map s))) @ [end_piece False] @ [end_piece f] @ [])"
    unfolding set_schema_def using assms fields
    by (intro emits_sseq_Cons emits_frames emits_sseq_Nil string.emits_enc) (simp_all add: schema_ok_def)
  then show ?thesis
    by (simp add: schema_pieces_def list_pieces_def)
qed

lemma insert_fields_keys:
  assumes "distinct (map fst flds)" "set (map fst flds) \<inter> set (map fst acc) = {}"
  shows "insert_fields (schema_keys flds) acc =
    Inr (acc @ map (\<lambda>(n, d). (n, make_field_descriptor (fd_kind d))) flds)"
  using assms
proof (induction flds arbitrary: acc)
  case Nil
  then show ?case
    by (simp add: schema_keys_def)
next
  case (Cons p flds)
  obtain n d where p: "p = (n, d)"
    by (cases p)
  with Cons.prems have "map_of acc n = None"
    by (auto simp: map_of_eq_None_iff)
  with Cons p show ?case
    by (simp add: schema_keys_def insert_field_def)
qed

text \<open>The fields as the schema writer hands them to the constructor.\<close>

definition fresh_fields :: "(hz_string \<times> field_descriptor) list \<Rightarrow> bool" where
  "fresh_fields flds = (distinct (map fst flds) \<and>
    list_all (\<lambda>(n, d). d = make_field_descriptor (fd_kind d)) flds)"

lemma reads_schema:
  assumes "schema_ok s" "insert_fields (schema_keys (field_definition_map s)) [] = Inr flds"
  shows "reads get_schema (schema_pieces s) (make_schema (sch_type_name s) flds)"
proof -
  let ?ks = "schema_keys (field_definition_map s)"
  have keys: "list_all (\<lambda>f. string_ok (fst f)) ?ks"
    using assms(1) by (auto simp: schema_ok_def schema_keys_def list_all_iff)
  let ?k = "\<lambda>fs. sthen fast_forward_to_end_frame (\<lambda>m :: schema client_message.
      case insert_fields fs [] of Inl e \<Rightarrow> Inl e | Inr flds \<Rightarrow> Inr (make_schema (sch_type_name s) flds, m))"
  have "reads (?k ?ks) ([end_piece False] @ []) (make_schema (sch_type_name s) flds)"
    by (rule reads_then [OF reads_fast_forward])
       (simp_all add: assms(2) reads_def del: closes.simps One_nat_def)
  then have "reads (sbind (get_items get_schema_field []) ?k)
    (concat (map descriptor_pieces ?ks) @ [end_piece False]) (make_schema (sch_type_name s) flds)"
    by (intro schema_field.reads_items keys) simp
  then have "reads get_schema ([begin_piece] @ (string_pieces False (sch_type_name s) @
    ([begin_piece] @ (concat (map descriptor_pieces ?ks) @ [end_piece False])))) (make_schema (sch_type_name s) flds)"
    unfolding get_schema_def using assms(1)
    by (intro reads_then [OF reads_skip_frame] reads_bind [OF string.reads_dec]) (simp_all add: schema_ok_def)
  then show ?thesis
    by (simp add: schema_pieces_def list_pieces_def)
qed

lemma schema_keys_make_schema:
  assumes "distinct (map fst flds)"
  shows "schema_keys (field_definition_map (make_schema name flds)) = schema_keys flds"
proof -
  have keys: "schema_keys fs = map (map_prod id (\<lambda>k. of_nat (kind_id k))) (map (map_prod id fd_kind) fs)" for fs
    by (simp add: schema_keys_def case_prod_beta map_prod_def)
  show ?thesis
    unfolding keys make_schema_kinds [OF assms] by (rule refl)
qed

text \<open>
  C14. A schema that was built by the schema writer and sent to a member is rebuilt by the schema
  getter with the same field layout and the same id.  The getter does not consume the end frame of
  the schema: it is still in front of the cursor afterwards.
\<close>

theorem schema_getter_leaves_end_frame:
  assumes "fresh_fields flds" "schema_ok (make_schema name flds)" "at_end m"
    "length (msg_bytes m) + length (concat (schema_pieces (make_schema name flds))) + 6 < usize_max"
  shows "\<exists>m1 m2. set_schema (make_schema name flds) f m = Inr ((), m1) \<and>
    get_schema m1 = Inr (make_schema name flds, m2) \<and> chunked (rest m2) [end_piece f]"
proof -
  let ?s = "make_schema name flds"
  have "map (\<lambda>(n, d). (n, make_field_descriptor (fd_kind d))) flds = flds"
    using assms(1) by (intro map_idI) (auto simp: fresh_fields_def list_all_iff)
  then have "insert_fields (schema_keys (field_definition_map ?s)) [] = Inr flds"
    using assms(1) insert_fields_keys [of flds "[]"] by (simp add: schema_keys_make_schema fresh_fields_def)
  from reads_schema [OF assms(2) this] have rd: "reads get_schema (schema_pieces ?s) ?s"
    by simp
  obtain m1 where m1: "set_schema ?s f m = Inr ((), m1)" "msg_ok m1" "chunked (rest m1) (schema_pieces ?s @ [end_piece f])"
    using emits_ready [OF emits_schema [OF assms(2)] assms(3), of f] assms(4) by auto
  with rd show ?thesis
    unfolding reads_def by blast
qed

theorem schema_getter_leaves_end_frame_witness:
  "\<exists>m1 m2. let s = make_schema [84] [([97], make_field_descriptor FK_INT32)] in
    set_schema s True fresh_message = Inr ((), m1) \<and> get_schema m1 = Inr (s, m2) \<and> chunked (rest m2) [end_piece True]"
proof -
  have "schema_ok (make_schema [84] [([97], make_field_descriptor FK_INT32)])"
    "length (concat (schema_pieces (make_schema [84] [([97], make_field_descriptor FK_INT32)]))) = 54"
    using make_schema_names(2) [of "[84]" "[([97], make_field_descriptor FK_INT32)]"]
    by (auto simp: schema_ok_def string_ok_def schema_pieces_def list_pieces_def schema_keys_make_schema
        schema_keys_def descriptor_pieces_def struct_pieces_def string_pieces_def opt_piece_def
        map_eq_Cons_conv simp del: make_schema_names(2))
  moreover have "fresh_fields [([97], make_field_descriptor FK_INT32)]"
    by (simp add: fresh_fields_def make_field_descriptor_def)
  ultimately show ?thesis
    unfolding Let_def by (intro schema_getter_leaves_end_frame) (simp_all add: usize_max_def)
qed

section \<open>Anchors, members\<close>

definition anchor_entry_pieces :: "heap_data \<times> heap_data option \<Rightarrow> byte list list" where
  "anchor_entry_pieces = (\<lambda>(k, v). data_pieces False k @ nullable_pieces (data_pieces False) False v)"

interpretation anchor_entry: frame_codec
  "\<lambda>(k, v). sthen (set_data k False) (set_nullable set_data True v False)"
  "sbind get_data (\<lambda>k. sbind (get_nullable get_data) (\<lambda>v. sreturn (k, v)))"
  anchor_entry_pieces "\<lambda>(k, v). data_ok k \<and> pred_option data_ok v"
proof
  fix p :: "heap_data \<times> heap_data option"
  assume ok: "case p of (k, v) \<Rightarrow> data_ok k \<and> pred_option data_ok v"
  then obtain k v where p: "p = (k, v)" "data_ok k" "pred_option data_ok v"
    by auto
  have "set_nullable set_data True v False = set_nullable (\<lambda>x _. set_data x False) True v False"
    by (simp add: set_nullable_def split: option.splits)
  with nullable_data.emits_enc [OF p(3)] have "emits (set_nullable set_data True v False)
    (nullable_pieces (data_pieces False) False v)"
    by simp
  then show "emits (case p of (k, v) \<Rightarrow> sthen (set_data k False) (set_nullable set_data True v False))
    (anchor_entry_pieces p)"
    unfolding p(1) anchor_entry_pieces_def prod.case by (rule emits_then [OF data.emits_enc [OF p(2)]])
  show "reads (sbind get_data (\<lambda>k. sbind (get_nullable get_data) (\<lambda>v. sreturn (k, v)))) (anchor_entry_pieces p) p"
    unfolding p(1) anchor_entry_pieces_def prod.case
    by (rule reads_pair [OF data.reads_dec [OF p(2)] nullable_data.reads_dec [OF p(3)]])
  show "starts_frame (anchor_entry_pieces p)"
    using data.starts [OF p(2), of False]
    by (simp add: p(1) anchor_entry_pieces_def starts_frame_def data_pieces_def)
qed

interpretation anchor_entries: frame_codec
  "\<lambda>vs. set_vector (\<lambda>(k, v). sthen (set_data k False) (set_nullable set_data True v False)) vs f"
  "get_vector (sbind get_data (\<lambda>k. sbind (get_nullable get_data) (\<lambda>v. sreturn (k, v))))"
  "list_pieces anchor_entry_pieces f" "list_all (\<lambda>(k, v). data_ok k \<and> pred_option data_ok v)" for f
  by (rule anchor_entry.list_codec)

definition anchor_list_pieces :: "bool \<Rightarrow> anchor_data_list \<Rightarrow> byte list list" where
  "anchor_list_pieces f l = [begin_piece] @
    [plain_header (6 + length (page_list l) * 4) (final_flag False) @ concat (map (le_bytes 4) (page_list l))] @
    list_pieces anchor_entry_pieces False (data_list l) @ [end_piece f]"

definition anchor_list_ok :: "anchor_data_list \<Rightarrow> bool" where
  "anchor_list_ok l = (vector_ok 4 (page_list l) \<and>
    list_all (\<lambda>(k, v). data_ok k \<and> pred_option data_ok v) (data_list l))"

interpretation anchor_list: frame_codec "\<lambda>l. set_anchor_data_list l f" get_anchor_data_list
  "anchor_list_pieces f" anchor_list_ok for f
proof
  fix l :: anchor_data_list
  assume "anchor_list_ok l"
  then have ok: "vector_ok 4 (page_list l)" "list_all (\<lambda>(k, v). data_ok k \<and> pred_option data_ok v) (data_list l)"
    by (simp_all add: anchor_list_ok_def)
  have "emits (set_anchor_data_list l f) ([begin_piece] @
    [plain_header (6 + length (page_list l) * 4) (final_flag False) @ concat (map (le_bytes 4) (page_list l))] @
    list_pieces anchor_entry_pieces False (data_list l) @ [end_piece f] @ [])"
    unfolding set_anchor_data_list_def
    by (intro emits_sseq_Cons emits_frames emits_sseq_Nil int32_vector.emits_enc anchor_entries.emits_enc ok)
  then show "emits (set_anchor_data_list l f) (anchor_list_pieces f l)"
    by (simp only: anchor_list_pieces_def append_Nil2)
  have "reads get_anchor_data_list ([begin_piece] @
    ([plain_header (6 + length (page_list l) * 4) (final_flag False) @ concat (map (le_bytes 4) (page_list l))] @
    (list_pieces anchor_entry_pieces False (data_list l) @ ([end_piece f] @ [])))) \<lparr>page_list = page_list l, data_list = data_list l\<rparr>"
    unfolding get_anchor_data_list_def
    by (intro reads_then [OF reads_skip_bytes] reads_bind [OF int32_vector.reads_dec [OF ok(1)]]
        reads_bind [OF anchor_entries.reads_dec [OF ok(2)]] reads_then [OF reads_fast_forward] reads_return)
       (simp_all del: closes.simps One_nat_def)
  then show "reads get_anchor_data_list (anchor_list_pieces f l) l"
    by (cases l) (simp add: anchor_list_pieces_def)
qed (simp add: anchor_list_pieces_def starts_frame_def flag_values)

text \<open>
  The anchor list of a paging query is read back as it was written: the page numbers and, for
  every page, the anchor key with its optional value.
\<close>

lemma anchor_data_list_roundtrip:
  assumes "anchor_list_ok l" "at_end m"
    "length (msg_bytes m) + length (concat (anchor_list_pieces f l)) < usize_max"
  shows "\<exists>m1 m2. set_anchor_data_list l f m = Inr ((), m1) \<and> get_anchor_data_list m1 = Inr (l, m2) \<and> at_end m2"
  using anchor_list.round_trip [OF assms] .

end
