(* ===== verification/Exception_Factory.thy ===== *)
theory Exception_Factory
  imports Message_Types
begin

text \<open>
  The exceptions of the client protocol and the factory that builds them from the errors of a
  response: \<open>protocol_exceptions.h\<close>, \<open>ClientProtocolErrorCodes.h\<close>, the constructor,
  \<open>register_exception\<close> and \<open>create_exception\<close> of \<open>ClientExceptionFactory\<close> (\<open>protocol.cpp\<close>), and the
  text of an error (\<open>ErrorHolder::to_string\<close>).

  An exception class is its name with the error code, the runtime flag and the retry flag that its
  constructor passes to \<open>iexception\<close>.  The text boost prints for an optional value is a parameter.
\<close>

section \<open>Exceptions\<close>

datatype exception_class =
  Exception_Class (exception_name: string) (exception_code: i32) (is_runtime: bool) (is_retryable_class: bool)

datatype hz_exception =
  Hz_Exception (exception_cls: exception_class) (exception_source: hz_string) (exception_msg: hz_string)
    (exception_details: hz_string) (exception_cause: "hz_exception option")

text \<open>The registrations made by the constructor of the factory, in its order, each with the class
  of exception it creates.\<close>

definition registrations :: "(i32 \<times> exception_class) list" where
  "registrations = [
    (0, Exception_Class ''undefined_error_code'' 0 False False),
    (1, Exception_Class ''array_index_out_of_bounds'' 29 True False),
    (2, Exception_Class ''array_store'' 2 True False),
    (3, Exception_Class ''authentication'' 3 True False),
    (6, Exception_Class ''cache_not_exists'' 6 True False),
    (8, Exception_Class ''caller_not_member'' 8 False True),
    (9, Exception_Class ''cancellation'' 9 True False),
    (10, Exception_Class ''class_cast'' 10 True False),
    (11, Exception_Class ''class_not_found'' 11 False False),
    (12, Exception_Class ''concurrent_modification'' 12 True False),
    (13, Exception_Class ''config_mismatch'' 13 True False),
    (14, Exception_Class ''distributed_object_destroyed'' 14 True False),
    (15, Exception_Class ''eof'' 15 False False),
    (17, Exception_Class ''execution'' 17 False False),
    (18, Exception_Class ''hazelcast_'' 18 True False),
    (19, Exception_Class ''hazelcast_instance_not_active'' 19 True False),
    (20, Exception_Class ''hazelcast_overload'' 20 True False),
    (21, Exception_Class ''hazelcast_serialization'' 21 True False),
    (22, Exception_Class ''io'' 22 False False),
    (23, Exception_Class ''illegal_argument'' 23 True False),
    (24, Exception_Class ''illegal_access'' 24 False False),
    (25, Exception_Class ''illegal_access_error'' 25 False False),
    (26, Exception_Class ''illegal_monitor_state'' 26 True False),
    (27, Exception_Class ''illegal_state'' 27 True False),
    (28, Exception_Class ''illegal_thread_state'' 28 True False),
    (29, Exception_Class ''index_out_of_bounds'' 29 True False),
    (30, Exception_Class ''interrupted'' 30 False False),
    (31, Exception_Class ''invalid_address'' 31 True False),
    (32, Exception_Class ''invalid_configuration'' 32 True False),
    (33, Exception_Class ''member_left'' 33 False True),
    (34, Exception_Class ''negative_array_size'' 34 True False),
    (35, Exception_Class ''no_such_element'' 35 True False),
    (36, Exception_Class ''not_serializable'' 36 False False),
    (37, Exception_Class ''null_pointer'' 37 True False),
    (38, Exception_Class ''operation_timeout'' 38 True False),
    (39, Exception_Class ''partition_migrating'' 39 False True),
    (40, Exception_Class ''query'' 18 True False),
    (41, Exception_Class ''query_result_size_exceeded'' 41 True False),
    (43, Exception_Class ''reached_max_size'' 43 True False),
    (44, Exception_Class ''rejected_execution'' 44 True False),
    (45, Exception_Class ''response_already_sent'' 45 True False),
    (46, Exception_Class ''retryable_hazelcast'' 46 True True),
    (47, Exception_Class ''retryable_io'' 47 False True),
    (48, Exception_Class ''runtime'' 48 True False),
    (49, Exception_Class ''SecurityException'' 49 True False),
    (50, Exception_Class ''socket'' 50 False False),
    (51, Exception_Class ''stale_sequence'' 51 True False),
    (52, Exception_Class ''target_disconnected'' 52 True False),
    (53, Exception_Class ''target_not_member'' 53 False True),
    (54, Exception_Class ''timeout'' 54 False False),
    (55, Exception_Class ''topic_overload'' 55 True False),
    (56, Exception_Class ''transaction'' 56 True False),
    (57, Exception_Class ''transaction_not_active'' 57 True False),
    (58, Exception_Class ''transaction_timed_out'' 58 True False),
    (59, Exception_Class ''uri_syntax'' 59 False False),
    (60, Exception_Class ''utf_data_format'' 60 False False),
    (61, Exception_Class ''unsupported_operation'' 61 True False),
    (62, Exception_Class ''wrong_target'' 62 False True),
    (63, Exception_Class ''xa'' 63 False False),
    (64, Exception_Class ''access_control'' 64 True False),
    (65, Exception_Class ''login'' 65 False False),
    (66, Exception_Class ''unsupported_callback'' 66 False False),
    (67, Exception_Class ''no_data_member_in_cluster'' 67 True False),
    (68, Exception_Class ''replicated_map_cant_be_created_on_lite_member'' 68 True False),
    (69, Exception_Class ''max_message_size_exceeded'' 69 True False),
    (70, Exception_Class ''wan_replication_queue_full'' 70 True False),
    (71, Exception_Class ''assertion_error'' 71 False False),
    (72, Exception_Class ''out_of_memory_error'' 72 False False),
    (73, Exception_Class ''stack_overflow_error'' 73 False False),
    (74, Exception_Class ''native_out_of_memory_error'' 74 False False),
    (75, Exception_Class ''service_not_found'' 75 True False),
    (76, Exception_Class ''stale_task_id'' 76 True False),
    (77, Exception_Class ''duplicate_task'' 77 True False),
    (78, Exception_Class ''stale_task'' 78 True False),
    (79, Exception_Class ''local_member_reset'' 79 True False),
    (80, Exception_Class ''indeterminate_operation_state'' 80 True False),
    (81, Exception_Class ''node_id_out_of_range'' 81 True False),
    (82, Exception_Class ''target_not_replica'' 82 False True),
    (83, Exception_Class ''mutation_disallowed'' 83 True False),
    (84, Exception_Class ''consistency_lost'' 84 True False),
    (85, Exception_Class ''session_expired'' 85 True False),
    (86, Exception_Class ''wait_key_cancelled'' 86 True False),
    (87, Exception_Class ''lock_acquire_limit_reached'' 87 True False),
    (88, Exception_Class ''lock_ownership_lost'' 88 True False),
    (89, Exception_Class ''cp_group_destroyed'' 89 True False),
    (90, Exception_Class ''cannot_replicate'' 90 True False),
    (91, Exception_Class ''leader_demoted'' 91 True False),
    (92, Exception_Class ''stale_append_request'' 92 True False),
    (93, Exception_Class ''not_leader'' 93 True False),
    (94, Exception_Class ''version_mismatch'' 94 True False)]"

type_synonym factory = "(i32 \<times> exception_class) list"

definition UNDEFINED_CODE :: i32 where
  "UNDEFINED_CODE = 0"

definition register_exception :: "i32 \<times> exception_class \<Rightarrow> (factory, unit) sm" where
  "register_exception = (\<lambda>(code, cls) fac.
    if map_of fac code \<noteq> None then Inl IllegalState else Inr ((), fac @ [(code, cls)]))"

definition make_exception_factory :: "factory res" where
  "make_exception_factory =
    (case siter register_exception registrations [] of Inl e \<Rightarrow> Inl e | Inr (_, fac) \<Rightarrow> Inr fac)"

section \<open>Text of an error\<close>

definition ascii :: "string \<Rightarrow> hz_string" where
  "ascii s = map (\<lambda>c. of_nat (of_char c)) s"

fun decimal_digits :: "nat \<Rightarrow> hz_string" where
  "decimal_digits n = (if n < 10 then [of_nat (48 + n)] else decimal_digits (n div 10) @ [of_nat (48 + n mod 10)])"

definition int32_text :: "i32 \<Rightarrow> hz_string" where
  "int32_text i = (if sint i < 0 then ascii ''-'' @ decimal_digits (nat (- sint i)) else decimal_digits (nat (sint i)))"

definition stack_trace_text :: "(hz_string option \<Rightarrow> hz_string) \<Rightarrow> stack_trace_element \<Rightarrow> hz_string" where
  "stack_trace_text optional_text s =
    optional_text (file_name s) @ ascii '' line '' @ int32_text (line_number s) @ ascii '' :'' @
    declaring_class s @ ascii ''.'' @ method_name s"

definition error_text :: "(hz_string option \<Rightarrow> hz_string) \<Rightarrow> error_holder \<Rightarrow> hz_string" where
  "error_text optional_text e =
    ascii ''Error code:'' @ int32_text (error_code e) @
    ascii '', Class name that generated the error:'' @ class_name e @ ascii '', '' @
    (case message e of None \<Rightarrow> [] | Some t \<Rightarrow> t) @ [10] @
    concat (map (\<lambda>s. [9] @ stack_trace_text optional_text s @ [10]) (stack_trace e))"

section \<open>Creation\<close>

fun create_exception :: "(hz_string option \<Rightarrow> hz_string) \<Rightarrow> factory \<Rightarrow> error_holder list \<Rightarrow> hz_exception option res" where
  "create_exception optional_text fac [] = Inr None"
| "create_exception optional_text fac (e # es) =
    (case (case map_of fac (error_code e) of None \<Rightarrow> map_of fac UNDEFINED_CODE | Some c \<Rightarrow> Some c) of
       None \<Rightarrow> Inl UndefinedBehaviour
     | Some cls \<Rightarrow>
         (case create_exception optional_text fac es of
            Inl err \<Rightarrow> Inl err
          | Inr cause \<Rightarrow> Inr (Some (Hz_Exception cls (class_name e)
              (case message e of None \<Rightarrow> ascii ''nullptr'' | Some t \<Rightarrow> t) (error_text optional_text e) cause))))"

section \<open>Properties\<close>

lemma register_fold:
  assumes "distinct (map fst rs)" "set (map fst rs) \<inter> set (map fst fac) = {}"
  shows "siter register_exception rs fac = Inr ((), fac @ rs)"
  using assms
proof (induction rs arbitrary: fac)
  case (Cons r rs)
  then have "map_of fac (fst r) = None"
    by (auto simp: map_of_eq_None_iff)
  with Cons show ?case
    by (cases r) (auto simp: register_exception_def sthen_def sbind_def)
qed simp

lemma registrations_distinct: "distinct (map fst registrations)"
  by (simp add: registrations_def)

lemma factory_registrations: "make_exception_factory = Inr registrations"
  using register_fold [OF registrations_distinct, of "[]"] by (simp add: make_exception_factory_def)

text \<open>The exception chain, outermost first.\<close>

fun chain :: "hz_exception option \<Rightarrow> hz_exception list" where
  "chain None = []"
| "chain (Some (Hz_Exception cls src msg det cause)) = Hz_Exception cls src msg det cause # chain cause"

definition class_of_code :: "i32 \<Rightarrow> exception_class" where
  "class_of_code code = (case map_of registrations code of
     None \<Rightarrow> Exception_Class ''undefined_error_code'' 0 False False | Some c \<Rightarrow> c)"

text \<open>
  C15. The factory is built without a duplicate registration, and the errors of a response become
  one exception whose chain of causes has, in the order of the errors, one exception per error: its
  class is the one registered for the error code, or the undefined error for an unknown code, and
  its source and message are those of the error.
\<close>

theorem create_exception_chain:
  "\<exists>fac ex. make_exception_factory = Inr fac \<and> create_exception optional_text fac errors = Inr ex \<and>
    map exception_cls (chain ex) = map (\<lambda>e. class_of_code (error_code e)) errors \<and>
    map exception_source (chain ex) = map class_name errors \<and>
    map exception_msg (chain ex) = map (\<lambda>e. case message e of None \<Rightarrow> ascii ''nullptr'' | Some t \<Rightarrow> t) errors"
proof -
  have undef: "map_of registrations UNDEFINED_CODE = Some (Exception_Class ''undefined_error_code'' 0 False False)"
    by (simp add: registrations_def UNDEFINED_CODE_def)
  have "\<exists>ex. create_exception optional_text registrations errors = Inr ex \<and>
    map exception_cls (chain ex) = map (\<lambda>e. class_of_code (error_code e)) errors \<and>
    map exception_source (chain ex) = map class_name errors \<and>
    map exception_msg (chain ex) = map (\<lambda>e. case message e of None \<Rightarrow> ascii ''nullptr'' | Some t \<Rightarrow> t) errors"
  proof (induction errors)
    case (Cons e es)
    then show ?case
      by (cases "map_of registrations (error_code e)") (auto simp: undef class_of_code_def)
  qed simp
  then show ?thesis
    by (simp add: factory_registrations)
qed


end
