(* ===== verification/Byte_Buffer.thy ===== *)
theory Byte_Buffer
  imports HZ_Prelude
begin

text \<open>
  The receive buffer of a connection: \<open>util::ByteBuffer\<close> of \<open>include/hazelcast/util/ByteBuffer.h\<close>
  and \<open>src/hazelcast/util/util.cpp\<close>.  The memory behind the \<open>char*\<close> is the field \<open>bb_buffer\<close>,
  whose length is the number of bytes allocated.  An access outside it is
  \<open>UndefinedBehaviour\<close>; so is a \<open>memcpy\<close> between ranges that overlap at different addresses.

  The lemmas show that the positions stay ordered (\<open>bb_inv\<close>), what each operation makes of the
  unread bytes (\<open>bb_unread\<close>), that \<open>compact\<close> keeps the unread bytes, and that the integer
  accessors are the big-endian codec of the prelude.
\<close>

section \<open>State and operations\<close>

record byte_buffer =
  bb_pos :: nat
  bb_lim :: nat
  bb_capacity :: nat
  bb_buffer :: "byte list"

definition make_byte_buffer :: "byte list \<Rightarrow> nat \<Rightarrow> byte_buffer" where
  "make_byte_buffer memory cap =
    \<lparr>bb_pos = 0, bb_lim = cap, bb_capacity = cap, bb_buffer = memory\<rparr>"

definition flip :: "byte_buffer \<Rightarrow> byte_buffer" where
  "flip b = b\<lparr>bb_lim := bb_pos b, bb_pos := 0\<rparr>"

definition bb_remaining :: "byte_buffer \<Rightarrow> nat" where
  "bb_remaining b = usize_sub (bb_lim b) (bb_pos b)"

definition has_remaining :: "byte_buffer \<Rightarrow> bool" where
  "has_remaining b = (bb_pos b < bb_lim b)"

definition memcpy_ok :: "nat \<Rightarrow> nat \<Rightarrow> nat \<Rightarrow> nat \<Rightarrow> bool" where
  "memcpy_ok dst src n sz =
    (dst + n \<le> sz \<and> src + n \<le> sz \<and>
     (n = 0 \<or> dst = src \<or> dst + n \<le> src \<or> src + n \<le> dst))"

definition compact :: "byte_buffer \<Rightarrow> byte_buffer res" where
  "compact b =
    (let n = bb_remaining b in
     if memcpy_ok 0 (bb_pos b) n (length (bb_buffer b))
     then Inr (b\<lparr>bb_buffer := overwrite 0 (slice (bb_pos b) n (bb_buffer b)) (bb_buffer b),
                 bb_pos := n, bb_lim := bb_capacity b\<rparr>)
     else Inl UndefinedBehaviour)"

definition clear :: "byte_buffer \<Rightarrow> byte_buffer" where
  "clear b = b\<lparr>bb_pos := 0, bb_lim := bb_capacity b\<rparr>"

definition safe_increment_position :: "nat \<Rightarrow> (byte_buffer, unit) sm" where
  "safe_increment_position t = (\<lambda>b.
    if usize_add (bb_pos b) t \<le> bb_capacity b
    then Inr ((), b\<lparr>bb_pos := usize_add (bb_pos b) t\<rparr>)
    else Inl AssertFailure)"

definition read_byte :: "(byte_buffer, byte) sm" where
  "read_byte = (\<lambda>b.
    if bb_pos b < length (bb_buffer b)
    then sthen (safe_increment_position 1) (sreturn (bb_buffer b ! bb_pos b)) b
    else Inl UndefinedBehaviour)"

definition write_byte :: "byte \<Rightarrow> (byte_buffer, unit) sm" where
  "write_byte c = (\<lambda>b.
    if bb_pos b < length (bb_buffer b)
    then safe_increment_position 1 (b\<lparr>bb_buffer := (bb_buffer b)[bb_pos b := c]\<rparr>)
    else Inl UndefinedBehaviour)"

definition char_shl :: "byte \<Rightarrow> nat \<Rightarrow> 32 word" where
  "char_shl c n = push_bit n (scast c)"

definition read_int :: "(byte_buffer, i32) sm" where
  "read_int =
    sbind read_byte (\<lambda>a. sbind read_byte (\<lambda>b. sbind read_byte (\<lambda>c. sbind read_byte (\<lambda>d.
      sreturn ((0xff000000 AND char_shl a 24) OR (0x00ff0000 AND char_shl b 16) OR
               (0x0000ff00 AND char_shl c 8) OR (0x000000ff AND char_shl d 0))))))"

definition write_int :: "i32 \<Rightarrow> (byte_buffer, unit) sm" where
  "write_int v =
    sseq [write_byte (ucast (signed_drop_bit 24 v)), write_byte (ucast (signed_drop_bit 16 v)),
          write_byte (ucast (signed_drop_bit 8 v)), write_byte (ucast v)]"

definition read_short :: "(byte_buffer, i16) sm" where
  "read_short =
    sbind read_byte (\<lambda>a. sbind read_byte (\<lambda>b.
      sreturn (ucast (((0xff00 :: 32 word) AND push_bit 8 (ucast a)) OR (0x00ff AND ucast b)))))"

definition write_short :: "i16 \<Rightarrow> (byte_buffer, unit) sm" where
  "write_short v =
    sseq [write_byte (ucast (signed_drop_bit 8 (scast v :: 32 word))), write_byte (ucast v)]"

text \<open>The copying accessor \<open>read_bytes(byte*, len)\<close>: it does not look at the limit.\<close>

definition read_bytes :: "nat \<Rightarrow> (byte_buffer, byte list) sm" where
  "read_bytes n = (\<lambda>b.
    if bb_pos b + n \<le> length (bb_buffer b)
    then Inr (slice (bb_pos b) n (bb_buffer b), b\<lparr>bb_pos := usize_add (bb_pos b) n\<rparr>)
    else Inl UndefinedBehaviour)"

text \<open>The template \<open>read_bytes(T&, len)\<close>: it appends to \<open>target\<close> at most \<open>len\<close> bytes and
  returns their number.\<close>

definition read_bytes_into :: "byte list \<Rightarrow> nat \<Rightarrow> (byte_buffer, byte list \<times> nat) sm" where
  "read_bytes_into target len = (\<lambda>b.
    let n = min (usize_sub (bb_lim b) (bb_pos b)) len in
    if bb_pos b + n \<le> length (bb_buffer b)
    then Inr ((target @ slice (bb_pos b) n (bb_buffer b), n),
              b\<lparr>bb_pos := usize_add (bb_pos b) n\<rparr>)
    else Inl UndefinedBehaviour)"

section \<open>Invariant and behaviour\<close>

definition bb_inv :: "byte_buffer \<Rightarrow> bool" where
  "bb_inv b = (bb_pos b \<le> bb_lim b \<and> bb_lim b \<le> bb_capacity b \<and>
    bb_capacity b = length (bb_buffer b) \<and> bb_capacity b < usize_max)"

definition bb_unread :: "byte_buffer \<Rightarrow> byte list" where
  "bb_unread b = slice (bb_pos b) (bb_lim b - bb_pos b) (bb_buffer b)"

definition bb_filled :: "byte_buffer \<Rightarrow> byte list" where
  "bb_filled b = take (bb_pos b) (bb_buffer b)"

lemma bb_remaining_eq [simp]: "bb_inv b \<Longrightarrow> bb_remaining b = bb_lim b - bb_pos b"
  by (simp add: bb_remaining_def bb_inv_def usize_sub_exact)

lemma length_bb_unread [simp]: "bb_inv b \<Longrightarrow> length (bb_unread b) = bb_lim b - bb_pos b"
  by (simp add: bb_unread_def bb_inv_def)

lemma has_remaining_iff: "bb_inv b \<Longrightarrow> has_remaining b \<longleftrightarrow> bb_unread b \<noteq> []"
  using length_bb_unread [of b] by (auto simp: has_remaining_def simp flip: length_0_conv)

lemma bb_inv_make [simp]:
  "length memory = cap \<Longrightarrow> cap < usize_max \<Longrightarrow> bb_inv (make_byte_buffer memory cap)"
  by (simp add: bb_inv_def make_byte_buffer_def)

lemma flip_unread: "bb_inv b \<Longrightarrow> bb_inv (flip b) \<and> bb_unread (flip b) = bb_filled b"
  by (simp add: bb_inv_def flip_def bb_unread_def bb_filled_def slice_def)

lemma clear_filled: "bb_inv b \<Longrightarrow> bb_inv (clear b) \<and> bb_filled (clear b) = []"
  by (simp add: bb_inv_def clear_def bb_filled_def)

lemma read_bytes_unread:
  assumes "bb_inv b" "n \<le> length (bb_unread b)"
  shows "\<exists>b'. read_bytes n b = Inr (take n (bb_unread b), b') \<and> bb_inv b' \<and>
    bb_unread b' = drop n (bb_unread b) \<and> bb_capacity b' = bb_capacity b \<and>
    bb_pos b' = bb_pos b + n \<and> bb_lim b' = bb_lim b"
proof -
  have n: "n \<le> bb_lim b - bb_pos b"
    using assms by simp
  with assms have "bb_pos b + n \<le> length (bb_buffer b)" "bb_pos b + n < usize_max"
    by (auto simp: bb_inv_def)
  moreover have "slice (bb_pos b) n (bb_buffer b) = take n (bb_unread b)"
    using n by (simp add: bb_unread_def slice_def min_def)
  moreover have "slice (bb_pos b + n) (bb_lim b - (bb_pos b + n)) (bb_buffer b) = drop n (bb_unread b)"
    using n by (simp add: bb_unread_def slice_def drop_take add.commute)
  ultimately show ?thesis
    using assms n by (auto simp: read_bytes_def usize_add_exact bb_inv_def bb_unread_def)
qed

lemma compact_result:
  assumes "bb_inv b" "bb_pos b = 0 \<or> length (bb_unread b) \<le> bb_pos b"
  shows "\<exists>b'. compact b = Inr b' \<and> bb_inv b' \<and> bb_filled b' = bb_unread b \<and>
    bb_capacity b' = bb_capacity b"
proof -
  let ?n = "bb_lim b - bb_pos b"
  have ok: "memcpy_ok 0 (bb_pos b) ?n (length (bb_buffer b))"
    using assms by (auto simp: memcpy_ok_def bb_inv_def)
  have len: "length (slice (bb_pos b) ?n (bb_buffer b)) = ?n"
    using assms by (simp add: bb_inv_def)
  with ok assms show ?thesis
    by (auto simp: compact_def Let_def bb_inv_def bb_filled_def bb_unread_def overwrite_def
        bb_remaining_def usize_sub_exact)
qed

section \<open>The integer accessors\<close>

lemma write_byte_filled:
  assumes "bb_inv b" "bb_pos b < bb_lim b"
  shows "\<exists>b'. write_byte c b = Inr ((), b') \<and> bb_inv b' \<and> bb_filled b' = bb_filled b @ [c] \<and>
    bb_pos b' = Suc (bb_pos b) \<and> bb_lim b' = bb_lim b"
  using assms
  by (auto simp: write_byte_def safe_increment_position_def bb_inv_def usize_add_exact bb_filled_def
      take_Suc_conv_app_nth)

lemma write_bytes_filled:
  assumes "bb_inv b" "bb_pos b + length cs \<le> bb_lim b"
  shows "\<exists>b'. sseq (map write_byte cs) b = Inr ((), b') \<and> bb_inv b' \<and>
    bb_filled b' = bb_filled b @ cs \<and> bb_pos b' = bb_pos b + length cs \<and> bb_lim b' = bb_lim b"
  using assms
proof (induction cs arbitrary: b)
  case Nil
  then show ?case by simp
next
  case (Cons c cs)
  then obtain b1 where b1: "write_byte c b = Inr ((), b1)" "bb_inv b1"
    "bb_filled b1 = bb_filled b @ [c]" "bb_pos b1 = Suc (bb_pos b)" "bb_lim b1 = bb_lim b"
    using write_byte_filled [of b c] by auto
  with Cons.IH [of b1] Cons.prems show ?case
    by auto
qed

lemma read_byte_unread:
  assumes "bb_inv b" "bb_unread b = c # cs"
  shows "\<exists>b'. read_byte b = Inr (c, b') \<and> bb_inv b' \<and> bb_unread b' = cs"
proof -
  have lt: "bb_pos b < bb_lim b"
    using assms has_remaining_iff [of b] by (simp add: has_remaining_def)
  have "drop (bb_pos b) (bb_buffer b) = bb_buffer b ! bb_pos b # drop (Suc (bb_pos b)) (bb_buffer b)"
    using lt assms by (intro Cons_nth_drop_Suc [symmetric]) (simp add: bb_inv_def)
  with lt assms have "c = bb_buffer b ! bb_pos b"
    "cs = slice (Suc (bb_pos b)) (bb_lim b - Suc (bb_pos b)) (bb_buffer b)"
    by (auto simp: bb_unread_def slice_def take_Cons' split: if_splits)
  with lt assms show ?thesis
    by (auto simp: read_byte_def safe_increment_position_def bb_inv_def usize_add_exact bb_unread_def)
qed

lemma byte_masks:
  "(0xff000000 :: 32 word) = push_bit 24 (mask 8)" "(0x00ff0000 :: 32 word) = push_bit 16 (mask 8)"
  "(0x0000ff00 :: 32 word) = push_bit 8 (mask 8)" "(0x000000ff :: 32 word) = mask 8"
  by code_simp+

lemma char_shl_byte:
  fixes v :: i32
  assumes "k + 8 \<le> 32"
  shows "push_bit k (mask 8) AND char_shl (ucast (signed_drop_bit k v)) k = push_bit k (mask 8) AND v"
proof (rule bit_word_eqI)
  fix n
  assume n: "n < LENGTH(32)"
  show "bit (push_bit k (mask 8) AND char_shl (ucast (signed_drop_bit k v)) k) n =
    bit (push_bit k (mask 8) AND v) n"
  proof (cases "k \<le> n \<and> n < k + 8")
    case True
    then have "min 7 (n - k) = n - k" "k + (n - k) = n" "\<not> 32 - k \<le> n - k"
      using n by auto
    with True n show ?thesis
      by (simp add: char_shl_def bit_simps)
  next
    case False
    then show ?thesis
      by (auto simp: bit_simps)
  qed
qed

lemma read_int_assembles:
  fixes v :: i32
  shows "((0xff000000 AND char_shl (ucast (signed_drop_bit 24 v)) 24) OR
    (0x00ff0000 AND char_shl (ucast (signed_drop_bit 16 v)) 16) OR
    (0x0000ff00 AND char_shl (ucast (signed_drop_bit 8 v)) 8) OR
    (0x000000ff AND char_shl (ucast v) 0)) = v"
proof -
  have "mask 8 AND char_shl (ucast v) 0 = mask 8 AND v"
    using char_shl_byte [of 0 v] by simp
  moreover have "push_bit 24 (mask 8) OR push_bit 16 (mask 8) OR push_bit 8 (mask 8) OR mask 8 =
    (-1 :: 32 word)"
    by code_simp
  ultimately show ?thesis
    unfolding byte_masks
    by (simp add: char_shl_byte flip: bit.conj_disj_distrib2)
qed

lemma read_short_assembles:
  fixes v :: i16
  shows "ucast (((0xff00 :: 32 word) AND
      push_bit 8 (ucast (ucast (signed_drop_bit 8 (scast v :: 32 word)) :: byte))) OR
    (0x00ff AND ucast (ucast v :: byte))) = v"
proof (rule bit_word_eqI)
  fix n
  assume n: "n < LENGTH(16)"
  then have "n = 15 \<or> n < 15"
    by auto
  then show "bit (ucast (((0xff00 :: 32 word) AND
      push_bit 8 (ucast (ucast (signed_drop_bit 8 (scast v :: 32 word)) :: byte))) OR
    (0x00ff AND ucast (ucast v :: byte))) :: i16) n = bit v n"
    unfolding byte_masks by (auto simp: bit_simps min_def)
qed

lemma read_int_unread:
  assumes "bb_inv b" "bb_unread b = map ucast [signed_drop_bit 24 v, signed_drop_bit 16 v,
    signed_drop_bit 8 v, v] @ cs"
  shows "\<exists>b'. read_int b = Inr (v, b') \<and> bb_inv b' \<and> bb_unread b' = cs"
proof -
  obtain b1 where b1: "read_byte b = Inr (ucast (signed_drop_bit 24 v), b1)" "bb_inv b1"
    "bb_unread b1 = map ucast [signed_drop_bit 16 v, signed_drop_bit 8 v, v] @ cs"
    using read_byte_unread [OF assms(1)] assms(2) by force
  obtain b2 where b2: "read_byte b1 = Inr (ucast (signed_drop_bit 16 v), b2)" "bb_inv b2"
    "bb_unread b2 = map ucast [signed_drop_bit 8 v, v] @ cs"
    using read_byte_unread [OF b1(2)] b1(3) by force
  obtain b3 where b3: "read_byte b2 = Inr (ucast (signed_drop_bit 8 v), b3)" "bb_inv b3"
    "bb_unread b3 = ucast v # cs"
    using read_byte_unread [OF b2(2)] b2(3) by force
  obtain b4 where "read_byte b3 = Inr (ucast v, b4)" "bb_inv b4" "bb_unread b4 = cs"
    using read_byte_unread [OF b3(2)] b3(3) by force
  with b1 b2 b3 read_int_assembles [of v] show ?thesis
    by (simp add: read_int_def)
qed

lemma read_short_unread:
  assumes "bb_inv b"
    "bb_unread b = ucast (signed_drop_bit 8 (scast v :: 32 word)) # ucast v # cs"
  shows "\<exists>b'. read_short b = Inr (v, b') \<and> bb_inv b' \<and> bb_unread b' = cs"
proof -
  obtain b1 where b1: "read_byte b = Inr (ucast (signed_drop_bit 8 (scast v :: 32 word)), b1)"
    "bb_inv b1" "bb_unread b1 = ucast v # cs"
    using read_byte_unread [OF assms] by force
  obtain b2 where "read_byte b1 = Inr (ucast v, b2)" "bb_inv b2" "bb_unread b2 = cs"
    using read_byte_unread [OF b1(2,3)] by force
  with b1 read_short_assembles [of v] show ?thesis
    by (simp add: read_short_def)
qed

text \<open>
  An integer stored with \<open>write_int\<close> and read back with \<open>read_int\<close> after \<open>flip\<close> is the same
  integer for every 32-bit value, although the reader goes through sign-extended \<open>char\<close>s; the
  same holds for \<open>write_short\<close> and \<open>read_short\<close> written behind it, and all six bytes are consumed.
\<close>

lemma byte_buffer_int_roundtrip:
  assumes "6 \<le> cap" "cap < usize_max" "length memory = cap"
  shows "\<exists>b b' b''.
    sthen (write_int v) (write_short w) (make_byte_buffer memory cap) = Inr ((), b) \<and>
    read_int (flip b) = Inr (v, b') \<and> read_short b' = Inr (w, b'') \<and> \<not> has_remaining b''"
proof -
  let ?vs = "map ucast [signed_drop_bit 24 v, signed_drop_bit 16 v, signed_drop_bit 8 v, v]"
  let ?ws = "[ucast (signed_drop_bit 8 (scast w :: 32 word)), ucast w]"
  have w: "write_int v = sseq (map write_byte ?vs)" "write_short w = sseq (map write_byte ?ws)"
    by (simp_all add: write_int_def write_short_def)
  have m: "bb_inv (make_byte_buffer memory cap)" "bb_filled (make_byte_buffer memory cap) = []"
    "bb_pos (make_byte_buffer memory cap) = 0" "bb_lim (make_byte_buffer memory cap) = cap"
    using assms by (simp_all add: make_byte_buffer_def bb_inv_def bb_filled_def)
  obtain b1 where b1: "write_int v (make_byte_buffer memory cap) = Inr ((), b1)" "bb_inv b1"
    "bb_filled b1 = ?vs" "bb_pos b1 = 4" "bb_lim b1 = cap"
    using write_bytes_filled [OF m(1), of ?vs] assms m w by auto
  obtain b where b: "write_short w b1 = Inr ((), b)" "bb_inv b" "bb_filled b = ?vs @ ?ws"
    using write_bytes_filled [OF b1(2), of ?ws] assms b1 w by auto
  have f: "bb_inv (flip b)" "bb_unread (flip b) = ?vs @ ?ws"
    using flip_unread [OF b(2)] b(3) by auto
  obtain b' where b': "read_int (flip b) = Inr (v, b')" "bb_inv b'" "bb_unread b' = ?ws"
    using read_int_unread [OF f] by auto
  obtain b'' where b'': "read_short b' = Inr (w, b'')" "bb_inv b''" "bb_unread b'' = []"
    using read_short_unread [OF b'(2,3)] by auto
  have "sthen (write_int v) (write_short w) (make_byte_buffer memory cap) = Inr ((), b)"
    using b1(1) b(1) by simp
  moreover have "\<not> has_remaining b''"
    using b'' has_remaining_iff by simp
  ultimately show ?thesis
    using b'(1) b''(1) by blast
qed

end
