(* ===== verification/Message_Builder.thy ===== *)
theory Message_Builder
  imports Message_Types Byte_Buffer "HOL-Library.AList"
begin

text \<open>
  Assembly of messages from the byte stream of a connection: \<open>ClientMessage::fill_message_from\<close>
  (\<open>protocol.cpp\<close>), \<open>ClientMessageBuilder\<close> (\<open>ClientMessageBuilder.h\<close>), \<open>ReadHandler::handle\<close>
  (\<open>network.cpp\<close>) and the completion of a socket read (\<open>BaseSocket::do_read\<close>).

  The handler of complete messages is the connection; here it records the messages in
  \<open>handled_messages\<close>.  Failures to allocate memory are not modelled.

  The theorems show that the messages handed over do not depend on how the stream is cut into
  reads, that every frame of a message ends up contiguous in one buffer, so that the getters can
  read it, and where the code leaves this behaviour: frames of length 0, an overlapping
  \<open>memcpy\<close> in \<open>compact\<close>, and fragments whose first buffer becomes empty.
\<close>

type_synonym msg = "schema client_message"

section \<open>Filling a message\<close>

record fill_state =
  fs_buffer :: byte_buffer
  fs_message :: msg
  fs_final :: bool
  fs_remaining :: nat

text \<open>\<open>byte_buff.read_bytes(wr_ptr(reserve, n), n)\<close>\<close>

definition fill_copy :: "nat \<Rightarrow> nat \<Rightarrow> (fill_state, unit) sm" where
  "fill_copy reserve n = (\<lambda>s.
    case wr_ptr reserve n (fs_message s) of
      Inl e \<Rightarrow> Inl e
    | Inr (p, m) \<Rightarrow>
        (case read_bytes n (fs_buffer s) of
           Inl e \<Rightarrow> Inl e
         | Inr (bs, b) \<Rightarrow>
             (case ptr_store p bs m of
                Inl e \<Rightarrow> Inl e
              | Inr (_, m1) \<Rightarrow> Inr ((), s\<lparr>fs_buffer := b, fs_message := m1\<rparr>))))"

text \<open>One round of the loop: the header is read in place, the frame is copied as far as it is in
  the buffer.\<close>

definition fill_frame :: "(fill_state, unit) sm" where
  "fill_frame = (\<lambda>s.
    let b = fs_buffer s; remaining = bb_remaining b in
    if length (bb_buffer b) < bb_pos b + 6 then Inl UndefinedBehaviour
    else
      let h = header_of_bytes (slice (bb_pos b) 6 (bb_buffer b));
          len = i32_to_usize (frame_len h);
          n = min len remaining
      in case fill_copy len n s of
           Inl e \<Rightarrow> Inl e
         | Inr (_, s1) \<Rightarrow> Inr ((), s1\<lparr>fs_final := flag_set (frame_flags h) IS_FINAL_FLAG, fs_remaining := len - n\<rparr>))"

partial_function (option) fill_loop :: "fill_state \<Rightarrow> (hz_error + unit \<times> fill_state) option" where
  [code]: "fill_loop s =
    (if fs_remaining s = 0 \<and> \<not> fs_final s \<and> SIZE_OF_FRAME_LENGTH_AND_FLAGS \<le> bb_remaining (fs_buffer s)
     then case fill_frame s of
        Inl e \<Rightarrow> Some (Inl e)
      | Inr (_, s1) \<Rightarrow> fill_loop s1
     else Some (Inr ((), s)))"

definition fill_frames :: "(fill_state, unit) sm" where
  "fill_frames = (\<lambda>s. case fill_loop s of None \<Rightarrow> Inl Diverges | Some r \<Rightarrow> r)"

definition fill_message_from :: "(fill_state, unit) sm" where
  "fill_message_from = (\<lambda>s.
    if fs_remaining s \<noteq> 0 then
      let n = min (fs_remaining s) (bb_remaining (fs_buffer s)) in
      case fill_copy n n s of
        Inl e \<Rightarrow> Inl e
      | Inr (_, s1) \<Rightarrow>
          let s2 = s1\<lparr>fs_remaining := fs_remaining s1 - n\<rparr> in
          if 0 < fs_remaining s2 \<or> fs_final s2 then Inr ((), s2) else fill_frames s2
    else fill_frames s)"

section \<open>The message builder\<close>

record message_builder =
  partial_messages :: "(i64 \<times> msg) list"
  builder_message :: "msg option"
  is_final_frame :: bool
  remaining_frame_bytes :: nat
  handled_messages :: "msg list"

definition make_message_builder :: message_builder where
  "make_message_builder = \<lparr>partial_messages = [], builder_message = None, is_final_frame = False,
    remaining_frame_bytes = 0, handled_messages = []\<rparr>"

definition add_to_partial_messages :: "i64 \<Rightarrow> msg \<Rightarrow> message_builder \<Rightarrow> message_builder" where
  "add_to_partial_messages fid m mb =
    mb\<lparr>partial_messages := AList.update fid m (partial_messages mb), builder_message := None\<rparr>"

definition append_existing_partial_message :: "i64 \<Rightarrow> msg \<Rightarrow> bool \<Rightarrow> (message_builder, bool) sm" where
  "append_existing_partial_message fid m is_end_fragment = (\<lambda>mb.
    case map_of (partial_messages mb) fid of
      None \<Rightarrow> Inl AssertFailure
    | Some found \<Rightarrow>
        let whole = append_message found m in
        if is_end_fragment then
          Inr (True, mb\<lparr>partial_messages := AList.delete fid (partial_messages mb), builder_message := None,
                       handled_messages := handled_messages mb @ [wrap_for_read whole]\<rparr>)
        else Inr (False, mb\<lparr>partial_messages := AList.update fid whole (partial_messages mb),
                       builder_message := None\<rparr>))"

definition complete_message :: "msg \<Rightarrow> (message_builder, unit) sm" where
  "complete_message m0 = (\<lambda>mb.
    let m = wrap_for_read m0 in
    case is_flag_set UNFRAGMENTED_MESSAGE m of
      Inl e \<Rightarrow> Inl e
    | Inr (True, m) \<Rightarrow> Inr ((), mb\<lparr>builder_message := None, handled_messages := handled_messages mb @ [m]\<rparr>)
    | Inr (False, m) \<Rightarrow>
        (case sthen (skip_bytes FRAGMENTATION_ID_OFFSET) (sbind get_int64 (\<lambda>fid.
                sbind get_header_flags (\<lambda>flags. sthen drop_fragmentation_frame (sreturn (fid, flags))))) m of
           Inl e \<Rightarrow> Inl e
         | Inr ((fid, flags), m) \<Rightarrow>
             if flag_set flags BEGIN_FRAGMENT_FLAG then Inr ((), add_to_partial_messages fid m mb)
             else (case append_existing_partial_message fid m (flag_set flags END_FRAGMENT_FLAG) mb of
                     Inl e \<Rightarrow> Inl e
                   | Inr (_, mb1) \<Rightarrow> Inr ((), mb1))))"

definition on_data :: "byte_buffer \<Rightarrow> (message_builder, bool \<times> byte_buffer) sm" where
  "on_data buffer = (\<lambda>mb0.
    let mb = (if builder_message mb0 = None
              then mb0\<lparr>builder_message := Some empty_client_message, is_final_frame := False,
                       remaining_frame_bytes := 0\<rparr>
              else mb0)
    in case fill_message_from \<lparr>fs_buffer = buffer, fs_message = the (builder_message mb),
               fs_final = is_final_frame mb, fs_remaining = remaining_frame_bytes mb\<rparr> of
         Inl e \<Rightarrow> Inl e
       | Inr (_, s) \<Rightarrow>
           let mb1 = mb\<lparr>builder_message := Some (fs_message s), is_final_frame := fs_final s,
                        remaining_frame_bytes := fs_remaining s\<rparr>
           in if fs_final s \<and> fs_remaining s = 0 then
                (case complete_message (fs_message s) mb1 of
                   Inl e \<Rightarrow> Inl e
                 | Inr (_, mb2) \<Rightarrow> Inr ((True, fs_buffer s), mb2))
              else Inr ((False, fs_buffer s), mb1))"

section \<open>The read handler\<close>

record read_handler =
  rh_byte_buffer :: byte_buffer
  rh_builder :: message_builder

definition make_read_handler :: "nat \<Rightarrow> read_handler" where
  "make_read_handler buffer_size =
    \<lparr>rh_byte_buffer = make_byte_buffer (replicate buffer_size 0) buffer_size, rh_builder = make_message_builder\<rparr>"

partial_function (option) handle_loop :: "byte_buffer \<Rightarrow> message_builder \<Rightarrow>
    (hz_error + byte_buffer \<times> message_builder) option" where
  [code]: "handle_loop b mb =
    (if has_remaining b
     then case on_data b mb of
        Inl e \<Rightarrow> Some (Inl e)
      | Inr ((completed, b1), mb1) \<Rightarrow> if completed then handle_loop b1 mb1 else Some (Inr (b1, mb1))
     else Some (Inr (b, mb)))"

definition handle :: "(read_handler, unit) sm" where
  "handle = (\<lambda>r.
    if bb_pos (rh_byte_buffer r) = 0 then Inr ((), r)
    else case handle_loop (flip (rh_byte_buffer r)) (rh_builder r) of
      None \<Rightarrow> Inl Diverges
    | Some (Inl e) \<Rightarrow> Inl e
    | Some (Inr (b, mb)) \<Rightarrow>
        if has_remaining b then
          (case compact b of
             Inl e \<Rightarrow> Inl e
           | Inr b1 \<Rightarrow> Inr ((), r\<lparr>rh_byte_buffer := b1, rh_builder := mb\<rparr>))
        else Inr ((), r\<lparr>rh_byte_buffer := clear b, rh_builder := mb\<rparr>))"

text \<open>A read that delivers the bytes \<open>bs\<close>: the socket stores them behind the position.\<close>

definition on_read :: "byte list \<Rightarrow> (read_handler, unit) sm" where
  "on_read bs = (\<lambda>r.
    let b = rh_byte_buffer r in
    if bb_remaining b < length bs then Inl UndefinedBehaviour
    else case safe_increment_position (length bs) (b\<lparr>bb_buffer := overwrite (bb_pos b) bs (bb_buffer b)\<rparr>) of
      Inl e \<Rightarrow> Inl e
    | Inr (_, b1) \<Rightarrow> handle (r\<lparr>rh_byte_buffer := b1\<rparr>))"

section \<open>Frames in the buffers of a message\<close>

definition put_reserved :: "nat \<Rightarrow> byte list \<Rightarrow> msg_buffer list \<Rightarrow> msg_buffer list" where
  "put_reserved reserve p bs =
    (if bs = [] \<or> buf_capacity (last bs) - length (buf_bytes (last bs)) < reserve
     then bs @ [\<lparr>buf_bytes = p, buf_capacity = max EXPECTED_DATA_BLOCK_SIZE reserve\<rparr>]
     else butlast bs @ [(last bs)\<lparr>buf_bytes := buf_bytes (last bs) @ p\<rparr>])"

lemma wr_ptr_store:
  assumes "length p \<le> reserve" "0 < reserve"
  shows "\<exists>ptr m1. wr_ptr reserve (length p) m = Inr (ptr, m1) \<and>
    ptr_store ptr p m1 = Inr ((), m\<lparr>data_buffer := put_reserved reserve p (data_buffer m)\<rparr>)"
proof (cases "data_buffer m = [] \<or> buf_capacity (last (data_buffer m)) - length (buf_bytes (last (data_buffer m))) < reserve")
  case True
  with assms show ?thesis
    by (cases "p = []") (auto simp: wr_ptr_def Let_def ptr_store_def put_reserved_def nth_append)
next
  case False
  then obtain bs b where bs: "data_buffer m = bs @ [b]"
    by (cases "data_buffer m" rule: rev_cases) auto
  with False assms show ?thesis
    by (cases "p = []") (auto simp: wr_ptr_def Let_def ptr_store_def put_reserved_def nth_append)
qed

lemma fill_copy_result:
  assumes "bb_inv (fs_buffer s)" "n \<le> length (bb_unread (fs_buffer s))" "n \<le> reserve" "0 < reserve"
  shows "\<exists>b'. fill_copy reserve n s = Inr ((), s\<lparr>fs_buffer := b',
      fs_message := (fs_message s)\<lparr>data_buffer :=
        put_reserved reserve (take n (bb_unread (fs_buffer s))) (data_buffer (fs_message s))\<rparr>\<rparr>) \<and>
    bb_inv b' \<and> bb_unread b' = drop n (bb_unread (fs_buffer s)) \<and>
    bb_capacity b' = bb_capacity (fs_buffer s) \<and> bb_pos b' = bb_pos (fs_buffer s) + n \<and>
    bb_lim b' = bb_lim (fs_buffer s)"
proof -
  let ?p = "take n (bb_unread (fs_buffer s))"
  have len: "length ?p = n"
    using assms(2) by simp
  obtain ptr m1 where "wr_ptr reserve n (fs_message s) = Inr (ptr, m1)"
    "ptr_store ptr ?p m1 = Inr ((), (fs_message s)\<lparr>data_buffer := put_reserved reserve ?p (data_buffer (fs_message s))\<rparr>)"
    using wr_ptr_store [of ?p reserve "fs_message s"] assms(3,4) len by auto
  moreover obtain b' where "read_bytes n (fs_buffer s) = Inr (?p, b')" "bb_inv b'"
    "bb_unread b' = drop n (bb_unread (fs_buffer s))" "bb_capacity b' = bb_capacity (fs_buffer s)"
    "bb_pos b' = bb_pos (fs_buffer s) + n" "bb_lim b' = bb_lim (fs_buffer s)"
    using read_bytes_unread [OF assms(1,2)] by blast
  ultimately show ?thesis
    by (auto simp: fill_copy_def)
qed

lemma chunked_extend_piece:
  assumes "chunked cs (ps @ [p])" "p \<noteq> []"
  shows "chunked (butlast cs @ [last cs @ q]) (ps @ [p @ q])"
  using assms
proof (induction cs "ps @ [p]" arbitrary: ps rule: chunked.induct)
  case chunked_done
  then show ?case by simp
next
  case (chunked_piece c cs ps' p')
  show ?case
  proof (cases ps)
    case Nil
    with chunked_piece.hyps have "p' = p" "ps' = []" "c # cs = [[]]"
      by (auto simp: chunked_Nil_iff)
    then show ?thesis
      using Nil chunked.chunked_piece [OF chunked_done, of "p @ q"] by simp
  next
    case (Cons r rs)
    with chunked_piece.hyps(3) have eq: "p' = r" "ps' = rs @ [p]"
      by auto
    with chunked_piece.hyps(2) [of rs] chunked_piece.prems
    have ih: "chunked (butlast (c # cs) @ [last (c # cs) @ q]) (rs @ [p @ q])"
      by simp
    show ?thesis
    proof (cases "cs = []")
      case True
      with ih chunked.chunked_piece [of "c @ q" "[]" "rs @ [p @ q]" r] show ?thesis
        using Cons eq by simp
    next
      case False
      with ih chunked.chunked_piece [of c "butlast cs @ [last cs @ q]" "rs @ [p @ q]" r] show ?thesis
        using Cons eq by simp
    qed
  qed
next
  case (chunked_next c cs)
  then have ih: "chunked (butlast (c # cs) @ [last (c # cs) @ q]) (ps @ [p @ q])"
    by simp
  with chunked_next.hyps(3) show ?case
    using chunked.chunked_next [of c "butlast cs @ [last cs @ q]" "ps @ [p @ q]"]
      chunked.chunked_next [of "c @ q" "[]" "ps @ [p @ q]"]
    by (cases "cs = []") simp_all
qed

lemma chunked_bytes: "chunked cs ps \<Longrightarrow> concat cs = concat ps"
  by (induction rule: chunked.induct) simp_all

text \<open>The buffers hold the complete frames \<open>fs\<close> and the part \<open>part\<close> of the next one, with room for
  the \<open>rem\<close> bytes that are missing.\<close>

definition holds :: "byte list list \<Rightarrow> byte list \<Rightarrow> nat \<Rightarrow> msg_buffer list \<Rightarrow> bool" where
  "holds fs part rem bs =
    (if bs = [] then fs = [] \<and> part = []
     else chunked (map buf_bytes bs) (fs @ (if part = [] then [] else [part])) \<and>
       length (buf_bytes (last bs)) + rem \<le> buf_capacity (last bs) \<and>
       list_all (\<lambda>b. buf_bytes b \<noteq> []) bs)"

lemma holds_new_frame:
  assumes "holds fs [] 0 bs" "p \<noteq> []" "length p + rem = reserve"
  shows "holds fs p rem (put_reserved reserve p bs)"
proof (cases "bs = [] \<or> buf_capacity (last bs) - length (buf_bytes (last bs)) < reserve")
  case True
  show ?thesis
  proof (cases "bs = []")
    case True
    with assms show ?thesis
      using chunked_piece [OF chunked_done, of p] by (simp add: holds_def put_reserved_def)
  next
    case False
    with True assms show ?thesis
      using chunked_new_last [of p "map buf_bytes bs" fs] by (simp add: holds_def put_reserved_def)
  qed
next
  case False
  then obtain bs0 b where bs: "bs = bs0 @ [b]"
    by (cases bs rule: rev_cases) auto
  with False assms show ?thesis
    using chunked_extend_last [of "map buf_bytes bs0" "buf_bytes b" fs p]
    by (auto simp: holds_def put_reserved_def)
qed

lemma holds_continue:
  assumes "holds fs part rem bs" "part \<noteq> []" "length q \<le> rem"
  shows "holds fs (part @ q) (rem - length q) (put_reserved (length q) q bs)"
proof -
  have ne: "bs \<noteq> []"
    using assms(1,2) by (auto simp: holds_def)
  then obtain bs0 b where bs: "bs = bs0 @ [b]"
    by (cases bs rule: rev_cases) auto
  have "chunked (map buf_bytes bs) (fs @ [part])"
    using assms ne by (simp add: holds_def)
  from chunked_extend_piece [OF this assms(2), of q] assms ne bs show ?thesis
    by (auto simp: holds_def put_reserved_def)
qed

lemma holds_complete: "g \<noteq> [] \<Longrightarrow> holds fs g 0 bs \<Longrightarrow> holds (fs @ [g]) [] 0 bs"
  by (auto simp: holds_def split: if_splits)

section \<open>Filling follows the frames of the stream\<close>

definition is_final_flag :: "byte list \<Rightarrow> bool" where
  "is_final_flag f = flag_set (flags_of f) IS_FINAL_FLAG"

text \<open>The frames that complete a message.\<close>

definition wf_frames :: "byte list list \<Rightarrow> bool" where
  "wf_frames gs = (gs \<noteq> [] \<and> list_all wf_frame gs \<and>
    list_all (\<lambda>f. \<not> is_final_flag f) (butlast gs) \<and> is_final_flag (last gs))"

text \<open>The message under construction holds \<open>fs\<close> and the beginning \<open>part\<close> of the next frame of \<open>gs\<close>.\<close>

definition in_progress :: "byte list list \<Rightarrow> byte list list \<Rightarrow> byte list \<Rightarrow> msg \<Rightarrow> bool \<Rightarrow> nat \<Rightarrow> bool" where
  "in_progress fs gs part m fin rem =
    (wf_frames gs \<and> holds fs part rem (data_buffer m) \<and>
     (if part = [] then rem = 0 \<and> \<not> fin
      else \<exists>q. hd gs = part @ q \<and> q \<noteq> [] \<and> 6 \<le> length part \<and> rem = length q \<and> fin = is_final_flag (hd gs)))"

definition filled :: "byte list list \<Rightarrow> byte list list \<Rightarrow> byte list \<Rightarrow> fill_state \<Rightarrow> bool" where
  "filled fs gs bytes s =
    ((fs_final s \<and> fs_remaining s = 0 \<and> holds (fs @ gs) [] 0 (data_buffer (fs_message s)) \<and>
      bytes = concat gs @ bb_unread (fs_buffer s)) \<or>
     (\<exists>gs1 gs2 part. gs = gs1 @ gs2 \<and>
        in_progress (fs @ gs1) gs2 part (fs_message s) (fs_final s) (fs_remaining s) \<and>
        bytes = concat gs1 @ part @ bb_unread (fs_buffer s) \<and> length (bb_unread (fs_buffer s)) < 6 \<and>
        (part = [] \<or> bb_unread (fs_buffer s) = [])))"

lemma fill_frames_unfold: "fill_frames s =
  (if fs_remaining s = 0 \<and> \<not> fs_final s \<and> 6 \<le> bb_remaining (fs_buffer s)
   then sthen fill_frame fill_frames s else Inr ((), s))"
  by (simp add: fill_frames_def fill_loop.simps [of s] sthen_def sbind_def split: sum.splits prod.splits)

lemma wf_frames_Cons:
  assumes "wf_frames (g # gs)"
  shows "wf_frame g" "g \<noteq> []" "6 \<le> length g" "is_final_flag g \<longleftrightarrow> gs = []" "gs \<noteq> [] \<Longrightarrow> wf_frames gs"
  using assms by (auto simp: wf_frames_def wf_frame_def split: if_splits)

lemma take_prefix_eq: "xs @ z = ys @ w \<Longrightarrow> n \<le> length xs \<Longrightarrow> n \<le> length ys \<Longrightarrow> take n xs = take n ys"
  by (metis take_append take_eq_Nil2 diff_is_0_eq' append_Nil2)

lemma filled_complete:
  assumes "fs_final s" "fs_remaining s = 0" "holds (fs @ gs) [] 0 (data_buffer (fs_message s))"
    "bytes = concat gs @ bb_unread (fs_buffer s)"
  shows "filled fs gs bytes s"
  using assms by (simp add: filled_def)

lemma filled_partly:
  assumes "in_progress (fs @ gs1) gs2 part (fs_message s) (fs_final s) (fs_remaining s)" "gs = gs1 @ gs2"
    "bytes = concat gs1 @ part @ bb_unread (fs_buffer s)" "length (bb_unread (fs_buffer s)) < 6"
    "part = [] \<or> bb_unread (fs_buffer s) = []"
  shows "filled fs gs bytes s"
  using assms unfolding filled_def by blast

lemma filled_Cons:
  assumes "filled (fs @ [g]) gs bytes s"
  shows "filled fs (g # gs) (g @ bytes) s"
  using assms [unfolded filled_def]
proof
  assume "\<exists>gs1 gs2 part. gs = gs1 @ gs2 \<and>
        in_progress ((fs @ [g]) @ gs1) gs2 part (fs_message s) (fs_final s) (fs_remaining s) \<and>
        bytes = concat gs1 @ part @ bb_unread (fs_buffer s) \<and> length (bb_unread (fs_buffer s)) < 6 \<and>
        (part = [] \<or> bb_unread (fs_buffer s) = [])"
  then obtain gs1 gs2 part where "gs = gs1 @ gs2"
    "in_progress ((fs @ [g]) @ gs1) gs2 part (fs_message s) (fs_final s) (fs_remaining s)"
    "bytes = concat gs1 @ part @ bb_unread (fs_buffer s)" "length (bb_unread (fs_buffer s)) < 6"
    "part = [] \<or> bb_unread (fs_buffer s) = []"
    by (elim exE conjE)
  then show ?thesis
    by (intro filled_partly [of fs "g # gs1" gs2 part]) simp_all
qed (intro filled_complete, simp_all)

lemma fill_frame_result:
  assumes "bb_inv (fs_buffer s)" "wf_frame g" "6 \<le> length (bb_unread (fs_buffer s))"
    "bb_unread (fs_buffer s) @ z = g @ following"
  defines "n \<equiv> min (length g) (length (bb_unread (fs_buffer s)))"
  shows "\<exists>b'. fill_frame s = Inr ((), s\<lparr>fs_buffer := b', fs_message := (fs_message s)\<lparr>data_buffer :=
        put_reserved (length g) (take n (bb_unread (fs_buffer s))) (data_buffer (fs_message s))\<rparr>,
      fs_final := is_final_flag g, fs_remaining := length g - n\<rparr>) \<and>
    bb_inv b' \<and> bb_unread b' = drop n (bb_unread (fs_buffer s)) \<and>
    bb_capacity b' = bb_capacity (fs_buffer s) \<and> bb_lim b' = bb_lim (fs_buffer s) \<and>
    bb_pos b' = bb_pos (fs_buffer s) + n"
proof -
  let ?b = "fs_buffer s" and ?U = "bb_unread (fs_buffer s)"
  have U: "length ?U = bb_lim ?b - bb_pos ?b"
    using assms(1) by simp
  have in_range: "\<not> length (bb_buffer ?b) < bb_pos ?b + 6"
    using assms(1,3) U by (auto simp: bb_inv_def)
  have "slice (bb_pos ?b) 6 (bb_buffer ?b) = take 6 ?U"
    using assms(3) U by (simp add: bb_unread_def slice_def min_def)
  also have "\<dots> = take 6 g"
    using assms(2,3) take_prefix_eq [OF assms(4), of 6] by (simp add: wf_frame_def)
  finally have h: "slice (bb_pos ?b) 6 (bb_buffer ?b) = take 6 g" .
  have len: "i32_to_usize (frame_len (header_of_bytes (take 6 g))) = length g"
    using assms(2) by (simp add: wf_frame_def)
  have "n \<le> length ?U" "n \<le> length g" "0 < length g"
    using assms(2) by (auto simp: n_def wf_frame_def)
  from fill_copy_result [OF assms(1) this] obtain b' where
    "fill_copy (length g) n s = Inr ((), s\<lparr>fs_buffer := b', fs_message := (fs_message s)\<lparr>data_buffer :=
        put_reserved (length g) (take n ?U) (data_buffer (fs_message s))\<rparr>\<rparr>)"
    "bb_inv b'" "bb_unread b' = drop n ?U" "bb_capacity b' = bb_capacity ?b" "bb_pos b' = bb_pos ?b + n"
    "bb_lim b' = bb_lim ?b"
    by blast
  with in_range h len U assms(1) show ?thesis
    by (auto simp: fill_frame_def Let_def n_def is_final_flag_def flags_of_def)
qed

lemma fill_frames_filled:
  assumes "wf_frames gs" "fs_remaining s = 0" "\<not> fs_final s" "bb_inv (fs_buffer s)"
    "holds fs [] 0 (data_buffer (fs_message s))" "bb_unread (fs_buffer s) @ z = concat gs @ following"
  shows "\<exists>s'. fill_frames s = Inr ((), s') \<and> bb_inv (fs_buffer s') \<and>
    bb_capacity (fs_buffer s') = bb_capacity (fs_buffer s) \<and> bb_lim (fs_buffer s') = bb_lim (fs_buffer s) \<and>
    filled fs gs (bb_unread (fs_buffer s)) s'"
  using assms
proof (induction gs arbitrary: s fs)
  case Nil
  then show ?case by (simp add: wf_frames_def)
next
  case (Cons g gs)
  let ?U = "bb_unread (fs_buffer s)"
  note g = wf_frames_Cons [OF Cons.prems(1)]
  have rem: "bb_remaining (fs_buffer s) = length ?U"
    using Cons.prems(4) by simp
  show ?case
  proof (cases "6 \<le> length ?U")
    case False
    have "in_progress fs (g # gs) [] (fs_message s) (fs_final s) (fs_remaining s)"
      using Cons.prems by (simp add: in_progress_def)
    with False have "filled fs (g # gs) ?U s"
      by (intro filled_partly [of fs "[]" "g # gs" "[]"]) simp_all
    moreover have "fill_frames s = Inr ((), s)"
      by (subst fill_frames_unfold) (use False rem in simp)
    ultimately show ?thesis
      using Cons.prems(4) by blast
  next
    case True
    define n where "n = min (length g) (length ?U)"
    have str: "?U @ z = g @ concat gs @ following"
      using Cons.prems(6) by simp
    obtain b' where b': "fill_frame s = Inr ((), s\<lparr>fs_buffer := b', fs_message := (fs_message s)\<lparr>data_buffer :=
          put_reserved (length g) (take n ?U) (data_buffer (fs_message s))\<rparr>,
        fs_final := is_final_flag g, fs_remaining := length g - n\<rparr>)"
      "bb_inv b'" "bb_unread b' = drop n ?U" "bb_capacity b' = bb_capacity (fs_buffer s)"
      "bb_lim b' = bb_lim (fs_buffer s)"
      using fill_frame_result [OF Cons.prems(4) g(1) True str] unfolding n_def by blast
    let ?s1 = "s\<lparr>fs_buffer := b', fs_message := (fs_message s)\<lparr>data_buffer :=
          put_reserved (length g) (take n ?U) (data_buffer (fs_message s))\<rparr>,
        fs_final := is_final_flag g, fs_remaining := length g - n\<rparr>"
    have step: "fill_frames s = fill_frames ?s1"
      by (subst fill_frames_unfold) (use True rem Cons.prems(2,3) b'(1) in \<open>simp add: sthen_def sbind_def\<close>)
    show ?thesis
    proof (cases "length g \<le> length ?U")
      case False
      then have n: "n = length ?U" "take n ?U = ?U"
        by (simp_all add: n_def)
      obtain q where q: "g = ?U @ q" "q \<noteq> []"
        using str False by (auto simp: append_eq_append_conv2)
      have "holds fs ?U (length q) (put_reserved (length g) ?U (data_buffer (fs_message s)))"
        using Cons.prems(5) True q by (intro holds_new_frame) auto
      then have "in_progress fs (g # gs) ?U (fs_message ?s1) (fs_final ?s1) (fs_remaining ?s1)"
        using Cons.prems(1) True q n by (auto simp: in_progress_def)
      with b'(3) n have "filled fs (g # gs) ?U ?s1"
        by (intro filled_partly [of fs "[]" "g # gs" ?U]) simp_all
      moreover have "fill_frames ?s1 = Inr ((), ?s1)"
        by (subst fill_frames_unfold) (use False n in simp)
      ultimately show ?thesis
        using step b' by auto
    next
      case True
      then have n: "n = length g" "take n ?U = g"
        using arg_cong [OF str, of "take (length g)"] by (simp_all add: n_def)
      then have U: "?U = g @ bb_unread b'"
        using b'(3) by (metis append_take_drop_id)
      have h: "holds (fs @ [g]) [] 0 (data_buffer (fs_message ?s1))"
        using holds_new_frame [OF Cons.prems(5) g(2), of 0 "length g"] n g(2) by (simp add: holds_complete)
      show ?thesis
      proof (cases "gs = []")
        case gs: True
        have "fill_frames ?s1 = Inr ((), ?s1)"
          by (subst fill_frames_unfold) (use g(4) gs in simp)
        moreover have "filled fs (g # gs) ?U ?s1"
          using h n U gs g(4) by (intro filled_complete) simp_all
        ultimately show ?thesis
          using step b' by auto
      next
        case gs: False
        have str1: "bb_unread (fs_buffer ?s1) @ z = concat gs @ following"
          using str U by simp
        obtain s' where s': "fill_frames ?s1 = Inr ((), s')" "bb_inv (fs_buffer s')"
          "bb_capacity (fs_buffer s') = bb_capacity b'" "bb_lim (fs_buffer s') = bb_lim b'"
          "filled (fs @ [g]) gs (bb_unread b') s'"
          using Cons.IH [OF g(5) [OF gs], of ?s1 "fs @ [g]"] h str1 b'(2) n g(4) gs by auto
        have "filled fs (g # gs) ?U s'"
          using filled_Cons [OF s'(5)] U by simp
        with s' step b'(4,5) show ?thesis
          by auto
      qed
    qed
  qed
qed

lemma fill_message_filled:
  assumes "in_progress fs gs part (fs_message s) (fs_final s) (fs_remaining s)" "bb_inv (fs_buffer s)"
    "bb_unread (fs_buffer s) \<noteq> []" "part @ bb_unread (fs_buffer s) @ z = concat gs @ following"
  shows "\<exists>s'. fill_message_from s = Inr ((), s') \<and> bb_inv (fs_buffer s') \<and>
    bb_capacity (fs_buffer s') = bb_capacity (fs_buffer s) \<and> bb_lim (fs_buffer s') = bb_lim (fs_buffer s) \<and>
    filled fs gs (part @ bb_unread (fs_buffer s)) s'"
proof (cases "part = []")
  case True
  with assms have p: "wf_frames gs" "holds fs [] 0 (data_buffer (fs_message s))" "fs_remaining s = 0" "\<not> fs_final s"
    by (auto simp: in_progress_def)
  with fill_frames_filled [OF p(1,3,4) assms(2) p(2)] assms(4) True show ?thesis
    by (auto simp: fill_message_from_def)
next
  case False
  let ?U = "bb_unread (fs_buffer s)"
  obtain q where q: "hd gs = part @ q" "q \<noteq> []" "6 \<le> length part" "fs_remaining s = length q"
    "fs_final s = is_final_flag (hd gs)" and wf: "wf_frames gs" and h: "holds fs part (length q) (data_buffer (fs_message s))"
    using assms(1) False by (auto simp: in_progress_def)
  then obtain g gs' where gs: "gs = g # gs'" "g = part @ q"
    by (cases gs) (auto simp: wf_frames_def)
  have str: "?U @ z = q @ concat gs' @ following"
    using assms(4) gs by simp
  define n where "n = min (length q) (length ?U)"
  have n: "n \<le> length ?U" "n \<le> length q" "0 < n"
    using q(2) assms(3) by (auto simp: n_def)
  obtain b' where b': "fill_copy n n s = Inr ((), s\<lparr>fs_buffer := b', fs_message := (fs_message s)\<lparr>data_buffer :=
        put_reserved n (take n ?U) (data_buffer (fs_message s))\<rparr>\<rparr>)"
    "bb_inv b'" "bb_unread b' = drop n ?U" "bb_capacity b' = bb_capacity (fs_buffer s)"
    "bb_lim b' = bb_lim (fs_buffer s)"
    using fill_copy_result [OF assms(2) n(1) order_refl n(3)] by blast
  let ?s2 = "s\<lparr>fs_buffer := b', fs_message := (fs_message s)\<lparr>data_buffer :=
        put_reserved n (take n ?U) (data_buffer (fs_message s))\<rparr>, fs_remaining := length q - n\<rparr>"
  have step: "fill_message_from s = (if 0 < length q - n \<or> fs_final s then Inr ((), ?s2) else fill_frames ?s2)"
    using b'(1) q(2,4) assms(2) by (simp add: fill_message_from_def Let_def n_def)
  have h2: "holds fs (part @ take n ?U) (length q - n) (data_buffer (fs_message ?s2))"
    using holds_continue [OF h False, of "take n ?U"] n by simp
  show ?thesis
  proof (cases "length q \<le> length ?U")
    case True
    then have nq: "n = length q" "take n ?U = q"
      using take_prefix_eq [OF str, of "length q"] by (simp_all add: n_def)
    then have U: "?U = q @ bb_unread b'"
      using b'(3) by (metis append_take_drop_id)
    have h3: "holds (fs @ [g]) [] 0 (data_buffer (fs_message ?s2))"
      using h2 nq gs(2) False by (intro holds_complete) simp_all
    show ?thesis
    proof (cases "gs' = []")
      case fin: True
      then have "fs_final s"
        using wf_frames_Cons(4) [of g gs'] wf gs q(5) by simp
      moreover from this have "filled fs gs (part @ ?U) ?s2"
        using h3 U gs fin nq by (intro filled_complete) simp_all
      ultimately show ?thesis
        using step b' by auto
    next
      case more: False
      then have g: "\<not> fs_final s" "wf_frames gs'"
        using wf_frames_Cons(4,5) [of g gs'] wf gs q(5) by simp_all
      have "bb_unread (fs_buffer ?s2) @ z = concat gs' @ following"
        using str U by simp
      then obtain s' where s': "fill_frames ?s2 = Inr ((), s')" "bb_inv (fs_buffer s')"
        "bb_capacity (fs_buffer s') = bb_capacity b'" "bb_lim (fs_buffer s') = bb_lim b'"
        "filled (fs @ [g]) gs' (bb_unread b') s'"
        using fill_frames_filled [OF g(2), of ?s2 "fs @ [g]" z following] h3 b'(2) g(1) nq by auto
      have "filled fs gs (part @ ?U) s'"
        using filled_Cons [OF s'(5)] U gs by simp
      with s' step g(1) nq b'(4,5) show ?thesis
        by auto
    qed
  next
    case False
    then have nU: "n = length ?U" "take n ?U = ?U" "bb_unread b' = []"
      using b'(3) by (simp_all add: n_def)
    obtain q' where q': "q = ?U @ q'" "q' \<noteq> []"
      using str False by (auto simp: append_eq_append_conv2)
    have "in_progress fs gs (part @ ?U) (fs_message ?s2) (fs_final ?s2) (fs_remaining ?s2)"
      using wf h2 q q' nU \<open>part \<noteq> []\<close> by (auto simp: in_progress_def)
    then have "filled fs gs (part @ ?U) ?s2"
      using nU by (intro filled_partly [of fs "[]" gs "part @ ?U"]) simp_all
    moreover have "0 < length q - n"
      using False nU by simp
    ultimately show ?thesis
      using step b' by auto
  qed
qed

section \<open>The builder delivers the messages of the stream\<close>

definition wf_message :: "byte list list \<Rightarrow> bool" where
  "wf_message F = (wf_frames F \<and> length (concat F) < usize_max \<and> flag_set (flags_of (hd F)) UNFRAGMENTED_MESSAGE)"

text \<open>The message \<open>m\<close> consists of the frames \<open>F\<close>, each contiguous, with the cursor at the start.\<close>

definition message_is :: "byte list list \<Rightarrow> msg \<Rightarrow> bool" where
  "message_is F m = (msg_ok m \<and> buf_bytes (hd (data_buffer m)) \<noteq> [] \<and> buffer_index m = 0 \<and> msg_offset m = 0 \<and> chunked (rest m) F \<and> msg_bytes m = concat F)"

lemma holds_message_is:
  assumes "holds F [] 0 (data_buffer m)" "F \<noteq> []" "length (concat F) < usize_max"
  shows "message_is F (wrap_for_read m)"
proof -
  have ch: "chunked (map buf_bytes (data_buffer m)) F" "data_buffer m \<noteq> []"
    "list_all (\<lambda>b. buf_bytes b \<noteq> []) (data_buffer m)"
    using assms(1,2) by (auto simp: holds_def split: if_splits)
  have "concat (map buf_bytes (data_buffer m)) = concat F"
    by (rule chunked_bytes [OF ch(1)])
  moreover from this have "length (buf_bytes b) < usize_max" if "b \<in> set (data_buffer m)" for b
    using length_buf_le_concat [OF that] assms(3) by simp
  ultimately show ?thesis
    using ch by (cases "data_buffer m")
      (simp_all add: message_is_def wrap_for_read_def msg_ok_def rest_def msg_bytes_def)
qed

lemma message_is_flags:
  assumes "message_is F m" "wf_frames F"
  shows "is_flag_set flag m = Inr (flag_set (flags_of (hd F)) flag, m)"
proof -
  obtain g gs where F: "F = g # gs" "wf_frame g"
    using assms(2) by (cases F) (auto simp: wf_frames_def)
  obtain b bs where bs: "data_buffer m = b # bs"
    using assms(1) by (cases "data_buffer m") (auto simp: message_is_def msg_ok_def)
  have ch: "chunked (buf_bytes b # map buf_bytes bs) (g # gs)" "buf_bytes b \<noteq> []"
    using assms(1) unfolding message_is_def rest_def bs F(1) by auto
  have len: "6 \<le> length g"
    using F(2) by (simp add: wf_frame_def)
  then have "g \<noteq> []"
    by auto
  then obtain c where c: "buf_bytes b = g @ c"
    using ch(2) by (rule_tac chunked_take_head [OF ch(1)]) auto
  have "get_header_flags m = Inr (le_word (slice 4 2 (buf_bytes b)), m)"
    using len c by (simp add: get_header_flags_def sbind_def ptr_load_first [OF bs])
  moreover have "le_word (slice 4 2 (buf_bytes b)) = flags_of g"
    using len c by (simp add: flags_of_def header_of_bytes_def slice_def drop_take)
  ultimately show ?thesis
    by (simp add: is_flag_set_def sbind_def F)
qed

definition building :: "byte list list \<Rightarrow> byte list list \<Rightarrow> byte list \<Rightarrow> message_builder \<Rightarrow> bool" where
  "building fs gs part mb =
    (case builder_message mb of
       None \<Rightarrow> fs = [] \<and> part = [] \<and> wf_frames gs
     | Some m \<Rightarrow> in_progress fs gs part m (is_final_frame mb) (remaining_frame_bytes mb))"

lemma building_wf: "building fs gs part mb \<Longrightarrow> wf_frames gs"
  by (auto simp: building_def in_progress_def split: option.splits)

lemma complete_message_unfragmented:
  assumes "holds F [] 0 (data_buffer m)" "wf_message F"
  shows "complete_message m mb = Inr ((), mb\<lparr>builder_message := None,
      handled_messages := handled_messages mb @ [wrap_for_read m]\<rparr>) \<and> message_is F (wrap_for_read m)"
proof -
  have F: "wf_frames F" "F \<noteq> []"
    using assms(2) by (auto simp: wf_message_def wf_frames_def)
  have m: "message_is F (wrap_for_read m)"
    using holds_message_is [OF assms(1) F(2)] assms(2) by (simp add: wf_message_def)
  have "is_flag_set UNFRAGMENTED_MESSAGE (wrap_for_read m) = Inr (True, wrap_for_read m)"
    using message_is_flags [OF m F(1)] assms(2) by (simp add: wf_message_def)
  with m show ?thesis
    by (simp add: complete_message_def Let_def)
qed

text \<open>What one call of \<open>on_data\<close> makes of the bytes in the buffer.\<close>

definition on_data_ok :: "byte list list \<Rightarrow> byte list list \<Rightarrow> byte list \<Rightarrow> byte_buffer \<Rightarrow> message_builder \<Rightarrow>
    bool \<Rightarrow> byte_buffer \<Rightarrow> message_builder \<Rightarrow> bool" where
  "on_data_ok fs gs bytes b mb completed b' mb' =
    (bb_inv b' \<and> bb_capacity b' = bb_capacity b \<and> bb_lim b' = bb_lim b \<and>
     (if completed
      then builder_message mb' = None \<and> bytes = concat gs @ bb_unread b' \<and>
        (\<exists>m. handled_messages mb' = handled_messages mb @ [m] \<and> message_is (fs @ gs) m)
      else handled_messages mb' = handled_messages mb \<and> length (bb_unread b') < 6 \<and>
        (\<exists>gs1 gs2 part. gs = gs1 @ gs2 \<and> building (fs @ gs1) gs2 part mb' \<and>
           bytes = concat gs1 @ part @ bb_unread b' \<and> (part = [] \<or> bb_unread b' = []))))"

lemma on_data_result:
  assumes "building fs gs part mb" "wf_message (fs @ gs)" "bb_inv b" "bb_unread b \<noteq> []"
    "part @ bb_unread b @ z = concat gs @ following"
  shows "\<exists>completed b' mb'. on_data b mb = Inr ((completed, b'), mb') \<and>
    on_data_ok fs gs (part @ bb_unread b) b mb completed b' mb'"
proof -
  define mb0 where "mb0 = (if builder_message mb = None
    then mb\<lparr>builder_message := Some empty_client_message, is_final_frame := False, remaining_frame_bytes := 0\<rparr> else mb)"
  define s where "s = \<lparr>fs_buffer = b, fs_message = the (builder_message mb0), fs_final = is_final_frame mb0,
    fs_remaining = remaining_frame_bytes mb0\<rparr>"
  have "in_progress fs gs part (fs_message s) (fs_final s) (fs_remaining s)"
    using assms(1) by (auto simp: building_def mb0_def s_def in_progress_def holds_def empty_client_message_def
        split: option.splits)
  then obtain s' where s': "fill_message_from s = Inr ((), s')" "bb_inv (fs_buffer s')"
    "bb_capacity (fs_buffer s') = bb_capacity b" "bb_lim (fs_buffer s') = bb_lim b"
    "filled fs gs (part @ bb_unread b) s'"
    using fill_message_filled [of fs gs part s z following] assms(3-5) by (auto simp: s_def)
  define mb1 where "mb1 = mb0\<lparr>builder_message := Some (fs_message s'), is_final_frame := fs_final s',
    remaining_frame_bytes := fs_remaining s'\<rparr>"
  have run: "on_data b mb = (if fs_final s' \<and> fs_remaining s' = 0 then
      (case complete_message (fs_message s') mb1 of Inl e \<Rightarrow> Inl e | Inr (_, mb2) \<Rightarrow> Inr ((True, fs_buffer s'), mb2))
    else Inr ((False, fs_buffer s'), mb1))"
    using s'(1) by (simp add: on_data_def Let_def mb0_def [symmetric] s_def [symmetric] mb1_def)
  have handled: "handled_messages mb1 = handled_messages mb"
    by (simp add: mb1_def mb0_def)
  from s'(5) [unfolded filled_def] show ?thesis
  proof
    assume c: "fs_final s' \<and> fs_remaining s' = 0 \<and> holds (fs @ gs) [] 0 (data_buffer (fs_message s')) \<and>
      part @ bb_unread b = concat gs @ bb_unread (fs_buffer s')"
    with complete_message_unfragmented [of "fs @ gs" "fs_message s'" mb1] assms(2) run handled s'(2-4)
    show ?thesis
      by (auto simp: on_data_ok_def)
  next
    assume "\<exists>gs1 gs2 part'. gs = gs1 @ gs2 \<and>
        in_progress (fs @ gs1) gs2 part' (fs_message s') (fs_final s') (fs_remaining s') \<and>
        part @ bb_unread b = concat gs1 @ part' @ bb_unread (fs_buffer s') \<and> length (bb_unread (fs_buffer s')) < 6 \<and>
        (part' = [] \<or> bb_unread (fs_buffer s') = [])"
    then obtain gs1 gs2 part' where p: "gs = gs1 @ gs2"
      "in_progress (fs @ gs1) gs2 part' (fs_message s') (fs_final s') (fs_remaining s')"
      "part @ bb_unread b = concat gs1 @ part' @ bb_unread (fs_buffer s')" "length (bb_unread (fs_buffer s')) < 6"
      "part' = [] \<or> bb_unread (fs_buffer s') = []"
      by (elim exE conjE)
    have "\<not> (fs_final s' \<and> fs_remaining s' = 0)"
      using p(2) by (auto simp: in_progress_def split: if_splits)
    with run have "on_data b mb = Inr ((False, fs_buffer s'), mb1)"
      by simp
    moreover have "building (fs @ gs1) gs2 part' mb1"
      using p(2) by (simp add: building_def mb1_def)
    ultimately show ?thesis
      using p s'(2-4) handled unfolding on_data_ok_def by auto
  qed
qed

section \<open>The read handler follows the stream\<close>

text \<open>\<open>i\<close> messages of the stream have been handed over; of the next one the frames \<open>fs\<close> and the part
  \<open>part\<close> have been taken in.\<close>

definition stream_at :: "byte list list list \<Rightarrow> nat \<Rightarrow> byte list list \<Rightarrow> byte list list \<Rightarrow> byte list \<Rightarrow>
    message_builder \<Rightarrow> bool" where
  "stream_at Ms i fs gs part mb =
    (i \<le> length Ms \<and> list_all2 message_is (take i Ms) (handled_messages mb) \<and>
     (if i = length Ms then fs = [] \<and> gs = [] \<and> part = [] \<and> builder_message mb = None
      else fs @ gs = Ms ! i \<and> building fs gs part mb))"

definition taken :: "byte list list list \<Rightarrow> nat \<Rightarrow> byte list list \<Rightarrow> byte list \<Rightarrow> byte list" where
  "taken Ms i fs part = concat (concat (take i Ms)) @ concat fs @ part"

lemma handle_loop_unfold: "handle_loop b mb =
  (if has_remaining b
   then case on_data b mb of
      Inl e \<Rightarrow> Some (Inl e)
    | Inr ((completed, b1), mb1) \<Rightarrow> if completed then handle_loop b1 mb1 else Some (Inr (b1, mb1))
   else Some (Inr (b, mb)))"
  by (rule handle_loop.simps)

definition loop_ok :: "byte list list list \<Rightarrow> byte list \<Rightarrow> byte_buffer \<Rightarrow> byte_buffer \<Rightarrow> message_builder \<Rightarrow> bool" where
  "loop_ok Ms bytes b b' mb' = (bb_inv b' \<and> bb_capacity b' = bb_capacity b \<and> bb_lim b' = bb_lim b \<and>
    length (bb_unread b') < 6 \<and>
    (\<exists>i fs gs part. stream_at Ms i fs gs part mb' \<and> bytes = taken Ms i fs part @ bb_unread b' \<and>
       (part = [] \<or> bb_unread b' = [])))"

lemma handle_loop_result:
  assumes "list_all wf_message Ms" "stream_at Ms i fs gs part mb" "bb_inv b"
    "taken Ms i fs part @ bb_unread b @ z = concat (concat Ms)"
  shows "\<exists>b' mb'. handle_loop b mb = Some (Inr (b', mb')) \<and>
    loop_ok Ms (taken Ms i fs part @ bb_unread b) b b' mb'"
  using assms
proof (induction "length Ms - i" arbitrary: i fs gs part mb b)
  case 0
  then have i: "i = length Ms"
    by (simp add: stream_at_def)
  with 0 have "bb_unread b = []"
    by (auto simp: stream_at_def taken_def)
  with 0 i show ?case
    using has_remaining_iff [of b] by (subst handle_loop_unfold) (auto simp: loop_ok_def)
next
  case (Suc k)
  then have i: "i < length Ms" "fs @ gs = Ms ! i" "building fs gs part mb"
    by (auto simp: stream_at_def)
  have F: "wf_message (fs @ gs)"
    using Suc.prems(1) i by (simp add: list_all_length)
  show ?case
  proof (cases "bb_unread b = []")
    case True
    with Suc.prems show ?thesis
      using has_remaining_iff [of b] by (subst handle_loop_unfold) (auto simp: loop_ok_def)
  next
    case False
    have split: "concat (concat Ms) = concat (concat (take i Ms)) @ concat (fs @ gs) @ concat (concat (drop (Suc i) Ms))"
      using id_take_nth_drop [OF i(1)] i(2) by (metis append.assoc concat.simps(2) concat_append)
    have "part @ bb_unread b @ z = concat gs @ concat (concat (drop (Suc i) Ms))"
      using Suc.prems(4) unfolding split taken_def by simp
    then obtain completed b1 mb1 where d: "on_data b mb = Inr ((completed, b1), mb1)"
      "on_data_ok fs gs (part @ bb_unread b) b mb completed b1 mb1"
      using on_data_result [OF i(3) F Suc.prems(3) False] by blast
    have handled: "list_all2 message_is (take i Ms) (handled_messages mb)"
      using Suc.prems(2) by (simp add: stream_at_def)
    have rem: "has_remaining b"
      using has_remaining_iff [OF Suc.prems(3)] False by simp
    show ?thesis
    proof (cases completed)
      case True
      obtain m where m: "bb_inv b1" "builder_message mb1 = None" "part @ bb_unread b = concat gs @ bb_unread b1"
        "handled_messages mb1 = handled_messages mb @ [m]" "message_is (fs @ gs) m"
        "bb_capacity b1 = bb_capacity b" "bb_lim b1 = bb_lim b"
        using d(2) True by (auto simp: on_data_ok_def)
      define gs' where "gs' = (if Suc i = length Ms then [] else Ms ! Suc i)"
      have "wf_frames gs'" if "Suc i < length Ms"
        using Suc.prems(1) that by (simp add: list_all_length wf_message_def gs'_def)
      then have "stream_at Ms (Suc i) [] gs' [] mb1"
        using m i handled by (auto simp: stream_at_def take_Suc_conv_app_nth list_all2_appendI building_def gs'_def)
      moreover have tk: "taken Ms (Suc i) [] [] = concat (concat (take i Ms)) @ concat fs @ concat gs"
        using i(1) by (simp add: taken_def take_Suc_conv_app_nth i(2) [symmetric])
      moreover have bytes: "taken Ms i fs part @ bb_unread b = taken Ms (Suc i) [] [] @ bb_unread b1"
        using m(3) unfolding tk by (simp add: taken_def)
      moreover have "taken Ms (Suc i) [] [] @ bb_unread b1 @ z = concat (concat Ms)"
        using bytes Suc.prems(4) by (metis append.assoc)
      moreover have "k = length Ms - Suc i"
        using Suc.hyps(2) by simp
      ultimately obtain b' mb' where "handle_loop b1 mb1 = Some (Inr (b', mb'))"
        "loop_ok Ms (taken Ms i fs part @ bb_unread b) b1 b' mb'"
        using Suc.hyps(1) [of "Suc i" "[]" gs' "[]" mb1 b1] Suc.prems(1) m(1) unfolding bytes by blast
      moreover from this(2) have "loop_ok Ms (taken Ms i fs part @ bb_unread b) b b' mb'"
        unfolding loop_ok_def m(6,7) .
      ultimately show ?thesis
        using True d(1) rem by (subst handle_loop_unfold) simp
    next
      case False
      then obtain gs1 gs2 part' where p: "bb_inv b1" "bb_capacity b1 = bb_capacity b" "bb_lim b1 = bb_lim b"
        "handled_messages mb1 = handled_messages mb" "length (bb_unread b1) < 6" "gs = gs1 @ gs2"
        "building (fs @ gs1) gs2 part' mb1" "part @ bb_unread b = concat gs1 @ part' @ bb_unread b1"
        "part' = [] \<or> bb_unread b1 = []"
        using d(2) by (auto simp: on_data_ok_def simp del: length_bb_unread)
      have "stream_at Ms i (fs @ gs1) gs2 part' mb1"
        using p i handled by (simp add: stream_at_def)
      moreover have "taken Ms i fs part @ bb_unread b = taken Ms i (fs @ gs1) part' @ bb_unread b1"
        using p(8) by (simp add: taken_def)
      ultimately have "loop_ok Ms (taken Ms i fs part @ bb_unread b) b b1 mb1"
        using p unfolding loop_ok_def by blast
      with False d(1) rem show ?thesis
        by (subst handle_loop_unfold) simp
    qed
  qed
qed

text \<open>How far the handler gets with the first \<open>r\<close> bytes of a stream of frames: a frame is taken in
  from its sixth byte on.\<close>

fun parse_pos :: "byte list list \<Rightarrow> nat \<Rightarrow> nat" where
  "parse_pos [] r = 0"
| "parse_pos (f # fs) r =
    (if r < 6 then 0 else if r < length f then r else length f + parse_pos fs (r - length f))"

lemma parse_pos_0 [simp]: "parse_pos fs 0 = 0"
  by (cases fs) simp_all

lemma parse_pos_append:
  "list_all (\<lambda>f. 6 \<le> length f) fs \<Longrightarrow>
    parse_pos (fs @ gs) (length (concat fs) + r) = length (concat fs) + parse_pos gs r"
  by (induction fs) auto

lemma wf_message_frames: "wf_message F \<Longrightarrow> list_all (\<lambda>f. 6 \<le> length f) F"
  by (auto simp: wf_message_def wf_frames_def wf_frame_def list_all_iff)

lemma parse_pos_taken:
  assumes "list_all wf_message Ms" "stream_at Ms i fs gs part mb" "length l < 6" "part = [] \<or> l = []"
    "taken Ms i fs part @ l @ z = concat (concat Ms)"
  shows "parse_pos (concat Ms) (length (taken Ms i fs part @ l)) = length (taken Ms i fs part)"
proof -
  obtain rest where fr: "concat Ms = (concat (take i Ms) @ fs) @ gs @ rest"
    and gs: "part = [] \<and> (gs = [] \<longrightarrow> l = []) \<or> gs \<noteq> [] \<and> 6 \<le> length part \<and> length part < length (hd gs)"
  proof (cases "i = length Ms")
    case True
    with assms(2,5) that [of "[]"] show thesis
      by (simp add: stream_at_def taken_def)
  next
    case False
    then have i: "i < length Ms" "fs @ gs = Ms ! i" "building fs gs part mb"
      using assms(2) by (auto simp: stream_at_def)
    have "concat Ms = (concat (take i Ms) @ fs) @ gs @ concat (drop (Suc i) Ms)"
      using id_take_nth_drop [OF i(1)] i(2) by (metis append.assoc concat.simps(2) concat_append)
    moreover have "part = [] \<and> (gs = [] \<longrightarrow> l = []) \<or> gs \<noteq> [] \<and> 6 \<le> length part \<and> length part < length (hd gs)"
      using i(3) building_wf [OF i(3)]
      by (auto simp: building_def in_progress_def wf_frames_def split: option.splits if_splits)
    ultimately show thesis
      by (rule that)
  qed
  have "list_all (\<lambda>f. 6 \<le> length f) (concat Ms)"
    using assms(1) wf_message_frames by (auto simp: list_all_iff)
  then have len: "list_all (\<lambda>f. 6 \<le> length f) (concat (take i Ms) @ fs)"
    unfolding fr by simp
  have "parse_pos (gs @ rest) (length (part @ l)) = length part"
    using gs assms(3,4) by (cases gs) (auto simp: not_less)
  with parse_pos_append [OF len, of "gs @ rest" "length (part @ l)"] show ?thesis
    unfolding fr taken_def by (simp add: add.assoc)
qed

text \<open>The state of the read handler between two reads, after the bytes \<open>bytes\<close>.\<close>

definition reader_at :: "byte list list list \<Rightarrow> nat \<Rightarrow> byte list \<Rightarrow> read_handler \<Rightarrow> bool" where
  "reader_at Ms cap bytes r =
    (bb_inv (rh_byte_buffer r) \<and> bb_capacity (rh_byte_buffer r) = cap \<and> bb_lim (rh_byte_buffer r) = cap \<and>
     length (bb_filled (rh_byte_buffer r)) < 6 \<and>
     (\<exists>i fs gs part. stream_at Ms i fs gs part (rh_builder r) \<and>
        bytes = taken Ms i fs part @ bb_filled (rh_byte_buffer r) \<and>
        (part = [] \<or> bb_filled (rh_byte_buffer r) = [])))"

lemma reader_at_start:
  assumes "cap < usize_max" "list_all wf_message Ms"
  shows "reader_at Ms cap [] (make_read_handler cap)"
proof -
  have "stream_at Ms 0 [] (if Ms = [] then [] else Ms ! 0) [] make_message_builder"
    using assms(2) by (cases Ms) (auto simp: stream_at_def make_message_builder_def building_def wf_message_def)
  moreover have "[] = taken Ms 0 [] [] @ bb_filled (rh_byte_buffer (make_read_handler cap))"
    by (simp add: make_read_handler_def make_byte_buffer_def bb_filled_def taken_def)
  moreover have "bb_inv (rh_byte_buffer (make_read_handler cap))" "bb_capacity (rh_byte_buffer (make_read_handler cap)) = cap"
    "bb_lim (rh_byte_buffer (make_read_handler cap)) = cap" "length (bb_filled (rh_byte_buffer (make_read_handler cap))) < 6"
    "rh_builder (make_read_handler cap) = make_message_builder"
    using assms(1) by (simp_all add: make_read_handler_def make_byte_buffer_def bb_inv_def bb_filled_def)
  ultimately show ?thesis
    unfolding reader_at_def by metis
qed

definition overlaps :: "byte list list list \<Rightarrow> nat \<Rightarrow> nat \<Rightarrow> bool" where
  "overlaps Ms r0 r1 =
    (let q0 = parse_pos (concat Ms) r0; q1 = parse_pos (concat Ms) r1 in q0 < q1 \<and> q1 - q0 < r1 - q1)"

lemma memcpy_overlap:
  assumes "bb_inv b"
  shows "compact b = Inl UndefinedBehaviour \<longleftrightarrow> 0 < bb_pos b \<and> bb_pos b < length (bb_unread b)"
  using assms by (auto simp: compact_def Let_def memcpy_ok_def bb_inv_def bb_remaining_def usize_sub_exact)

lemma store_filled:
  assumes "bb_inv b" "length c \<le> bb_lim b - bb_pos b"
  shows "\<exists>b1. safe_increment_position (length c) (b\<lparr>bb_buffer := overwrite (bb_pos b) c (bb_buffer b)\<rparr>) = Inr ((), b1) \<and>
    bb_inv b1 \<and> bb_filled b1 = bb_filled b @ c \<and> bb_pos b1 = bb_pos b + length c \<and> bb_lim b1 = bb_lim b \<and>
    bb_capacity b1 = bb_capacity b"
proof -
  have "usize_add (bb_pos b) (length c) = bb_pos b + length c" "bb_pos b + length c \<le> bb_capacity b"
    using assms by (auto simp: bb_inv_def usize_add_def)
  with assms show ?thesis
    by (auto simp: safe_increment_position_def bb_inv_def bb_filled_def overwrite_def)
qed

lemma finish_read:
  assumes "bb_inv b" "length (bb_unread b) < 6" "\<not> (0 < bb_pos b \<and> bb_pos b < length (bb_unread b))"
  shows "\<exists>b1. (if has_remaining b then compact b else Inr (clear b)) = Inr b1 \<and> bb_inv b1 \<and>
    bb_filled b1 = bb_unread b \<and> bb_capacity b1 = bb_capacity b \<and> bb_lim b1 = bb_capacity b"
proof (cases "has_remaining b")
  case True
  obtain b1 where "compact b = Inr b1" "bb_inv b1" "bb_filled b1 = bb_unread b" "bb_capacity b1 = bb_capacity b"
    using compact_result [OF assms(1)] assms(3) by auto
  moreover from this(1) have "bb_lim b1 = bb_capacity b"
    by (auto simp: compact_def Let_def split: if_splits)
  ultimately show ?thesis
    using True by simp
next
  case False
  with assms(1) clear_filled [OF assms(1)] has_remaining_iff [OF assms(1)] show ?thesis
    by (simp add: clear_def)
qed

lemma on_read_result:
  assumes "list_all wf_message Ms" "reader_at Ms cap bytes r" "bytes @ c @ z = concat (concat Ms)"
    "length c + 5 \<le> cap"
  shows "if overlaps Ms (length bytes) (length (bytes @ c)) then on_read c r = Inl UndefinedBehaviour
    else \<exists>r'. on_read c r = Inr ((), r') \<and> reader_at Ms cap (bytes @ c) r'"
proof -
  let ?b = "rh_byte_buffer r"
  obtain i fs gs part where r: "bb_inv ?b" "bb_capacity ?b = cap" "bb_lim ?b = cap" "length (bb_filled ?b) < 6"
    "stream_at Ms i fs gs part (rh_builder r)" "bytes = taken Ms i fs part @ bb_filled ?b"
    "part = [] \<or> bb_filled ?b = []"
    using assms(2) by (auto simp: reader_at_def)
  have pos: "length (bb_filled ?b) = bb_pos ?b"
    using r(1) by (simp add: bb_filled_def bb_inv_def)
  have fit: "length c \<le> bb_lim ?b - bb_pos ?b"
    using r(3,4) pos assms(4) by linarith
  obtain b1 where b1: "safe_increment_position (length c) (?b\<lparr>bb_buffer := overwrite (bb_pos ?b) c (bb_buffer ?b)\<rparr>) = Inr ((), b1)"
    "bb_inv b1" "bb_filled b1 = bb_filled ?b @ c" "bb_pos b1 = bb_pos ?b + length c" "bb_lim b1 = cap" "bb_capacity b1 = cap"
    using store_filled [OF r(1) fit] r(2,3) by auto
  have run: "on_read c r = handle (r\<lparr>rh_byte_buffer := b1\<rparr>)"
    using b1(1) r(1) fit by (simp add: on_read_def Let_def)
  have q0: "parse_pos (concat Ms) (length bytes) = length (taken Ms i fs part)"
    using parse_pos_taken [OF assms(1) r(5,4,7), of "c @ z"] assms(3) r(6) by simp
  show ?thesis
  proof (cases "bb_pos b1 = 0")
    case True
    then have c: "c = []"
      using b1(4) by simp
    have "on_read c r = Inr ((), r\<lparr>rh_byte_buffer := b1\<rparr>)"
      using run True by (simp add: handle_def)
    moreover have "reader_at Ms cap (bytes @ c) (r\<lparr>rh_byte_buffer := b1\<rparr>)"
      using r b1 c by (auto simp: reader_at_def)
    ultimately show ?thesis
      using c by (simp add: overlaps_def Let_def)
  next
    case False
    have fl: "bb_inv (flip b1)" "bb_unread (flip b1) = bb_filled ?b @ c" "bb_lim (flip b1) = bb_pos b1"
      "bb_capacity (flip b1) = cap"
      using flip_unread [OF b1(2)] b1(3,6) by (simp_all add: flip_def)
    have bytes: "taken Ms i fs part @ bb_unread (flip b1) = bytes @ c"
      using fl(2) r(6) by simp
    then have "taken Ms i fs part @ bb_unread (flip b1) @ z = concat (concat Ms)"
      using assms(3) by (metis append.assoc)
    from handle_loop_result [OF assms(1) r(5) fl(1) this] bytes
    obtain b' mb' where lp: "handle_loop (flip b1) (rh_builder r) = Some (Inr (b', mb'))"
      "loop_ok Ms (bytes @ c) (flip b1) b' mb'"
      by auto
    then obtain j fs' gs' part' where l: "bb_inv b'" "bb_capacity b' = cap" "bb_lim b' = bb_pos b1"
      "length (bb_unread b') < 6" "stream_at Ms j fs' gs' part' mb'"
      "bytes @ c = taken Ms j fs' part' @ bb_unread b'" "part' = [] \<or> bb_unread b' = []"
      using fl(3,4) unfolding loop_ok_def by (auto simp del: length_bb_unread)
    have q1: "parse_pos (concat Ms) (length (bytes @ c)) = length (taken Ms j fs' part')"
      using parse_pos_taken [OF assms(1) l(5,4,7), of z] assms(3) l(6) by (metis append.assoc)
    have pos': "length (bb_unread b') \<le> bb_pos b1" "bb_pos b' = bb_pos b1 - length (bb_unread b')"
      using l(1,3) length_bb_unread [OF l(1)] by (auto simp: bb_inv_def)
    have lens: "length (taken Ms i fs part) + bb_pos b1 = length (taken Ms j fs' part') + length (bb_unread b')"
      "length (bytes @ c) = length (taken Ms j fs' part') + length (bb_unread b')"
      using arg_cong [OF l(6), of length] r(6) pos b1(4) by simp_all
    have ov: "overlaps Ms (length bytes) (length (bytes @ c)) \<longleftrightarrow> 0 < bb_pos b' \<and> bb_pos b' < length (bb_unread b')"
      unfolding overlaps_def Let_def q0 q1 using lens pos' by linarith
    have hd: "handle (r\<lparr>rh_byte_buffer := b1\<rparr>) = (case if has_remaining b' then compact b' else Inr (clear b') of
        Inl e \<Rightarrow> Inl e | Inr b2 \<Rightarrow> Inr ((), r\<lparr>rh_byte_buffer := b2, rh_builder := mb'\<rparr>))"
      using lp(1) False by (simp add: handle_def split: sum.split)
    show ?thesis
    proof (cases "overlaps Ms (length bytes) (length (bytes @ c))")
      case True
      then have "has_remaining b'" "compact b' = Inl UndefinedBehaviour"
        using ov memcpy_overlap [OF l(1)] has_remaining_iff [OF l(1)] by auto
      with True run hd show ?thesis
        by simp
    next
      case False
      then obtain b2 where b2: "(if has_remaining b' then compact b' else Inr (clear b')) = Inr b2" "bb_inv b2"
        "bb_filled b2 = bb_unread b'" "bb_capacity b2 = bb_capacity b'" "bb_lim b2 = bb_capacity b'"
        using finish_read [OF l(1,4)] ov by blast
      then have "reader_at Ms cap (bytes @ c) (r\<lparr>rh_byte_buffer := b2, rh_builder := mb'\<rparr>)"
        using l unfolding reader_at_def by auto
      with False run hd b2(1) show ?thesis
        by simp
    qed
  qed
qed

section \<open>Properties\<close>

fun cuts_ok :: "byte list list list \<Rightarrow> nat \<Rightarrow> byte list list \<Rightarrow> bool" where
  "cuts_ok Ms r [] = True"
| "cuts_ok Ms r (c # cs) = (\<not> overlaps Ms r (r + length c) \<and> cuts_ok Ms (r + length c) cs)"

lemma reads_result:
  assumes "list_all wf_message Ms" "reader_at Ms cap bytes r" "bytes @ concat cs @ z = concat (concat Ms)"
    "list_all (\<lambda>c. length c + 5 \<le> cap) cs"
  shows "if cuts_ok Ms (length bytes) cs
    then \<exists>r'. siter on_read cs r = Inr ((), r') \<and> reader_at Ms cap (bytes @ concat cs) r'
    else siter on_read cs r = Inl UndefinedBehaviour"
  using assms
proof (induction cs arbitrary: bytes r)
  case (Cons c cs)
  have "bytes @ c @ (concat cs @ z) = concat (concat Ms)" "length c + 5 \<le> cap"
    using Cons.prems by simp_all
  note c = on_read_result [OF assms(1) Cons.prems(2) this]
  show ?case
  proof (cases "overlaps Ms (length bytes) (length (bytes @ c))")
    case True
    with c show ?thesis
      by (simp add: sthen_def sbind_def)
  next
    case False
    with c obtain r1 where r1: "on_read c r = Inr ((), r1)" "reader_at Ms cap (bytes @ c) r1"
      by auto
    from Cons.IH [OF assms(1) r1(2)] Cons.prems(3,4)
    have "if cuts_ok Ms (length (bytes @ c)) cs
      then \<exists>r'. siter on_read cs r1 = Inr ((), r') \<and> reader_at Ms cap (bytes @ concat (c # cs)) r'
      else siter on_read cs r1 = Inl UndefinedBehaviour"
      by (cases "cuts_ok Ms (length bytes + length c) cs") simp_all
    with r1(1) False show ?thesis
      by (cases "cuts_ok Ms (length bytes + length c) cs") (simp_all add: sthen_def sbind_def)
  qed
qed simp

lemma reader_at_end:
  assumes "list_all wf_message Ms" "reader_at Ms cap (concat (concat Ms)) r"
  shows "list_all2 message_is Ms (handled_messages (rh_builder r))"
proof -
  let ?l = "bb_filled (rh_byte_buffer r)"
  obtain i fs gs part where r: "length ?l < 6" "stream_at Ms i fs gs part (rh_builder r)"
    "concat (concat Ms) = taken Ms i fs part @ ?l" "part = [] \<or> ?l = []"
    using assms(2) by (auto simp: reader_at_def)
  have "i = length Ms"
  proof (rule ccontr)
    assume "i \<noteq> length Ms"
    then have i: "i < length Ms" "fs @ gs = Ms ! i" "building fs gs part (rh_builder r)"
      using r(2) by (auto simp: stream_at_def)
    have "concat (concat Ms) = concat (concat (take i Ms)) @ concat (fs @ gs) @ concat (concat (drop (Suc i) Ms))"
      using id_take_nth_drop [OF i(1)] i(2) by (metis append.assoc concat.simps(2) concat_append)
    with r(3) have rest: "part @ ?l = concat gs @ concat (concat (drop (Suc i) Ms))"
      by (simp add: taken_def)
    obtain g gs' where gs: "gs = g # gs'" "6 \<le> length g"
      using building_wf [OF i(3)] wf_frames_Cons(3) by (cases gs) (auto simp: wf_frames_def)
    have "length part < length g"
      using i(3) gs by (cases "part = []") (auto simp: building_def in_progress_def split: option.splits)
    with arg_cong [OF rest, of length] gs r(1,4) show False
      by auto
  qed
  with r(2) show ?thesis
    by (simp add: stream_at_def)
qed

text \<open>
  C17. The messages handed to the connection do not depend on how the stream is cut into reads:
  however the bytes of a sequence of unfragmented messages arrive, in reads that leave 5 bytes of
  the buffer free, exactly these messages are handed over, in order, each with all its frames
  contiguous and the cursor at its start.  The only exception are cuts after which \<open>compact\<close> moves
  bytes onto themselves by less than their number; then the behaviour is undefined.
\<close>

theorem stream_delivery:
  assumes "list_all wf_message Ms" "concat cs = concat (concat Ms)"
    "list_all (\<lambda>c. length c + 5 \<le> cap) cs" "cap < usize_max"
  shows "if cuts_ok Ms 0 cs
    then \<exists>r. siter on_read cs (make_read_handler cap) = Inr ((), r) \<and>
      list_all2 message_is Ms (handled_messages (rh_builder r))
    else siter on_read cs (make_read_handler cap) = Inl UndefinedBehaviour"
proof -
  have "[] @ concat cs @ [] = concat (concat Ms)"
    using assms(2) by simp
  from reads_result [OF assms(1) reader_at_start [OF assms(4,1)] this assms(3)] show ?thesis
    using reader_at_end [OF assms(1)] by (auto simp: assms(2))
qed

text \<open>A response of 22 bytes in one frame, and its stream.\<close>

definition small_frame :: "byte list" where
  "small_frame = header_bytes \<lparr>frame_len = 22, frame_flags = UNFRAGMENTED_MESSAGE OR IS_FINAL_FLAG\<rparr> @ replicate 16 7"

lemma small_frame_wf: "wf_message [small_frame]" "length small_frame = 22"
  by (simp_all add: wf_message_def wf_frames_def wf_frame_def small_frame_def is_final_flag_def usize_max_def
      flag_set_def UNFRAGMENTED_MESSAGE_def BEGIN_FRAGMENT_FLAG_def END_FRAGMENT_FLAG_def IS_FINAL_FLAG_def)

text \<open>Two messages in three reads, the first read ending inside the header of the second message.
  The second read of the second witness brings the rest of a frame and 5 bytes of the next header:
  the one byte before them is too little room to move them.\<close>

theorem stream_delivery_witness:
  "(\<exists>r. siter on_read [small_frame @ take 4 small_frame, drop 4 small_frame] (make_read_handler 64) = Inr ((), r) \<and>
     list_all2 message_is [[small_frame], [small_frame]] (handled_messages (rh_builder r))) \<and>
   siter on_read [take 21 small_frame, drop 21 small_frame @ take 5 small_frame, drop 5 small_frame] (make_read_handler 64) =
     Inl UndefinedBehaviour"
proof -
  let ?Ms = "[[small_frame], [small_frame]]"
  have Ms: "list_all wf_message ?Ms" "(64 :: nat) < usize_max"
    by (simp_all add: small_frame_wf usize_max_def)
  have del: "if cuts_ok ?Ms 0 [small_frame @ take 4 small_frame, drop 4 small_frame]
    then \<exists>r. siter on_read [small_frame @ take 4 small_frame, drop 4 small_frame] (make_read_handler 64) = Inr ((), r) \<and>
      list_all2 message_is ?Ms (handled_messages (rh_builder r))
    else siter on_read [small_frame @ take 4 small_frame, drop 4 small_frame] (make_read_handler 64) = Inl UndefinedBehaviour"
    by (rule stream_delivery [OF Ms(1) _ _ Ms(2)]) (simp_all add: small_frame_wf)
  have ok: "cuts_ok ?Ms 0 [small_frame @ take 4 small_frame, drop 4 small_frame]"
    by (simp add: overlaps_def small_frame_wf Let_def)
  have cat: "take 21 small_frame @ drop 21 small_frame @ take 5 small_frame @ drop 5 small_frame = small_frame @ small_frame"
    by (metis append.assoc append_take_drop_id)
  have ub: "if cuts_ok ?Ms 0 [take 21 small_frame, drop 21 small_frame @ take 5 small_frame, drop 5 small_frame]
    then \<exists>r. siter on_read [take 21 small_frame, drop 21 small_frame @ take 5 small_frame, drop 5 small_frame]
        (make_read_handler 64) = Inr ((), r) \<and> list_all2 message_is ?Ms (handled_messages (rh_builder r))
    else siter on_read [take 21 small_frame, drop 21 small_frame @ take 5 small_frame, drop 5 small_frame]
        (make_read_handler 64) = Inl UndefinedBehaviour"
    by (rule stream_delivery [OF Ms(1) _ _ Ms(2)]) (simp_all add: small_frame_wf cat)
  have bad: "\<not> cuts_ok ?Ms 0 [take 21 small_frame, drop 21 small_frame @ take 5 small_frame, drop 5 small_frame]"
    by (simp add: overlaps_def small_frame_wf Let_def)
  show ?thesis
    by (intro conjI del [unfolded eqTrueI [OF ok] if_True] ub [unfolded eq_False [THEN iffD2, OF bad] if_False])
qed

section \<open>Fragments\<close>

definition fragmentation_frame :: "i64 \<Rightarrow> 16 word \<Rightarrow> byte list" where
  "fragmentation_frame fid fl = header_bytes \<lparr>frame_len = 14, frame_flags = fl\<rparr> @ le_bytes 8 fid"

lemma length_fragmentation_frame [simp]: "length (fragmentation_frame fid fl) = 14"
  by (simp add: fragmentation_frame_def)

text \<open>A complete message that is a fragment: the buffers without the fragmentation frame are \<open>bs\<close>.\<close>

definition is_fragment :: "i64 \<Rightarrow> 16 word \<Rightarrow> msg_buffer list \<Rightarrow> msg \<Rightarrow> bool" where
  "is_fragment fid fl bs m = (case bs of [] \<Rightarrow> False | b # bs' \<Rightarrow>
    data_buffer m = b\<lparr>buf_bytes := fragmentation_frame fid fl @ buf_bytes b\<rparr> # bs')"

definition fragment_body :: "msg_buffer list \<Rightarrow> msg \<Rightarrow> msg" where
  "fragment_body bs m = m\<lparr>data_buffer := bs, buffer_index := 0, msg_offset := 14\<rparr>"

lemma complete_fragment:
  assumes "is_fragment fid fl bs m" "\<not> flag_set fl UNFRAGMENTED_MESSAGE"
  shows "complete_message m mb =
    (if flag_set fl BEGIN_FRAGMENT_FLAG then Inr ((), add_to_partial_messages fid (fragment_body bs m) mb)
     else case append_existing_partial_message fid (fragment_body bs m) (flag_set fl END_FRAGMENT_FLAG) mb of
       Inl e \<Rightarrow> Inl e | Inr (_, mb1) \<Rightarrow> Inr ((), mb1))"
proof -
  obtain b bs' where bs: "bs = b # bs'"
    "data_buffer m = b\<lparr>buf_bytes := fragmentation_frame fid fl @ buf_bytes b\<rparr> # bs'"
    using assms(1) by (auto simp: is_fragment_def split: list.splits)
  let ?m = "wrap_for_read m"
  have sl: "slice 4 2 (fragmentation_frame fid fl @ buf_bytes b) = le_bytes 2 fl"
    "slice 6 8 (fragmentation_frame fid fl @ buf_bytes b) = le_bytes 8 fid"
    by (simp_all add: slice_def fragmentation_frame_def header_bytes_def)
  have fl: "get_header_flags m' = Inr (fl, m')" if "data_buffer m' = data_buffer m" for m' :: msg
    using that bs(2) sl(1) by (simp add: get_header_flags_def sbind_def ptr_load_def)
  have skip: "skip_bytes 6 ?m = Inr ((), ?m\<lparr>msg_offset := 6\<rparr>)"
    using bs(2) by (simp add: skip_bytes_def wrap_for_read_def rd_ptr_def peek_def sthen_def sbind_def usize_add_def usize_max_def)
  have get: "get_int64 (?m\<lparr>msg_offset := 6\<rparr>) = Inr (fid, ?m\<lparr>msg_offset := 14\<rparr>)"
    using bs(2) sl(2) by (simp add: get_int64_def rd_bytes_def wrap_for_read_def rd_ptr_def peek_def sbind_def
        usize_add_def usize_max_def ptr_load_def)
  have drp: "drop_fragmentation_frame (?m\<lparr>msg_offset := 14\<rparr>) = Inr ((), fragment_body bs m)"
    using bs by (simp add: drop_fragmentation_frame_def wrap_for_read_def fragment_body_def)
  have "sthen (skip_bytes 6) (sbind get_int64 (\<lambda>fid. sbind get_header_flags (\<lambda>flags.
      sthen drop_fragmentation_frame (sreturn (fid, flags))))) ?m = Inr ((fid, fl), fragment_body bs m)"
    using fl [of "?m\<lparr>msg_offset := 14\<rparr>"] skip get drp by (simp add: sthen_def sbind_def wrap_for_read_def)
  moreover have "is_flag_set UNFRAGMENTED_MESSAGE ?m = Inr (False, ?m)"
    using fl [of ?m] assms(2) by (simp add: is_flag_set_def sbind_def wrap_for_read_def)
  ultimately show ?thesis
    by (simp add: complete_message_def Let_def)
qed

definition buffers_bytes :: "msg_buffer list \<Rightarrow> byte list" where
  "buffers_bytes bs = concat (map buf_bytes bs)"

lemma append_fragment_bytes [simp]:
  "msg_bytes (append_message found (fragment_body bs m)) = msg_bytes found @ buffers_bytes bs"
  by (simp add: msg_bytes_def append_message_def fragment_body_def buffers_bytes_def comp_def)

lemma fragment_body_bytes [simp]: "msg_bytes (fragment_body bs m) = buffers_bytes bs"
  by (simp add: msg_bytes_def fragment_body_def buffers_bytes_def)

lemma middle_fragments:
  assumes "list_all (\<lambda>(bs, m). is_fragment fid 0 bs m) frags" "map_of (partial_messages mb) fid = Some found"
  shows "\<exists>mb' found'. siter complete_message (map snd frags) mb = Inr ((), mb') \<and>
    map_of (partial_messages mb') = (map_of (partial_messages mb))(fid \<mapsto> found') \<and>
    handled_messages mb' = handled_messages mb \<and>
    msg_bytes found' = msg_bytes found @ concat (map (buffers_bytes \<circ> fst) frags)"
  using assms
proof (induction frags arbitrary: mb found)
  case Nil
  then show ?case
    by (intro exI [of _ mb] exI [of _ found]) (auto simp: fun_upd_idem)
next
  case (Cons p frags)
  obtain bs m where p: "p = (bs, m)" "is_fragment fid 0 bs m"
    using Cons.prems(1) by auto
  let ?f = "append_message found (fragment_body bs m)"
  let ?mb1 = "mb\<lparr>partial_messages := AList.update fid ?f (partial_messages mb), builder_message := None\<rparr>"
  have flags: "\<not> flag_set 0 UNFRAGMENTED_MESSAGE" "\<not> flag_set 0 BEGIN_FRAGMENT_FLAG" "\<not> flag_set 0 END_FRAGMENT_FLAG"
    by (simp_all add: flag_set_def UNFRAGMENTED_MESSAGE_def BEGIN_FRAGMENT_FLAG_def END_FRAGMENT_FLAG_def)
  have step: "complete_message m mb = Inr ((), ?mb1)"
    using complete_fragment [OF p(2) flags(1), of mb] flags Cons.prems(2)
    by (simp add: append_existing_partial_message_def Let_def)
  have "map_of (partial_messages ?mb1) fid = Some ?f"
    by (simp add: update_conv')
  moreover have "list_all (\<lambda>(bs, m). is_fragment fid 0 bs m) frags"
    using Cons.prems(1) by simp
  ultimately obtain mb' found' where
    "siter complete_message (map snd frags) ?mb1 = Inr ((), mb')"
    "map_of (partial_messages mb') = (map_of (partial_messages ?mb1))(fid \<mapsto> found')"
    "handled_messages mb' = handled_messages ?mb1"
    "msg_bytes found' = msg_bytes ?f @ concat (map (buffers_bytes \<circ> fst) frags)"
    using Cons.IH [of ?mb1 ?f] by blast
  with step p(1) show ?case
    by (intro exI [of _ mb'] exI [of _ found']) (simp add: sthen_def sbind_def update_conv' comp_def)
qed

text \<open>
  C18. The fragments of a message, a beginning, any number of middle ones and an ending one with the
  same fragmentation id, are reassembled into one message that consists of their bytes without the
  fragmentation frames, in order; it is handed over once, and nothing is left in the table of
  partial messages for this id.
\<close>

theorem fragments_reassembled:
  assumes "is_fragment fid BEGIN_FRAGMENT_FLAG bs0 m0" "list_all (\<lambda>(bs, m). is_fragment fid 0 bs m) frags"
    "is_fragment fid END_FRAGMENT_FLAG bs1 m1"
  shows "\<exists>mb' m. siter complete_message (m0 # map snd frags @ [m1]) mb = Inr ((), mb') \<and>
    handled_messages mb' = handled_messages mb @ [m] \<and>
    msg_bytes m = buffers_bytes bs0 @ concat (map (buffers_bytes \<circ> fst) frags) @ buffers_bytes bs1 \<and>
    buffer_index m = 0 \<and> msg_offset m = 0 \<and>
    map_of (partial_messages mb') = (map_of (partial_messages mb))(fid := None)"
proof -
  have flags: "\<not> flag_set BEGIN_FRAGMENT_FLAG UNFRAGMENTED_MESSAGE" "flag_set BEGIN_FRAGMENT_FLAG BEGIN_FRAGMENT_FLAG"
    "\<not> flag_set END_FRAGMENT_FLAG UNFRAGMENTED_MESSAGE" "\<not> flag_set END_FRAGMENT_FLAG BEGIN_FRAGMENT_FLAG"
    "flag_set END_FRAGMENT_FLAG END_FRAGMENT_FLAG"
    by (simp_all add: flag_set_def UNFRAGMENTED_MESSAGE_def BEGIN_FRAGMENT_FLAG_def END_FRAGMENT_FLAG_def)
  let ?mb0 = "add_to_partial_messages fid (fragment_body bs0 m0) mb"
  have first: "complete_message m0 mb = Inr ((), ?mb0)"
    using complete_fragment [OF assms(1) flags(1)] flags(2) by simp
  have "map_of (partial_messages ?mb0) fid = Some (fragment_body bs0 m0)"
    by (simp add: add_to_partial_messages_def update_conv')
  from middle_fragments [OF assms(2) this] obtain mb1 found where mb1:
    "siter complete_message (map snd frags) ?mb0 = Inr ((), mb1)"
    "map_of (partial_messages mb1) = (map_of (partial_messages ?mb0))(fid \<mapsto> found)"
    "handled_messages mb1 = handled_messages mb"
    "msg_bytes found = msg_bytes (fragment_body bs0 m0) @ concat (map (buffers_bytes \<circ> fst) frags)"
    by (auto simp: add_to_partial_messages_def)
  let ?m = "wrap_for_read (append_message found (fragment_body bs1 m1))"
  have last: "complete_message m1 mb1 = Inr ((), mb1\<lparr>partial_messages := AList.delete fid (partial_messages mb1),
      builder_message := None, handled_messages := handled_messages mb1 @ [?m]\<rparr>)"
    using complete_fragment [OF assms(3) flags(3), of mb1] flags(4,5) mb1(2)
    by (simp add: append_existing_partial_message_def Let_def)
  have "siter complete_message (m0 # map snd frags @ [m1]) mb =
    Inr ((), mb1\<lparr>partial_messages := AList.delete fid (partial_messages mb1),
      builder_message := None, handled_messages := handled_messages mb1 @ [?m]\<rparr>)"
    using first mb1(1) last by (simp add: siter_append sthen_def sbind_def)
  moreover have "msg_bytes ?m = buffers_bytes bs0 @ concat (map (buffers_bytes \<circ> fst) frags) @ buffers_bytes bs1"
  proof -
    have "msg_bytes ?m = msg_bytes (append_message found (fragment_body bs1 m1))"
      by (simp add: msg_bytes_def wrap_for_read_def)
    then show ?thesis
      using mb1(4) by simp
  qed
  moreover have "map_of (AList.delete fid (partial_messages mb1)) = (map_of (partial_messages mb))(fid := None)"
    using mb1(2) by (auto simp: delete_conv' add_to_partial_messages_def update_conv')
  ultimately show ?thesis
    using mb1(3) by (auto simp: wrap_for_read_def)
qed

definition fragment_of :: "i64 \<Rightarrow> 16 word \<Rightarrow> byte list \<Rightarrow> msg" where
  "fragment_of fid fl bytes = empty_client_message\<lparr>data_buffer :=
    [\<lparr>buf_bytes = fragmentation_frame fid fl @ bytes, buf_capacity = 1024\<rparr>]\<rparr>"

lemma fragment_of_is: "is_fragment fid fl [\<lparr>buf_bytes = bytes, buf_capacity = 1024\<rparr>] (fragment_of fid fl bytes)"
  by (simp add: is_fragment_def fragment_of_def)

theorem fragments_reassembled_witness:
  "\<exists>mb' m. siter complete_message [fragment_of 9 BEGIN_FRAGMENT_FLAG [1, 2], fragment_of 9 0 [3],
      fragment_of 9 END_FRAGMENT_FLAG [4, 5]] make_message_builder = Inr ((), mb') \<and>
    handled_messages mb' = [m] \<and> msg_bytes m = [1, 2, 3, 4, 5] \<and> map_of (partial_messages mb') = Map.empty"
  using fragments_reassembled [OF fragment_of_is [of 9 BEGIN_FRAGMENT_FLAG "[1, 2]"] _
      fragment_of_is [of 9 END_FRAGMENT_FLAG "[4, 5]"],
      of "[([\<lparr>buf_bytes = [3], buf_capacity = 1024\<rparr>], fragment_of 9 0 [3])]" make_message_builder]
  by (auto simp: fragment_of_is make_message_builder_def buffers_bytes_def simp del: siter.simps)

text \<open>
  C19. A fragment whose first frame behind the fragmentation frame does not fit into the first
  buffer (more than 1010 bytes) leaves an empty buffer in the reassembled message.  A reader that
  has consumed everything in front of it cannot go on: the next read throws although the bytes are
  there, because the cursor skips one exhausted buffer only.
\<close>

theorem fragment_leaves_empty_buffer:
  assumes "1010 < length g" "data_buffer found \<noteq> []" "0 < n \<and> n < usize_max"
    "map_of (partial_messages mb) fid = Some found"
    "m = empty_client_message\<lparr>data_buffer :=
      put_reserved (length g) g (put_reserved 14 (fragmentation_frame fid END_FRAGMENT_FLAG) [])\<rparr>"
  shows "\<exists>mb' whole. complete_message m mb = Inr ((), mb') \<and> handled_messages mb' = handled_messages mb @ [whole] \<and>
    msg_bytes whole = msg_bytes found @ g \<and>
    rd_ptr n (whole\<lparr>buffer_index := length (data_buffer found) - 1,
      msg_offset := length (buf_bytes (last (data_buffer found)))\<rparr>) = Inl HazelcastSerialization"
proof -
  let ?bs = "[\<lparr>buf_bytes = [], buf_capacity = 1024\<rparr>, \<lparr>buf_bytes = g, buf_capacity = max 1024 (length g)\<rparr>]"
  have m: "is_fragment fid END_FRAGMENT_FLAG ?bs m"
    using assms(1) by (simp add: assms(5) is_fragment_def put_reserved_def EXPECTED_DATA_BLOCK_SIZE_def)
  have flags: "\<not> flag_set END_FRAGMENT_FLAG UNFRAGMENTED_MESSAGE" "\<not> flag_set END_FRAGMENT_FLAG BEGIN_FRAGMENT_FLAG"
    "flag_set END_FRAGMENT_FLAG END_FRAGMENT_FLAG"
    by (simp_all add: flag_set_def UNFRAGMENTED_MESSAGE_def BEGIN_FRAGMENT_FLAG_def END_FRAGMENT_FLAG_def)
  define whole where "whole = wrap_for_read (append_message found (fragment_body ?bs m))"
  have "complete_message m mb = Inr ((), mb\<lparr>partial_messages := AList.delete fid (partial_messages mb),
      builder_message := None, handled_messages := handled_messages mb @ [whole]\<rparr>)"
    using complete_fragment [OF m flags(1), of mb] flags(2,3) assms(4)
    by (simp add: append_existing_partial_message_def Let_def whole_def)
  moreover have "msg_bytes whole = msg_bytes found @ g"
    by (simp add: whole_def wrap_for_read_def append_message_def msg_bytes_def fragment_body_def)
  moreover have "rd_ptr n (whole\<lparr>buffer_index := length (data_buffer found) - 1,
      msg_offset := length (buf_bytes (last (data_buffer found)))\<rparr>) = Inl HazelcastSerialization"
  proof -
    obtain bs0 b where bs: "data_buffer found = bs0 @ [b]"
      using assms(2) by (cases "data_buffer found" rule: rev_cases) auto
    have "usize_add 0 n = n"
      using assms(3) by (simp add: usize_add_def)
    have d: "data_buffer whole = bs0 @ [b, \<lparr>buf_bytes = [], buf_capacity = 0\<rparr>, \<lparr>buf_bytes = g, buf_capacity = length g\<rparr>]"
      by (simp add: whole_def wrap_for_read_def append_message_def fragment_body_def bs)
    with \<open>usize_add 0 n = n\<close> show ?thesis
      using assms(3) by (simp add: rd_ptr_def peek_def sbind_def d bs nth_append Let_def)
  qed
  ultimately show ?thesis
    by auto
qed

theorem fragment_leaves_empty_buffer_witness:
  "\<exists>mb' whole. complete_message (empty_client_message\<lparr>data_buffer :=
      put_reserved (length (replicate 1011 7)) (replicate 1011 7) (put_reserved 14 (fragmentation_frame 9 END_FRAGMENT_FLAG) [])\<rparr>)
      (make_message_builder\<lparr>partial_messages := [(9, fresh_message)]\<rparr>) = Inr ((), mb') \<and>
    handled_messages mb' = handled_messages (make_message_builder\<lparr>partial_messages := [(9, fresh_message)]\<rparr>) @ [whole] \<and>
    msg_bytes whole = msg_bytes fresh_message @ replicate 1011 7 \<and>
    rd_ptr 6 (whole\<lparr>buffer_index := length (data_buffer fresh_message) - 1,
      msg_offset := length (buf_bytes (last (data_buffer fresh_message)))\<rparr>) = Inl HazelcastSerialization"
  by (rule fragment_leaves_empty_buffer) (simp_all add: fresh_message_def usize_max_def)

end
