(* ===== verification/Call_Id.thy ===== *)
theory Call_Id
  imports Util_Numeric
begin

text \<open>
  Call identifiers and back pressure: \<open>CallIdSequenceWithoutBackpressure\<close>, \<open>AbstractCallIdSequence\<close>,
  \<open>CallIdSequenceWithBackpressure\<close>, \<open>FailFastCallIdSequence\<close> and \<open>CallIdFactory\<close> (\<open>spi.cpp\<close>).

  The counters are atomic 64-bit integers.  While a caller waits for space, other threads change the
  sequence: what the waiting caller observes, the elapsed time and the sequence after each pause, is
  an argument of \<open>handle_no_space_left\<close>.

  The theorems show that identifiers are not reused, that the number of outstanding invocations is
  the difference of the counters, that one caller at a time never exceeds the limit and by how much
  several callers can exceed it, and that waiting ends.
\<close>

section \<open>State and operations\<close>

record abstract_seq =
  max_concurrent_invocations :: i32
  seq_head :: i64
  seq_tail :: i64

datatype call_id_sequence =
    Without_Backpressure i64
  | Fail_Fast abstract_seq
  | With_Backpressure abstract_seq i64

definition make_abstract_seq :: "i32 \<Rightarrow> abstract_seq res" where
  "make_abstract_seq n =
    (case check_positive n of
       Inl e \<Rightarrow> Inl e
     | Inr n \<Rightarrow> Inr \<lparr>max_concurrent_invocations = n, seq_head = 0, seq_tail = 0\<rparr>)"

definition make_backpressure_seq :: "i32 \<Rightarrow> i64 \<Rightarrow> call_id_sequence res" where
  "make_backpressure_seq n backoff_timeout_ms =
    (case make_abstract_seq n of
       Inl e \<Rightarrow> Inl e
     | Inr s \<Rightarrow> if sint backoff_timeout_ms \<le> 0 then Inl IllegalArgument
         else if 2 ^ 63 \<le> sint backoff_timeout_ms * 1000000 then Inl UndefinedBehaviour
         else Inr (With_Backpressure s (backoff_timeout_ms * 1000000)))"

definition new_call_id_sequence :: "bool \<Rightarrow> i32 \<Rightarrow> i64 \<Rightarrow> call_id_sequence res" where
  "new_call_id_sequence is_back_pressure_enabled max_allowed backoff_timeout_ms =
    (if \<not> is_back_pressure_enabled then Inr (Without_Backpressure 0)
     else if sint backoff_timeout_ms \<le> 0
     then (case make_abstract_seq max_allowed of Inl e \<Rightarrow> Inl e | Inr s \<Rightarrow> Inr (Fail_Fast s))
     else make_backpressure_seq max_allowed backoff_timeout_ms)"

definition has_space :: "abstract_seq \<Rightarrow> bool" where
  "has_space s = (sint (seq_head s - seq_tail s) < sint (max_concurrent_invocations s))"

definition seq_force_next :: "abstract_seq \<Rightarrow> i64 \<times> abstract_seq" where
  "seq_force_next s = (seq_head s + 1, s\<lparr>seq_head := seq_head s + 1\<rparr>)"

definition seq_complete :: "abstract_seq \<Rightarrow> abstract_seq res" where
  "seq_complete s =
    (let s1 = s\<lparr>seq_tail := seq_tail s + 1\<rparr>
     in if sint (seq_tail s1) \<le> sint (seq_head s1) then Inr s1 else Inl AssertFailure)"

definition IDLER :: backoff_idle_strategy where
  "IDLER = projr (make_backoff 0 0 1000000 500000000)"

text \<open>The pauses made before the result is known, and the result: an error, or the sequence in which
  space was seen.  Without a result the caller is still waiting.\<close>

fun handle_no_space_left :: "i64 \<Rightarrow> i64 \<Rightarrow> (i64 \<times> abstract_seq) list \<Rightarrow> idle_action list \<times> abstract_seq res option" where
  "handle_no_space_left timeout idle_count [] = ([], None)"
| "handle_no_space_left timeout idle_count ((elapsed, s) # obs) =
    (if sint timeout < sint elapsed then ([], Some (Inl HazelcastOverload))
     else let pause = fst (idle IDLER idle_count) in
       if has_space s then ([pause], Some (Inr s))
       else let (ps, r) = handle_no_space_left timeout (idle_count + 1) obs in (pause # ps, r))"

fun next_id :: "call_id_sequence \<Rightarrow> (i64 \<times> abstract_seq) list \<Rightarrow> (i64 \<times> call_id_sequence) res option" where
  "next_id (Without_Backpressure h) obs = Some (Inr (h + 1, Without_Backpressure (h + 1)))"
| "next_id (Fail_Fast s) obs =
    (if has_space s then let (i, s1) = seq_force_next s in Some (Inr (i, Fail_Fast s1))
     else Some (Inl HazelcastOverload))"
| "next_id (With_Backpressure s timeout) obs =
    (if has_space s then let (i, s1) = seq_force_next s in Some (Inr (i, With_Backpressure s1 timeout))
     else case snd (handle_no_space_left timeout 0 obs) of
       None \<Rightarrow> None
     | Some (Inl e) \<Rightarrow> Some (Inl e)
     | Some (Inr s') \<Rightarrow> let (i, s1) = seq_force_next s' in Some (Inr (i, With_Backpressure s1 timeout)))"

fun force_next :: "call_id_sequence \<Rightarrow> i64 \<times> call_id_sequence" where
  "force_next (Without_Backpressure h) = (h + 1, Without_Backpressure (h + 1))"
| "force_next (Fail_Fast s) = (let (i, s1) = seq_force_next s in (i, Fail_Fast s1))"
| "force_next (With_Backpressure s timeout) = (let (i, s1) = seq_force_next s in (i, With_Backpressure s1 timeout))"

fun complete :: "call_id_sequence \<Rightarrow> call_id_sequence res" where
  "complete (Without_Backpressure h) = Inr (Without_Backpressure h)"
| "complete (Fail_Fast s) = (case seq_complete s of Inl e \<Rightarrow> Inl e | Inr s1 \<Rightarrow> Inr (Fail_Fast s1))"
| "complete (With_Backpressure s timeout) =
    (case seq_complete s of Inl e \<Rightarrow> Inl e | Inr s1 \<Rightarrow> Inr (With_Backpressure s1 timeout))"

fun get_last_call_id :: "call_id_sequence \<Rightarrow> i64" where
  "get_last_call_id (Without_Backpressure h) = h"
| "get_last_call_id (Fail_Fast s) = seq_head s"
| "get_last_call_id (With_Backpressure s timeout) = seq_head s"

fun get_max_concurrent_invocations :: "call_id_sequence \<Rightarrow> i32" where
  "get_max_concurrent_invocations (Without_Backpressure h) = 2147483647"
| "get_max_concurrent_invocations (Fail_Fast s) = max_concurrent_invocations s"
| "get_max_concurrent_invocations (With_Backpressure s timeout) = max_concurrent_invocations s"

section \<open>The contract of a sequence\<close>

text \<open>A caller takes an identifier and gives its slot back later; \<open>run_calls\<close> runs such requests and
  collects the identifiers.\<close>

datatype call_request = Issue | Finish

fun run_calls :: "('s \<Rightarrow> i64 \<times> 's) \<Rightarrow> ('s \<Rightarrow> 's res) \<Rightarrow> 's \<Rightarrow> call_request list \<Rightarrow> (i64 list \<times> 's) res" where
  "run_calls nxt fin s [] = Inr ([], s)"
| "run_calls nxt fin s (Issue # rs) =
    (let (i, s1) = nxt s in
     case run_calls nxt fin s1 rs of Inl e \<Rightarrow> Inl e | Inr (ids, s2) \<Rightarrow> Inr (i # ids, s2))"
| "run_calls nxt fin s (Finish # rs) =
    (case fin s of Inl e \<Rightarrow> Inl e | Inr s1 \<Rightarrow> run_calls nxt fin s1 rs)"

text \<open>No request gives back more slots than are out, starting with \<open>n\<close> out.\<close>

fun balanced :: "nat \<Rightarrow> call_request list \<Rightarrow> bool" where
  "balanced n [] = True"
| "balanced n (Issue # rs) = balanced (Suc n) rs"
| "balanced n (Finish # rs) = (0 < n \<and> balanced (n - 1) rs)"

abbreviation issues :: "call_request list \<Rightarrow> nat" where
  "issues rs \<equiv> count_list rs Issue"

abbreviation finishes :: "call_request list \<Rightarrow> nat" where
  "finishes rs \<equiv> count_list rs Finish"

locale call_ids =
  fixes nxt :: "'s \<Rightarrow> i64 \<times> 's" and fin :: "'s \<Rightarrow> 's res" and inv :: "nat \<Rightarrow> nat \<Rightarrow> 's \<Rightarrow> bool"
  assumes nxt_inv: "\<lbrakk>inv i c s; Suc i < 2 ^ 63\<rbrakk> \<Longrightarrow> \<exists>s'. nxt s = (of_nat (Suc i), s') \<and> inv (Suc i) c s'"
    and fin_inv: "\<lbrakk>inv i c s; c < i\<rbrakk> \<Longrightarrow> \<exists>s'. fin s = Inr s' \<and> inv i (Suc c) s'"
begin

lemma run:
  assumes "inv i c s" "c \<le> i" "balanced (i - c) rs" "i + issues rs < 2 ^ 63"
  shows "\<exists>s'. run_calls nxt fin s rs = Inr (map of_nat [Suc i..<Suc (i + issues rs)], s') \<and>
    inv (i + issues rs) (c + finishes rs) s' \<and> c + finishes rs \<le> i + issues rs"
  using assms
proof (induction rs arbitrary: i c s)
  case Nil
  then show ?case by simp
next
  case (Cons r rs)
  show ?case
  proof (cases r)
    case Issue
    then obtain s1 where s1: "nxt s = (of_nat (Suc i), s1)" "inv (Suc i) c s1"
      using nxt_inv [OF Cons.prems(1)] Cons.prems(4) by auto
    have "balanced (Suc i - c) rs" "Suc i + issues rs < 2 ^ 63"
      using Cons.prems Issue by (simp_all add: Suc_diff_le)
    then obtain s2 where s2: "run_calls nxt fin s1 rs = Inr (map of_nat [Suc (Suc i)..<Suc (Suc i + issues rs)], s2)"
        "inv (Suc i + issues rs) (c + finishes rs) s2" "c + finishes rs \<le> Suc i + issues rs"
      using Cons.IH [OF s1(2)] Cons.prems(2) by auto
    have "[Suc i..<Suc (i + issues (r # rs))] = Suc i # [Suc (Suc i)..<Suc (Suc i + issues rs)]"
      using Issue by (simp add: upt_conv_Cons del: upt_Suc)
    then show ?thesis
      using s1 s2 Issue by (simp del: upt_Suc)
  next
    case Finish
    then have "c < i"
      using Cons.prems by simp
    then obtain s1 where s1: "fin s = Inr s1" "inv i (Suc c) s1"
      using fin_inv [OF Cons.prems(1)] by auto
    have "balanced (i - Suc c) rs" "i + issues rs < 2 ^ 63"
      using Cons.prems Finish by simp_all
    then show ?thesis
      using Cons.IH [OF s1(2)] \<open>c < i\<close> s1 Finish by (auto simp del: upt_Suc)
  qed
qed

lemma ids_distinct:
  assumes "inv i c s" "c \<le> i" "balanced (i - c) rs" "i + issues rs < 2 ^ 63"
    "run_calls nxt fin s rs = Inr (ids, s')"
  shows "distinct ids"
proof -
  have "inj_on (of_nat :: nat \<Rightarrow> i64) {Suc i..<Suc (i + issues rs)}"
    using assms(4) by (auto simp: inj_on_def word_of_nat_eq_iff take_bit_nat_eq_self)
  then show ?thesis
    using run [OF assms(1-4)] assms(5) by (auto simp: distinct_map simp del: upt_Suc)
qed

end

section \<open>The counters\<close>

text \<open>The counters as numbers, as long as the head has not run over.\<close>

definition seq_counts :: "nat \<Rightarrow> nat \<Rightarrow> abstract_seq \<Rightarrow> bool" where
  "seq_counts issued completed s = (seq_head s = of_nat issued \<and> seq_tail s = of_nat completed \<and>
    completed \<le> issued \<and> issued < 2 ^ 63)"

fun counts :: "nat \<Rightarrow> nat \<Rightarrow> call_id_sequence \<Rightarrow> bool" where
  "counts i c (Without_Backpressure h) = (h = of_nat i \<and> i < 2 ^ 63)"
| "counts i c (Fail_Fast s) = seq_counts i c s"
| "counts i c (With_Backpressure s t) = seq_counts i c s"

definition outstanding :: "abstract_seq \<Rightarrow> int" where
  "outstanding s = sint (seq_head s - seq_tail s)"

lemma sint_of_nat64: "n < 2 ^ 63 \<Longrightarrow> sint (of_nat n :: i64) = int n"
  using sint_word_of_int_id [where 'a = 64 and x = "int n"] by simp

lemma outstanding_counts:
  assumes "seq_counts i c s"
  shows "outstanding s = int i - int c"
proof -
  have "seq_head s - seq_tail s = of_nat (i - c)" and le: "c \<le> i" "i - c < 2 ^ 63"
    using assms by (auto simp: seq_counts_def of_nat_diff)
  then have "outstanding s = sint (of_nat (i - c) :: i64)"
    by (simp only: outstanding_def)
  also have "\<dots> = int (i - c)"
    using le(2) by (rule sint_of_nat64)
  finally show ?thesis
    using le(1) by (simp add: of_nat_diff)
qed

lemma has_space_counts:
  "seq_counts i c s \<Longrightarrow> has_space s = (int i - int c < sint (max_concurrent_invocations s))"
  using outstanding_counts [of i c s] by (simp add: has_space_def outstanding_def)

lemma seq_force_next_counts:
  assumes "seq_counts i c s" "Suc i < 2 ^ 63"
  shows "seq_force_next s = (of_nat (Suc i), s\<lparr>seq_head := of_nat (Suc i)\<rparr>)"
    "seq_counts (Suc i) c (s\<lparr>seq_head := of_nat (Suc i)\<rparr>)"
  using assms by (auto simp: seq_force_next_def seq_counts_def add.commute)

lemma seq_complete_counts:
  assumes "seq_counts i c s" "c < i"
  shows "seq_complete s = Inr (s\<lparr>seq_tail := of_nat (Suc c)\<rparr>)"
    "seq_counts i (Suc c) (s\<lparr>seq_tail := of_nat (Suc c)\<rparr>)"
proof -
  have "seq_tail s + 1 = of_nat (Suc c)"
    using assms by (simp add: seq_counts_def)
  moreover have "sint (of_nat (Suc c) :: i64) \<le> sint (of_nat i :: i64)"
    using assms sint_of_nat64 [of "Suc c"] sint_of_nat64 [of i] by (simp add: seq_counts_def del: of_nat_Suc)
  ultimately show "seq_complete s = Inr (s\<lparr>seq_tail := of_nat (Suc c)\<rparr>)"
    using assms by (simp add: seq_complete_def Let_def seq_counts_def del: of_nat_Suc)
  show "seq_counts i (Suc c) (s\<lparr>seq_tail := of_nat (Suc c)\<rparr>)"
    using assms by (auto simp: seq_counts_def)
qed

interpretation ci: call_ids force_next complete counts
proof unfold_locales
  fix i c s
  assume a: "counts i c s" "Suc i < (2 :: nat) ^ 63"
  then show "\<exists>s'. force_next s = (of_nat (Suc i), s') \<and> counts (Suc i) c s'"
    by (cases s) (auto simp: seq_force_next_counts simp del: of_nat_Suc, simp_all add: add.commute)
next
  fix i c s
  assume a: "counts i c s" "c < i"
  then show "\<exists>s'. complete s = Inr s' \<and> counts i (Suc c) s'"
    by (cases s) (auto simp: seq_complete_counts simp del: of_nat_Suc)
qed

lemma new_sequence_counts: "new_call_id_sequence backpressure limit timeout = Inr s \<Longrightarrow> counts 0 0 s"
  by (auto simp: new_call_id_sequence_def make_backpressure_seq_def make_abstract_seq_def
      seq_counts_def split: if_splits sum.splits)

text \<open>
  C20. Identifiers are not reused.  A sequence made by the factory, of any of the three kinds,
  hands out 1, 2, 3 and so on to a run of requests that gives back no more slots than it took:
  no assertion fails, no identifier occurs twice, the last identifier is the number of
  requests, and a sequence with a limit counts the slots that are out.
\<close>

theorem call_ids_never_reused:
  assumes "new_call_id_sequence backpressure limit timeout = Inr s0" "balanced 0 rs" "issues rs < 2 ^ 63"
  shows "\<exists>ids s. run_calls force_next complete s0 rs = Inr (ids, s) \<and>
    ids = map of_nat [1..<Suc (issues rs)] \<and> distinct ids \<and>
    get_last_call_id s = of_nat (issues rs) \<and>
    (\<forall>q. s = Fail_Fast q \<or> s = With_Backpressure q (timeout * 1000000) \<longrightarrow>
      outstanding q = int (issues rs) - int (finishes rs))"
proof -
  have c0: "counts 0 0 s0"
    using assms(1) by (rule new_sequence_counts)
  obtain s where s: "run_calls force_next complete s0 rs = Inr (map of_nat [1..<Suc (issues rs)], s)"
      "counts (issues rs) (finishes rs) s"
    using ci.run [OF c0] assms by (auto simp del: upt_Suc)
  moreover have "distinct (map of_nat [1..<Suc (issues rs)] :: i64 list)"
    using ci.ids_distinct [OF c0 _ _ _ s(1)] assms by simp
  moreover have "get_last_call_id s = of_nat (issues rs)"
    using s(2) by (cases s) (auto simp: seq_counts_def)
  moreover have "outstanding q = int (issues rs) - int (finishes rs)"
    if "s = Fail_Fast q \<or> s = With_Backpressure q (timeout * 1000000)" for q
    using s(2) that by (auto intro: outstanding_counts)
  ultimately show ?thesis
    by blast
qed

theorem call_ids_never_reused_witness:
  "\<exists>s0 s. new_call_id_sequence True 10 0 = Inr s0 \<and>
    run_calls force_next complete s0 [Issue, Issue, Finish, Issue] = Inr ([1, 2, 3], s) \<and>
    get_last_call_id s = 3"
proof -
  obtain s0 where s0: "new_call_id_sequence True 10 0 = Inr s0"
    by (simp add: new_call_id_sequence_def make_abstract_seq_def check_positive_def)
  show ?thesis
    using call_ids_never_reused [OF s0, of "[Issue, Issue, Finish, Issue]"] s0
    by (auto simp: upt_rec)
qed

section \<open>Several callers\<close>

text \<open>\<open>AbstractCallIdSequence::next\<close> tests \<open>has_space\<close> and increments the head in two steps.  The state
  is the sequence and the number of callers between the two; \<open>t\<close> callers are in \<open>next\<close> at a time.\<close>

inductive next_step :: "nat \<Rightarrow> abstract_seq \<times> nat \<Rightarrow> abstract_seq \<times> nat \<Rightarrow> bool" for t :: nat where
  test: "\<lbrakk>has_space s; p < t\<rbrakk> \<Longrightarrow> next_step t (s, p) (s, Suc p)"
| take: "\<lbrakk>0 < p; seq_force_next s = (i, s')\<rbrakk> \<Longrightarrow> next_step t (s, p) (s', p - 1)"
| finish: "\<lbrakk>0 < outstanding s; seq_complete s = Inr s'\<rbrakk> \<Longrightarrow> next_step t (s, p) (s', p)"

inductive_cases next_stepE: "next_step t (s, p) x"

definition callers_ok :: "i32 \<Rightarrow> nat \<Rightarrow> nat \<Rightarrow> abstract_seq \<times> nat \<Rightarrow> bool" where
  "callers_ok limit t bound x = (case x of (s, p) \<Rightarrow> max_concurrent_invocations s = limit \<and> p \<le> t \<and>
    (\<exists>i c. seq_counts i c s \<and> i + p \<le> bound \<and> int i - int c + int p \<le> sint limit - 1 + int t))"

lemma next_step_ok:
  assumes "next_step t x y" "callers_ok limit t b x" "b < 2 ^ 62"
  shows "\<exists>b'. b' \<le> Suc b \<and> callers_ok limit t b' y"
  using assms
proof (cases rule: next_step.cases)
  case (test s p)
  obtain i c where c: "seq_counts i c s" "max_concurrent_invocations s = limit" "i + p \<le> b"
    using assms(2) test by (auto simp: callers_ok_def)
  then have "callers_ok limit t (Suc b) y"
    using test has_space_counts [OF c(1)] unfolding callers_ok_def test(2) prod.case
    by (intro conjI exI [of _ i] exI [of _ c]) auto
  then show ?thesis by blast
next
  case (take p s i s')
  obtain j c where c: "seq_counts j c s" "max_concurrent_invocations s = limit" "j + p \<le> b" "p \<le> t"
      "int j - int c + int p \<le> sint limit - 1 + int t"
    using assms(2) take by (auto simp: callers_ok_def)
  have "Suc j < 2 ^ 63"
    using c(3) assms(3) by simp
  note n = seq_force_next_counts [OF c(1) this]
  have "callers_ok limit t b y"
    using take n c unfolding callers_ok_def take(2) prod.case
    by (intro conjI exI [of _ "Suc j"] exI [of _ c]) auto
  then show ?thesis by (intro exI [of _ b]) simp
next
  case (finish s s' p)
  obtain i c where c: "seq_counts i c s" "max_concurrent_invocations s = limit" "i + p \<le> b" "p \<le> t"
      "int i - int c + int p \<le> sint limit - 1 + int t"
    using assms(2) finish by (auto simp: callers_ok_def)
  have "c < i"
    using finish(3) outstanding_counts [OF c(1)] by simp
  note n = seq_complete_counts [OF c(1) this]
  have "callers_ok limit t b y"
    using finish n c unfolding callers_ok_def finish(2) prod.case
    by (intro conjI exI [of _ i] exI [of _ "Suc c"]) auto
  then show ?thesis by (intro exI [of _ b]) simp
qed

lemma next_steps_ok:
  assumes "(next_step t ^^ k) x y" "callers_ok limit t 0 x" "k < 2 ^ 62"
  shows "\<exists>b\<le>k. callers_ok limit t b y"
  using assms
proof (induction k arbitrary: y)
  case 0
  then show ?case by auto
next
  case (Suc k)
  obtain z where z: "(next_step t ^^ k) x z" "next_step t z y"
    using Suc.prems(1) by auto
  obtain b where "b \<le> k" "callers_ok limit t b z"
    using Suc.IH [OF z(1) Suc.prems(2)] Suc.prems(3) by auto
  then show ?case
    using next_step_ok [OF z(2)] Suc.prems(3) by (meson Suc_le_mono le_trans less_imp_le_nat Suc_lessD le_less_trans)
qed

text \<open>Runs that take as many slots as possible.\<close>

abbreviation issued :: "abstract_seq \<Rightarrow> nat \<Rightarrow> abstract_seq" where
  "issued s0 i \<equiv> s0\<lparr>seq_head := of_nat i\<rparr>"

lemma issued_counts:
  "\<lbrakk>make_abstract_seq limit = Inr s0; i < 2 ^ 63\<rbrakk> \<Longrightarrow> seq_counts i 0 (issued s0 i) \<and>
    max_concurrent_invocations (issued s0 i) = limit \<and> 0 < sint limit"
  by (auto simp: make_abstract_seq_def check_positive_def seq_counts_def split: if_splits)

lemma test_step:
  assumes "make_abstract_seq limit = Inr s0" "int i < sint limit" "i < 2 ^ 63" "p < t"
  shows "next_step t (issued s0 i, p) (issued s0 i, Suc p)"
  using issued_counts [OF assms(1,3)] has_space_counts assms(2,4) by (intro next_step.test) fastforce+

lemma take_step:
  assumes "make_abstract_seq limit = Inr s0" "Suc i < 2 ^ 63"
  shows "next_step t (issued s0 i, Suc p) (issued s0 (Suc i), p)"
proof -
  have "seq_force_next (issued s0 i) = (of_nat (Suc i), issued s0 (Suc i))"
    using seq_force_next_counts(1) [OF conjunct1 [OF issued_counts [OF assms(1)]] assms(2)] assms(2) by simp
  then show ?thesis
    using next_step.take [of "Suc p" "issued s0 i"] by simp
qed

lemma tests:
  assumes "make_abstract_seq limit = Inr s0" "int i < sint limit" "i < 2 ^ 63" "p \<le> t"
  shows "(next_step t)\<^sup>*\<^sup>* (issued s0 i, 0) (issued s0 i, p)"
  using assms(4)
proof (induction p)
  case (Suc p)
  then show ?case
    using test_step [OF assms(1-3), of p t] by (auto intro: rtranclp.rtrancl_into_rtrancl)
qed simp

lemma takes:
  assumes "make_abstract_seq limit = Inr s0" "i + p < 2 ^ 63"
  shows "(next_step t)\<^sup>*\<^sup>* (issued s0 i, p) (issued s0 (i + p), 0)"
  using assms(2)
proof (induction p arbitrary: i)
  case (Suc p)
  then have "next_step t (issued s0 i, Suc p) (issued s0 (Suc i), p)"
    by (intro take_step [OF assms(1)]) simp
  then show ?case
    using Suc.IH [of "Suc i"] Suc.prems by (auto intro: converse_rtranclp_into_rtranclp)
qed simp

lemma one_by_one:
  assumes "make_abstract_seq limit = Inr s0" "int i < sint limit" "i < 2 ^ 63" "0 < t"
  shows "(next_step t)\<^sup>*\<^sup>* (issued s0 0, 0) (issued s0 i, 0)"
  using assms(2,3)
proof (induction i)
  case (Suc i)
  have "(next_step t)\<^sup>*\<^sup>* (issued s0 i, 0) (issued s0 i, 1)"
    using Suc.prems assms(4) by (intro tests [OF assms(1)]) auto
  moreover have "(next_step t)\<^sup>*\<^sup>* (issued s0 i, 1) (issued s0 (i + 1), 0)"
    using Suc.prems by (intro takes [OF assms(1)]) simp
  ultimately show ?case
    using Suc.IH Suc.prems by simp
qed simp

text \<open>
  C21. With \<open>t\<close> callers in \<open>next\<close> at a time, the outstanding invocations together with the callers
  that have passed the test of \<open>has_space\<close> never exceed the limit by more than \<open>t - 1\<close>, whatever the
  interleaving of tests, increments and completions, and this excess is reached for every limit
  and every \<open>t\<close>.  One caller at a time keeps the limit; two or more do not.
\<close>

theorem concurrent_next_bound:
  assumes "make_abstract_seq limit = Inr s0" "0 < t" "t < 2 ^ 62"
  shows "(\<forall>k s p. (next_step t ^^ k) (s0, 0) (s, p) \<and> k < 2 ^ 62 \<longrightarrow>
      outstanding s + int p \<le> sint limit - 1 + int t) \<and>
    (\<exists>s. (next_step t)\<^sup>*\<^sup>* (s0, 0) (s, 0) \<and> outstanding s = sint limit - 1 + int t)"
proof -
  have s0: "issued s0 0 = s0"
    using assms(1) by (auto simp: make_abstract_seq_def split: sum.splits)
  have lim: "max_concurrent_invocations s0 = limit" "0 < sint limit" "seq_counts 0 0 s0"
    using issued_counts [OF assms(1), of 0] s0 by auto
  have ok0: "callers_ok limit t 0 (s0, 0)"
    using lim assms(2) by (auto simp: callers_ok_def)
  have bound: "outstanding s + int p \<le> sint limit - 1 + int t"
    if "(next_step t ^^ k) (s0, 0) (s, p)" "k < 2 ^ 62" for k s p
    using next_steps_ok [OF that(1) ok0 that(2)] outstanding_counts by (auto simp: callers_ok_def)
  define m where "m = nat (sint limit - 1)"
  have small: "int m = sint limit - 1" "sint limit < 2 ^ 31"
    using lim(2) sint_lt [of limit] by (simp_all add: m_def)
  then have m: "int m < sint limit" "m + t < 2 ^ 63" "m < 2 ^ 63"
    using assms(3) by simp_all
  have "(next_step t)\<^sup>*\<^sup>* (issued s0 0, 0) (issued s0 (m + t), 0)"
    using one_by_one [OF assms(1) m(1,3) assms(2)] tests [OF assms(1) m(1,3) order_refl, of t]
      takes [OF assms(1) m(2), of t] by (meson rtranclp_trans)
  moreover have "outstanding (issued s0 (m + t)) = sint limit - 1 + int t"
    using outstanding_counts [OF conjunct1 [OF issued_counts [OF assms(1) m(2)]]] small(1) by simp
  ultimately show ?thesis
    using bound unfolding s0 by blast
qed

theorem concurrent_next_bound_witness:
  "\<exists>s0 s. make_abstract_seq 1 = Inr s0 \<and> (next_step 2)\<^sup>*\<^sup>* (s0, 0) (s, 0) \<and> outstanding s = 2"
proof -
  obtain s0 where s0: "make_abstract_seq 1 = Inr s0"
    by (simp add: make_abstract_seq_def check_positive_def)
  then show ?thesis
    using concurrent_next_bound [OF s0, of 2] by auto
qed

section \<open>Waiting for space\<close>

lemma IDLER_eq: "make_backoff 0 0 1000000 500000000 = Inr IDLER"
  by (simp add: IDLER_def make_backoff_def)

text \<open>The clock is not faster than the pauses: the next elapsed time is at least the last one plus
  the pause taken in between.\<close>

fun clock_ok :: "i64 \<Rightarrow> (i64 \<times> abstract_seq) list \<Rightarrow> bool" where
  "clock_ok n [] = True"
| "clock_ok n [(e, s)] = (0 \<le> sint e)"
| "clock_ok n ((e, s) # (e', s') # obs) = (0 \<le> sint e \<and>
    sint e + (case fst (idle IDLER n) of Park d \<Rightarrow> sint d | _ \<Rightarrow> 0) \<le> sint e' \<and>
    clock_ok (n + 1) ((e', s') # obs))"

lemma IDLER_park:
  assumes "0 \<le> sint n"
  shows "\<exists>d. fst (idle IDLER n) = Park d \<and> 1000000 \<le> sint d \<and> sint d \<le> 500000000"
proof -
  have t: "park_threshold IDLER = 0" "yield_threshold IDLER = 0"
    by (simp_all add: IDLER_def make_backoff_def)
  have "sint (1000000 :: i64) \<le> sint (park_time IDLER n) \<and> sint (park_time IDLER n) \<le> sint (500000000 :: i64)"
    using park_time_range [OF IDLER_eq, of n] assms t by simp
  then show ?thesis
    using assms t by (simp add: idle_def)
qed

lemma waiting_ends:
  assumes "clock_ok (of_nat n) ((e, s) # obs)" "int n * 1000000 \<le> sint e"
    "sint timeout < int (n + length obs) * 1000000"
    "handle_no_space_left timeout (of_nat n) ((e, s) # obs) = (ps, r)"
  shows "(r = Some (Inl HazelcastOverload) \<or> (\<exists>s'. r = Some (Inr s') \<and> has_space s' \<and> s' \<in> snd ` set ((e, s) # obs))) \<and>
    (\<forall>p\<in>set ps. \<exists>d. p = Park d \<and> 1000000 \<le> sint d \<and> sint d \<le> 500000000)"
  using assms
proof (induction obs arbitrary: n e s ps r)
  case Nil
  then have "sint timeout < sint e" by simp
  then show ?case using Nil.prems(4) by simp
next
  case (Cons x obs)
  obtain e' s' where x: "x = (e', s')" by (cases x)
  have "int n < 2 ^ 62"
    using Cons.prems(2) sint_lt [of e] by simp
  then have n0: "0 \<le> sint (of_nat n :: i64)"
    using sint_of_nat64 [of n] by simp
  obtain d where d: "fst (idle IDLER (of_nat n)) = Park d" "1000000 \<le> sint d" "sint d \<le> 500000000"
    using IDLER_park [OF n0] by blast
  have nxt: "clock_ok (of_nat (Suc n)) ((e', s') # obs)" "int (Suc n) * 1000000 \<le> sint e'"
    "sint timeout < int (Suc n + length obs) * 1000000"
    using Cons.prems(1-3) d by (simp_all add: x add.commute)
  obtain ps' r' where rec: "handle_no_space_left timeout (of_nat (Suc n)) ((e', s') # obs) = (ps', r')"
    by fastforce
  note ih = Cons.IH [OF nxt rec]
  have "handle_no_space_left timeout (of_nat n) ((e, s) # x # obs) =
      (if sint timeout < sint e then ([], Some (Inl HazelcastOverload))
       else if has_space s then ([Park d], Some (Inr s)) else (Park d # ps', r'))"
    using rec d(1) unfolding x by (simp add: Let_def add.commute del: handle_no_space_left.simps(1))
  then show ?case
    using Cons.prems(4) ih d(2,3) by (auto simp: x split: if_splits)
qed

text \<open>
  C22. A caller that finds no space does not wait for ever.  When the clock runs at least as fast as
  the pauses, then after at most one pause per millisecond of the timeout, and one more, the caller
  either has seen space or gets the overload error; every pause is between 1 and 500 milliseconds.
  So \<open>next\<close> returns or throws.
\<close>

theorem backpressure_wait_ends:
  assumes "clock_ok 0 obs" "sint timeout < int (length obs - 1) * 1000000" "obs \<noteq> []"
    "handle_no_space_left timeout 0 obs = (pauses, r)"
  shows "(r = Some (Inl HazelcastOverload) \<or> (\<exists>s. r = Some (Inr s) \<and> has_space s \<and> s \<in> snd ` set obs)) \<and>
    (\<forall>p\<in>set pauses. \<exists>d. p = Park d \<and> 1000000 \<le> sint d \<and> sint d \<le> 500000000) \<and>
    (\<forall>q. next_id (With_Backpressure q timeout) obs \<noteq> None)"
proof -
  obtain e s rest where o: "obs = (e, s) # rest"
    using assms(3) by (cases obs) auto
  have "0 \<le> sint e"
    using assms(1) by (cases rest) (auto simp: o)
  then have w: "(r = Some (Inl HazelcastOverload) \<or> (\<exists>s. r = Some (Inr s) \<and> has_space s \<and> s \<in> snd ` set obs)) \<and>
    (\<forall>p\<in>set pauses. \<exists>d. p = Park d \<and> 1000000 \<le> sint d \<and> sint d \<le> 500000000)"
    using waiting_ends [of 0 e s rest timeout pauses r] assms by (simp add: o)
  then have "next_id (With_Backpressure q timeout) obs \<noteq> None" for q
    using assms(4) by (auto simp: seq_force_next_def)
  with w show ?thesis
    by blast
qed

theorem backpressure_wait_ends_witness:
  "\<exists>pauses r. handle_no_space_left 1000000 0
      [(0, \<lparr>max_concurrent_invocations = 1, seq_head = 1, seq_tail = 0\<rparr>),
       (1500000, \<lparr>max_concurrent_invocations = 1, seq_head = 1, seq_tail = 0\<rparr>),
       (4500000, \<lparr>max_concurrent_invocations = 1, seq_head = 1, seq_tail = 0\<rparr>)] = (pauses, r) \<and>
    r = Some (Inl HazelcastOverload)"
proof -
  define full where "full = \<lparr>max_concurrent_invocations = (1 :: i32), seq_head = (1 :: i64), seq_tail = (0 :: i64)\<rparr>"
  define obs where "obs = [(0 :: i64, full), (1500000, full), (4500000, full)]"
  have f: "\<not> has_space full"
    by (simp add: full_def has_space_def)
  have i: "IDLER = \<lparr>yield_threshold = 0, park_threshold = 0, min_park_period_ns = 1000000,
      max_park_period_ns = 500000000, max_shift = word_of_int (number_of_leading_zeros 1000000 - number_of_leading_zeros 500000000)\<rparr>"
    by (simp add: IDLER_def make_backoff_def)
  have "number_of_leading_zeros 1000000 - number_of_leading_zeros 500000000 = 9"
    by code_simp
  then have "clock_ok 0 obs"
    by (simp add: obs_def i idle_def park_time_def Let_def) 
  moreover obtain pauses r where h: "handle_no_space_left 1000000 0 obs = (pauses, r)"
    by fastforce
  ultimately show ?thesis
    using backpressure_wait_ends [of obs 1000000 pauses r] f h by (auto simp: obs_def full_def)
qed

end
