(* ===== verification/Invocation.thy ===== *)
theory Invocation
  imports Call_Id Message_Builder Exception_Factory
begin

text \<open>
  Invocations: \<open>ClientInvocation\<close>, \<open>ClientInvocationServiceImpl\<close> and
  \<open>ClientResponseHandler::process_response\<close> (\<open>spi.cpp\<close>).

  The state \<open>service\<close> holds the invocations that were created (\<open>store\<close>, an invocation is its
  position), the table \<open>invocations_\<close> from correlation identifiers to invocations, the call id
  sequence, and the work given to others: retries handed to the executor and messages handed to
  connections.  What the connection manager, the partition table, the clock and the lifecycle
  service answer during one call is the argument \<open>env\<close>.  An operation of one thread is one function;
  where two threads interleave inside an operation, the interleaving is a step relation.

  A visit of the table \<open>invocations_\<close> holds its locks: the library that provides it forbids any
  other operation on the table during the visit.  The model calls such an operation undefined.
\<close>

section \<open>State\<close>

record request =
  request_correlation_id :: i64
  request_flags :: "16 word"
  request_retryable :: bool
  request_contains_serialized_data :: bool

datatype outcome = Response msg | Failure hz_exception

record invocation =
  request_message :: request
  target_uuid :: uuid
  partition_id :: i32
  start_time :: int
  bound_connection :: "nat option"
  bound_to_single_connection :: bool
  invoked_or_exception_set :: bool
  send_connection :: "nat option option"
  has_event_handler :: bool
  invoke_count :: i64
  invocation_promise :: "outcome option"
  continuation_attached :: bool
  urgent :: bool
  backup_acks_received :: i32
  backup_acks_expected :: i8
  pending_response :: "msg option"
  pending_response_received_time :: int

record service =
  store :: "invocation list"
  invocations :: "(i64 \<times> nat) list"
  call_id_seq :: call_id_sequence
  retries :: "(nat \<times> i64) list"
  written :: "(nat \<times> nat \<times> i64) list"
  event_handlers :: "(nat \<times> i64 \<times> nat) list"
  is_shutdown :: bool
  visiting :: bool
  invocation_timeout :: int
  invocation_retry_pause :: i64
  smart_routing :: bool
  backup_acks_enabled :: bool
  fail_on_indeterminate_operation_state :: bool
  redo_operation :: bool

datatype client_state = INITIAL | CONNECTED_TO_CLUSTER | INITIALIZED_ON_CLUSTER | DISCONNECTED_FROM_CLUSTER

text \<open>The answers of the other services.  A call asks whether a connection is alive up to four times,
  and for a random connection up to twice; the answers are numbered in this order.\<close>

record env =
  now :: int
  is_running :: bool
  state_of_client :: client_state
  active_connections :: nat
  async_start :: bool
  reconnect_async :: bool
  client_initialized_on_cluster :: bool
  should_check_urgent_invocations :: bool
  get_partition_owner :: "i32 \<Rightarrow> uuid"
  get_connection :: "uuid \<Rightarrow> nat option"
  get_random_connection :: "nat \<Rightarrow> nat option"
  connection_exists :: "nat \<Rightarrow> bool"
  is_alive :: "nat \<Rightarrow> nat \<Rightarrow> bool"

type_synonym 'a op = "(service, 'a) sm"

definition IO_CODE :: i32 where "IO_CODE = 22"
definition INSTANCE_NOT_ACTIVE_CODE :: i32 where "INSTANCE_NOT_ACTIVE_CODE = 19"
definition TARGET_DISCONNECTED_CODE :: i32 where "TARGET_DISCONNECTED_CODE = 52"
definition TARGET_NOT_MEMBER_CODE :: i32 where "TARGET_NOT_MEMBER_CODE = 53"

text \<open>The exceptions made here, without their texts.\<close>

definition local_exception :: "string \<Rightarrow> i32 \<Rightarrow> bool \<Rightarrow> hz_exception option \<Rightarrow> hz_exception" where
  "local_exception name code runtime cause = Hz_Exception (Exception_Class name code runtime False) [] [] [] cause"

definition io_exception :: hz_exception where
  "io_exception = local_exception ''io'' IO_CODE False None"

definition target_disconnected :: hz_exception where
  "target_disconnected = local_exception ''target_disconnected'' TARGET_DISCONNECTED_CODE True None"

definition hazelcast_client_not_active :: "hz_exception option \<Rightarrow> hz_exception" where
  "hazelcast_client_not_active = local_exception ''hazelcast_client_not_active'' INSTANCE_NOT_ACTIVE_CODE True"

definition hazelcast_client_offline :: hz_exception where
  "hazelcast_client_offline = local_exception ''hazelcast_client_offline'' (- 2) True None"

definition invocation_might_contain_compact_data :: hz_exception where
  "invocation_might_contain_compact_data = local_exception ''hazelcast_'' 18 True None"

definition indeterminate_operation_state :: hz_exception where
  "indeterminate_operation_state = local_exception ''indeterminate_operation_state'' 80 True None"

definition operation_timeout :: hz_exception where
  "operation_timeout = local_exception ''operation_timeout'' 38 True None"

section \<open>Table and promise\<close>

definition inv_of :: "nat \<Rightarrow> service \<Rightarrow> invocation" where
  "inv_of k w = store w ! k"

definition upd_inv :: "nat \<Rightarrow> (invocation \<Rightarrow> invocation) \<Rightarrow> unit op" where
  "upd_inv k f = (\<lambda>w. Inr ((), w\<lparr>store := (store w)[k := f (inv_of k w)]\<rparr>))"

definition cid_of :: "nat \<Rightarrow> service \<Rightarrow> i64" where
  "cid_of k w = request_correlation_id (request_message (inv_of k w))"

definition sget :: "('s \<Rightarrow> 'a) \<Rightarrow> ('s, 'a) sm" where
  "sget f = (\<lambda>s. Inr (f s, s))"

definition register_invocation :: "i64 \<Rightarrow> nat \<Rightarrow> unit op" where
  "register_invocation cid k = (\<lambda>w. if visiting w then Inl UndefinedBehaviour
     else Inr ((), w\<lparr>invocations := AList.update cid k (invocations w)\<rparr>))"

definition deregister_invocation :: "i64 \<Rightarrow> bool op" where
  "deregister_invocation cid = (\<lambda>w. if visiting w then Inl UndefinedBehaviour
     else Inr (map_of (invocations w) cid \<noteq> None, w\<lparr>invocations := AList.delete cid (invocations w)\<rparr>))"

definition get_invocation :: "i64 \<Rightarrow> nat option op" where
  "get_invocation cid = (\<lambda>w. if visiting w then Inl UndefinedBehaviour
     else Inr (map_of (invocations w) cid, w))"

definition erase_invocation :: "nat \<Rightarrow> unit op" where
  "erase_invocation k = sbind (sget (cid_of k)) (\<lambda>cid. sthen (deregister_invocation cid) (sreturn ()))"

text \<open>The continuation of \<open>complete_call_id_sequence\<close> runs once the promise is satisfied and the
  continuation is attached; it gives the slot back.\<close>

definition sequence_complete :: "unit op" where
  "sequence_complete = (\<lambda>w. case complete (call_id_seq w) of
     Inl e \<Rightarrow> Inl e | Inr q \<Rightarrow> Inr ((), w\<lparr>call_id_seq := q\<rparr>))"

definition set_promise :: "nat \<Rightarrow> outcome \<Rightarrow> unit op" where
  "set_promise k r = sbind (sget (inv_of k)) (\<lambda>i.
     if invocation_promise i \<noteq> None then sreturn ()
     else sthen (upd_inv k (\<lambda>i. i\<lparr>invocation_promise := Some r\<rparr>))
       (if continuation_attached i then sequence_complete else sreturn ()))"

definition complete_call_id_sequence :: "nat \<Rightarrow> unit op" where
  "complete_call_id_sequence k = sbind (sget (inv_of k)) (\<lambda>i.
     sthen (upd_inv k (\<lambda>i. i\<lparr>continuation_attached := True\<rparr>))
       (if invocation_promise i \<noteq> None then sequence_complete else sreturn ()))"

section \<open>Completion and retry\<close>

definition set_exception :: "nat \<Rightarrow> hz_exception \<Rightarrow> unit op" where
  "set_exception k e =
    sthen (upd_inv k (\<lambda>i. i\<lparr>invoked_or_exception_set := True\<rparr>))
    (sthen (erase_invocation k) (set_promise k (Failure e)))"

definition complete_with :: "nat \<Rightarrow> msg \<Rightarrow> bool \<Rightarrow> unit op" where
  "complete_with k m erase =
    sthen (set_promise k (Response m)) (if erase then erase_invocation k else sreturn ())"

definition complete_with_pending_response :: "nat \<Rightarrow> bool \<Rightarrow> unit op" where
  "complete_with_pending_response k erase = sbind (sget (inv_of k)) (\<lambda>i.
     case pending_response i of None \<Rightarrow> sfail UndefinedBehaviour | Some m \<Rightarrow> complete_with k m erase)"

definition should_retry :: "invocation \<Rightarrow> bool \<Rightarrow> hz_exception \<Rightarrow> bool" where
  "should_retry i redo e =
    (let code = exception_code (exception_cls e) in
     if bound_to_single_connection i \<and> (code = IO_CODE \<or> code = TARGET_DISCONNECTED_CODE) then False
     else if target_uuid i \<noteq> nil_uuid \<and> code = TARGET_NOT_MEMBER_CODE then False
     else if code = IO_CODE \<or> code = INSTANCE_NOT_ACTIVE_CODE \<or> is_retryable_class (exception_cls e) then True
     else if code = TARGET_DISCONNECTED_CODE then request_retryable (request_message i) \<or> redo
     else False)"

definition MAX_FAST_INVOCATION_COUNT :: i64 where
  "MAX_FAST_INVOCATION_COUNT = 5"

definition retry_delay :: "i64 \<Rightarrow> i64 \<Rightarrow> i64 res" where
  "retry_delay n_invoked pause =
    (let n = sint (n_invoked - MAX_FAST_INVOCATION_COUNT) in
     if n < 0 \<or> 64 \<le> n then Inl UndefinedBehaviour
     else let d = push_bit (nat n) 1 in Inr (if sint d < sint pause then d else pause))"

text \<open>\<open>ClientExecutionServiceImpl::schedule\<close>: a delay that is not positive is replaced by the period,
  which is zero.\<close>

definition schedule :: "nat \<Rightarrow> i64 \<Rightarrow> unit op" where
  "schedule k delay = (\<lambda>w. Inr ((), w\<lparr>retries := retries w @ [(k, if 0 < sint delay then delay else 0)]\<rparr>))"

definition set_correlation :: "nat \<Rightarrow> i64 \<Rightarrow> unit op" where
  "set_correlation k cid = upd_inv k (\<lambda>i. i\<lparr>request_message := (request_message i)\<lparr>request_correlation_id := cid\<rparr>\<rparr>)"

definition sequence_force_next :: "i64 op" where
  "sequence_force_next = (\<lambda>w. let (cid, q) = force_next (call_id_seq w) in Inr (cid, w\<lparr>call_id_seq := q\<rparr>))"

definition execute :: "nat \<Rightarrow> unit op" where
  "execute k =
    sbind sequence_force_next (\<lambda>cid. sthen (set_correlation k cid) (sthen sequence_complete
    (sbind (sget (\<lambda>w. (inv_of k w, invocation_retry_pause w))) (\<lambda>(i, pause).
      if sint (invoke_count i) < sint MAX_FAST_INVOCATION_COUNT then schedule k 0
      else case retry_delay (invoke_count i) pause of Inl e \<Rightarrow> sfail e | Inr d \<Rightarrow> schedule k d))))"

definition notify_exception_with_owned_permission :: "env \<Rightarrow> nat \<Rightarrow> hz_exception option \<Rightarrow> bool \<Rightarrow> unit op" where
  "notify_exception_with_owned_permission ev k ex erase =
    sthen (if erase then erase_invocation k else sreturn ())
    (case ex of None \<Rightarrow> sfail UndefinedBehaviour
     | Some e \<Rightarrow> sbind (sget (\<lambda>w. (inv_of k w, redo_operation w, invocation_timeout w))) (\<lambda>(i, redo, timeout).
         if \<not> is_running ev then set_exception k (hazelcast_client_not_active (Some e))
         else if \<not> should_retry i redo e then set_exception k e
         else if timeout < now ev - start_time i then set_exception k operation_timeout
         else execute k))"

definition get_permission_to_notify :: "nat \<Rightarrow> i64 \<Rightarrow> bool op" where
  "get_permission_to_notify k cid = sbind (sget (inv_of k)) (\<lambda>i.
     if send_connection i = None then sreturn False
     else if cid \<noteq> request_correlation_id (request_message i) then sreturn False
     else sthen (upd_inv k (\<lambda>i. i\<lparr>send_connection := None\<rparr>)) (sreturn True))"

definition notify_exception :: "env \<Rightarrow> nat \<Rightarrow> i64 \<Rightarrow> hz_exception option \<Rightarrow> unit op" where
  "notify_exception ev k cid ex = sbind (get_permission_to_notify k cid) (\<lambda>permitted.
     if permitted then notify_exception_with_owned_permission ev k ex True else sreturn ())"

section \<open>Responses and backups\<close>

definition notify_response :: "env \<Rightarrow> nat \<Rightarrow> msg \<Rightarrow> i8 \<Rightarrow> unit op" where
  "notify_response ev k m expected = sbind (sget (inv_of k)) (\<lambda>i.
     if sint (backup_acks_received i) < sint expected then
       sthen (upd_inv k (\<lambda>i. i\<lparr>pending_response_received_time := now ev\<rparr>))
       (sthen (upd_inv k (\<lambda>i. i\<lparr>backup_acks_expected := expected\<rparr>))
       (sthen (upd_inv k (\<lambda>i. i\<lparr>pending_response := Some m\<rparr>))
       (sbind (sget (inv_of k)) (\<lambda>i.
         if sint (backup_acks_received i) \<noteq> sint expected then sreturn () else complete_with k m True))))
     else complete_with k m True)"

text \<open>The errors that end the program rather than being thrown.\<close>

definition fatal :: "hz_error \<Rightarrow> bool" where
  "fatal e = (e = UndefinedBehaviour \<or> e = AssertFailure \<or> e = Diverges)"

text \<open>Evaluation of a reader of the message; an exception it throws is caught and logged.\<close>

definition read_message :: "'a scm \<Rightarrow> msg \<Rightarrow> ('a \<Rightarrow> unit op) \<Rightarrow> unit op" where
  "read_message f m g = (case f m of
     Inl e \<Rightarrow> if fatal e then sfail e else sreturn () | Inr (x, m') \<Rightarrow> g x)"

definition notify :: "env \<Rightarrow> nat \<Rightarrow> msg \<Rightarrow> unit op" where
  "notify ev k m = read_message get_correlation_id m (\<lambda>cid.
     sbind (get_permission_to_notify k cid) (\<lambda>permitted.
       if permitted then read_message get_number_of_backups m (notify_response ev k m) else sreturn ()))"

definition notify_backup :: "nat \<Rightarrow> unit op" where
  "notify_backup k =
    sthen (upd_inv k (\<lambda>i. i\<lparr>backup_acks_received := backup_acks_received i + 1\<rparr>))
    (sbind (sget (inv_of k)) (\<lambda>i.
      if pending_response i = None then sreturn ()
      else if sint (backup_acks_expected i) \<noteq> sint (backup_acks_received i) then sreturn ()
      else complete_with_pending_response k True))"

definition detect_and_handle_backup_timeout :: "env \<Rightarrow> int \<Rightarrow> nat \<Rightarrow> bool op" where
  "detect_and_handle_backup_timeout ev backup_timeout k =
    sbind (sget (\<lambda>w. (inv_of k w, fail_on_indeterminate_operation_state w))) (\<lambda>(i, fail).
      if sint (backup_acks_expected i) = sint (backup_acks_received i) then sreturn False
      else if pending_response i = None then sreturn False
      else if now ev \<le> pending_response_received_time i + backup_timeout then sreturn False
      else if fail then
        sthen (notify_exception_with_owned_permission ev k (Some indeterminate_operation_state) False) (sreturn True)
      else sthen (complete_with_pending_response k False) (sreturn True))"

fun check_entries :: "env \<Rightarrow> int \<Rightarrow> (i64 \<times> nat) list \<Rightarrow> unit op" where
  "check_entries ev backup_timeout [] = sreturn ()"
| "check_entries ev backup_timeout ((cid, k) # es) =
    sbind (detect_and_handle_backup_timeout ev backup_timeout k) (\<lambda>erase.
      sthen (\<lambda>w. Inr ((), if erase then w\<lparr>invocations := AList.delete cid (invocations w)\<rparr> else w))
        (check_entries ev backup_timeout es))"

definition check_backup_timeouts :: "env \<Rightarrow> int \<Rightarrow> unit op" where
  "check_backup_timeouts ev backup_timeout =
    sthen (\<lambda>w. Inr ((), w\<lparr>visiting := True\<rparr>))
    (sthen (sbind (sget invocations) (check_entries ev backup_timeout))
      (\<lambda>w. Inr ((), w\<lparr>visiting := False\<rparr>)))"

section \<open>Sending\<close>

definition set_send_connection :: "nat \<Rightarrow> nat option \<Rightarrow> unit op" where
  "set_send_connection k c = upd_inv k (\<lambda>i. i\<lparr>send_connection := Some c, invoked_or_exception_set := True\<rparr>)"

definition write_to_connection :: "nat \<Rightarrow> nat \<Rightarrow> unit op" where
  "write_to_connection c k = (\<lambda>w. Inr ((), w\<lparr>written := written w @ [(c, k, cid_of k w)]\<rparr>))"

definition add_event_handler :: "nat \<Rightarrow> i64 \<Rightarrow> nat \<Rightarrow> unit op" where
  "add_event_handler c cid k = (\<lambda>w. Inr ((), w\<lparr>event_handlers := event_handlers w @ [(c, cid, k)]\<rparr>))"

text \<open>The result is the exception that is thrown, or whether the invocation was sent.\<close>

definition send :: "env \<Rightarrow> nat \<Rightarrow> nat \<Rightarrow> nat \<Rightarrow> (hz_exception + bool) op" where
  "send ev attempt k c = sbind (sget (\<lambda>w. (is_shutdown w, backup_acks_enabled w, cid_of k w, inv_of k w)))
     (\<lambda>(down, acks, cid, i).
       if down then sreturn (Inl (hazelcast_client_not_active None))
       else if \<not> is_alive ev c (2 * attempt) then sreturn (Inr False)
       else sthen (if acks then upd_inv k (\<lambda>i. i\<lparr>request_message := (request_message i)\<lparr>request_flags :=
                request_flags (request_message i) OR BACKUP_AWARE_FLAG\<rparr>\<rparr>) else sreturn ())
         (sthen (register_invocation cid k)
         (sthen (if has_event_handler i then add_event_handler c cid k else sreturn ())
         (sthen (set_send_connection k (Some c))
         (if \<not> is_alive ev c (2 * attempt + 1)
          then sthen (notify_exception ev k cid (Some target_disconnected)) (sreturn (Inr True))
          else sthen (write_to_connection c k) (sreturn (Inr True)))))))"

definition invoke_random :: "env \<Rightarrow> nat \<Rightarrow> nat \<Rightarrow> (hz_exception + bool) op" where
  "invoke_random ev attempt k = (case get_random_connection ev attempt of
     None \<Rightarrow> sreturn (Inr False) | Some c \<Rightarrow> send ev attempt k c)"

definition invoke_on_target :: "env \<Rightarrow> nat \<Rightarrow> uuid \<Rightarrow> (hz_exception + bool) op" where
  "invoke_on_target ev k u =
    (if u = nil_uuid then sfail AssertFailure
     else case get_connection ev u of None \<Rightarrow> sreturn (Inr False) | Some c \<Rightarrow> send ev 0 k c)"

definition invoke_on_partition_owner :: "env \<Rightarrow> nat \<Rightarrow> i32 \<Rightarrow> (hz_exception + bool) op" where
  "invoke_on_partition_owner ev k p =
    (if get_partition_owner ev p = nil_uuid then sreturn (Inr False)
     else invoke_on_target ev k (get_partition_owner ev p))"

definition check_invocation_allowed :: "env \<Rightarrow> hz_exception option" where
  "check_invocation_allowed ev =
    (if state_of_client ev = INITIALIZED_ON_CLUSTER \<and> 0 < active_connections ev then None
     else if state_of_client ev = INITIAL
     then (if async_start ev then Some hazelcast_client_offline else Some io_exception)
     else if reconnect_async ev then Some hazelcast_client_offline
     else Some io_exception)"

definition check_urgent_invocation_allowed :: "env \<Rightarrow> invocation \<Rightarrow> hz_exception option" where
  "check_urgent_invocation_allowed ev i =
    (if client_initialized_on_cluster ev then None
     else if \<not> should_check_urgent_invocations ev then None
     else if request_contains_serialized_data (request_message i)
     then Some invocation_might_contain_compact_data else None)"

text \<open>The choice of a connection: the exception thrown, or whether the invocation was sent.\<close>

definition send_to_selection :: "env \<Rightarrow> nat \<Rightarrow> invocation \<Rightarrow> (hz_exception + bool) op" where
  "send_to_selection ev k i = sbind (sget smart_routing) (\<lambda>smart.
     if bound_to_single_connection i then
       (case bound_connection i of
          Some c \<Rightarrow> if connection_exists ev c then send ev 0 k c else sreturn (Inr False)
        | None \<Rightarrow> sreturn (Inr False))
     else if smart then
       sbind (if partition_id i \<noteq> - 1 then invoke_on_partition_owner ev k (partition_id i)
              else if target_uuid i \<noteq> nil_uuid then invoke_on_target ev k (target_uuid i)
              else invoke_random ev 0 k)
         (\<lambda>r. case r of Inr False \<Rightarrow> invoke_random ev 1 k | _ \<Rightarrow> sreturn r)
     else invoke_random ev 0 k)"

definition invoke_on_selection :: "env \<Rightarrow> nat \<Rightarrow> unit op" where
  "invoke_on_selection ev k =
    sthen (upd_inv k (\<lambda>i. i\<lparr>invoke_count := invoke_count i + 1\<rparr>))
    (sbind (sget (inv_of k)) (\<lambda>i.
      case (if urgent i then check_urgent_invocation_allowed ev i else check_invocation_allowed ev) of
        Some e \<Rightarrow> notify_exception_with_owned_permission ev k (Some e) True
      | None \<Rightarrow> sbind (send_to_selection ev k i) (\<lambda>r. case r of
            Inl e \<Rightarrow> notify_exception_with_owned_permission ev k (Some e) True
          | Inr False \<Rightarrow> notify_exception_with_owned_permission ev k (Some io_exception) True
          | Inr True \<Rightarrow> sreturn ())))"

section \<open>Entry points\<close>

definition make_invocation :: "env \<Rightarrow> request \<Rightarrow> i32 \<Rightarrow> nat option \<Rightarrow> uuid \<Rightarrow> bool \<Rightarrow> bool \<Rightarrow> invocation" where
  "make_invocation ev req part conn u handler is_urgent =
    \<lparr>request_message = req, target_uuid = u, partition_id = part, start_time = now ev,
     bound_connection = conn, bound_to_single_connection = (conn \<noteq> None),
     invoked_or_exception_set = True, send_connection = Some None, has_event_handler = handler,
     invoke_count = 0, invocation_promise = None, continuation_attached = False, urgent = is_urgent,
     backup_acks_received = 0, backup_acks_expected = - 1, pending_response = None,
     pending_response_received_time = 0\<rparr>"

definition create :: "invocation \<Rightarrow> nat op" where
  "create i = (\<lambda>w. Inr (length (store w), w\<lparr>store := store w @ [i]\<rparr>))"

text \<open>\<open>invoke\<close> may throw the overload error before the invocation starts; the argument \<open>obs\<close> is what
  the caller observes while it waits for an identifier.\<close>

definition sequence_next :: "(i64 \<times> abstract_seq) list \<Rightarrow> i64 op" where
  "sequence_next obs = (\<lambda>w. case next_id (call_id_seq w) obs of
     None \<Rightarrow> Inl Diverges | Some (Inl e) \<Rightarrow> Inl e
   | Some (Inr (cid, q)) \<Rightarrow> Inr (cid, w\<lparr>call_id_seq := q\<rparr>))"

definition invoke :: "env \<Rightarrow> (i64 \<times> abstract_seq) list \<Rightarrow> nat \<Rightarrow> unit op" where
  "invoke ev obs k =
    sbind (sequence_next obs) (\<lambda>cid. sthen (set_correlation k cid)
      (sthen (invoke_on_selection ev k) (complete_call_id_sequence k)))"

definition invoke_urgent :: "env \<Rightarrow> nat \<Rightarrow> unit op" where
  "invoke_urgent ev k =
    sthen (upd_inv k (\<lambda>i. i\<lparr>urgent := True\<rparr>))
    (sbind sequence_force_next (\<lambda>cid. sthen (set_correlation k cid)
      (sthen (invoke_on_selection ev k) (complete_call_id_sequence k))))"

text \<open>\<open>retry\<close> works on a copy of the message; messages are values here.\<close>

definition run :: "env \<Rightarrow> nat \<Rightarrow> unit op" where
  "run ev k = invoke_on_selection ev k"

definition get_send_connection :: "env \<Rightarrow> invocation \<Rightarrow> nat option" where
  "get_send_connection ev i = (case send_connection i of
     Some (Some c) \<Rightarrow> if connection_exists ev c then Some c else None | _ \<Rightarrow> None)"

definition entries_to_fail :: "env \<Rightarrow> nat \<Rightarrow> service \<Rightarrow> (i64 \<times> nat) list" where
  "entries_to_fail ev c w = filter (\<lambda>(cid, k). get_send_connection ev (inv_of k w) = Some c) (invocations w)"

definition fail_entry :: "env \<Rightarrow> i64 \<times> nat \<Rightarrow> unit op" where
  "fail_entry ev p = (case p of (cid, k) \<Rightarrow>
     sthen (deregister_invocation cid) (notify_exception ev k cid (Some target_disconnected)))"

definition notify_connection_closed :: "env \<Rightarrow> nat \<Rightarrow> unit op" where
  "notify_connection_closed ev c = sbind (sget (entries_to_fail ev c)) (siter (fail_entry ev))"

definition service_shutdown :: "unit op" where
  "service_shutdown = (\<lambda>w. Inr ((), w\<lparr>is_shutdown := True\<rparr>))"

definition EVENT_HEADER_LEN :: nat where
  "EVENT_HEADER_LEN = 22"

definition EXCEPTION_MESSAGE_TYPE :: i32 where
  "EXCEPTION_MESSAGE_TYPE = 0"

definition process_response :: "env \<Rightarrow> (hz_string option \<Rightarrow> hz_string) \<Rightarrow> factory \<Rightarrow> i64 \<times> msg \<Rightarrow> unit op" where
  "process_response ev optional_text fac entry = (case entry of (cid, m) \<Rightarrow>
     read_message (is_flag_set BACKUP_EVENT_FLAG) m (\<lambda>backup.
       if backup then
         read_message (sthen (skip_bytes EVENT_HEADER_LEN) get_int64) m (\<lambda>source.
           sbind (get_invocation source) (\<lambda>found. case found of None \<Rightarrow> sreturn () | Some k \<Rightarrow> notify_backup k))
       else sbind (get_invocation cid) (\<lambda>found. case found of None \<Rightarrow> sreturn ()
         | Some k \<Rightarrow> read_message get_message_type m (\<lambda>t.
             if t = EXCEPTION_MESSAGE_TYPE then
               read_message error_codec_decode m (\<lambda>errors.
                 case create_exception optional_text fac errors of
                   Inl e \<Rightarrow> if fatal e then sfail e else sreturn ()
                 | Inr ex \<Rightarrow> notify_exception ev k cid ex)
             else notify ev k m))))"

end
