(* ===== verification/Invocation_Invariant.thy ===== *)
theory Invocation_Invariant
  imports Invocation
begin

text \<open>
  The invariant of the invocation service: every invocation whose promise is not satisfied is in
  exactly one place, identifiers of such invocations differ, and the slots taken from the call id
  sequence are those of the invocations that are not finished.  The programs of \<open>Invocation\<close> are
  reasoned about with preconditions and postconditions.
\<close>

section \<open>Programs and assertions\<close>

text \<open>A program meets its specification when, from a state with the precondition, no assertion fails
  and every result has the postcondition.\<close>

definition meets :: "('s \<Rightarrow> bool) \<Rightarrow> ('s, 'a) sm \<Rightarrow> ('a \<Rightarrow> 's \<Rightarrow> bool) \<Rightarrow> bool" where
  "meets P f Q = (\<forall>s. P s \<longrightarrow> (case f s of Inl e \<Rightarrow> e \<noteq> AssertFailure | Inr (a, s') \<Rightarrow> Q a s'))"

lemma meetsD:
  assumes "meets P f Q" "P s"
  shows "f s \<noteq> Inl AssertFailure" "f s = Inr (a, s') \<Longrightarrow> Q a s'"
  using assms by (auto simp: meets_def)

lemma meets_bind:
  assumes "meets P f R" "\<And>a. meets (R a) (g a) Q"
  shows "meets P (sbind f g) Q"
  using assms by (fastforce simp: meets_def sbind_def split: sum.splits prod.splits)

lemma meets_then: "\<lbrakk>meets P f (\<lambda>_. R); meets R g Q\<rbrakk> \<Longrightarrow> meets P (sthen f g) Q"
  by (simp add: sthen_def meets_bind)

lemma meets_return: "(\<And>s. P s \<Longrightarrow> Q a s) \<Longrightarrow> meets P (sreturn a) Q"
  by (simp add: meets_def sreturn_def)

lemma meets_fail: "e \<noteq> AssertFailure \<Longrightarrow> meets P (sfail e) Q"
  by (simp add: meets_def sfail_def)

lemma meets_get: "(\<And>s. P s \<Longrightarrow> Q (h s) s) \<Longrightarrow> meets P (sget h) Q"
  by (simp add: meets_def sget_def)

lemma meets_get_bind:
  assumes "\<And>x. meets (\<lambda>s. P s \<and> h s = x) (g x) Q"
  shows "meets P (sbind (sget h) g) Q"
  using assms by (simp add: meets_def sbind_def sget_def)

lemma meets_weaken:
  "\<lbrakk>meets P' f Q'; \<And>s. P s \<Longrightarrow> P' s; \<And>a s. Q' a s \<Longrightarrow> Q a s\<rbrakk> \<Longrightarrow> meets P f Q"
  by (fastforce simp: meets_def split: sum.splits prod.splits)

lemma meets_pre: "\<lbrakk>meets P' f Q; \<And>s. P s \<Longrightarrow> P' s\<rbrakk> \<Longrightarrow> meets P f Q"
  by (rule meets_weaken)

lemma meets_if: "\<lbrakk>c \<Longrightarrow> meets P f Q; \<not> c \<Longrightarrow> meets P g Q\<rbrakk> \<Longrightarrow> meets P (if c then f else g) Q"
  by simp

lemma meets_state: "(\<And>s. P s \<Longrightarrow> Q a (h s)) \<Longrightarrow> meets P (\<lambda>s. Inr (a, h s)) Q"
  by (simp add: meets_def)

lemma meets_pure: "\<lbrakk>\<And>s. P s \<Longrightarrow> c; c \<Longrightarrow> meets P f Q\<rbrakk> \<Longrightarrow> meets P f Q"
  by (auto simp: meets_def)

section \<open>The invariant\<close>

text \<open>An invocation is unresolved until its promise is satisfied.  It holds a slot of the call id
  sequence until its promise is satisfied and the continuation is attached.\<close>

definition unresolved :: "service \<Rightarrow> nat \<Rightarrow> bool" where
  "unresolved w k = (k < length (store w) \<and> invocation_promise (inv_of k w) = None)"

definition holds_slot :: "service \<Rightarrow> nat \<Rightarrow> bool" where
  "holds_slot w k = (k < length (store w) \<and> (invocation_promise (inv_of k w) = None \<or> \<not> continuation_attached (inv_of k w)))"

definition awaited :: "service \<Rightarrow> nat \<Rightarrow> bool" where
  "awaited w k = (send_connection (inv_of k w) \<noteq> None \<or> pending_response (inv_of k w) \<noteq> None)"

definition registered :: "service \<Rightarrow> nat \<Rightarrow> bool" where
  "registered w k = (map_of (invocations w) (cid_of k w) = Some k)"

definition queued :: "service \<Rightarrow> nat \<Rightarrow> nat" where
  "queued w k = count_list (map fst (retries w)) k"

text \<open>Every unresolved invocation is in exactly one place: in the table, and then somebody can still
  answer it, or once among the retries.\<close>

definition placed :: "service \<Rightarrow> nat \<Rightarrow> bool" where
  "placed w k =
    (if \<not> unresolved w k then queued w k = 0
     else if registered w k then queued w k = 0 \<and> awaited w k
     else queued w k = 1)"

definition table_ok :: "service \<Rightarrow> bool" where
  "table_ok w = (distinct (map fst (invocations w)) \<and>
    (\<forall>cid k. (cid, k) \<in> set (invocations w) \<longrightarrow> unresolved w k \<and> cid = cid_of k w))"

definition ids_ok :: "nat \<Rightarrow> service \<Rightarrow> bool" where
  "ids_ok n w = ((\<forall>k. unresolved w k \<longrightarrow> (\<exists>m\<le>n. cid_of k w = of_nat m)) \<and>
    inj_on (\<lambda>k. cid_of k w) {k. unresolved w k})"

definition slots_ok :: "nat \<Rightarrow> service \<Rightarrow> bool" where
  "slots_ok n w = (\<exists>c. counts n c (call_id_seq w) \<and> c + card {k. holds_slot w k} = n)"

text \<open>During an operation the invocations of \<open>own\<close> are in the hands of the running thread and those of \<open>A\<close>
  have no continuation yet; \<open>b\<close> more identifiers can be taken; the entries \<open>S\<close> are still in the table with
  a connection.\<close>

definition good :: "bool \<Rightarrow> nat set \<Rightarrow> nat set \<Rightarrow> (i64 \<times> nat) set \<Rightarrow> nat \<Rightarrow> service \<Rightarrow> bool" where
  "good v own A S b w = (visiting w = v \<and> table_ok w \<and>
    (\<forall>k\<in>own. unresolved w k \<and> queued w k = 0) \<and> (\<forall>k. k \<notin> own \<longrightarrow> placed w k) \<and>
    (\<forall>k. k < length (store w) \<longrightarrow> continuation_attached (inv_of k w) = (k \<notin> A)) \<and>
    A \<subseteq> {..<length (store w)} \<and>
    (\<forall>cid k. (cid, k) \<in> S \<longrightarrow> (cid, k) \<in> set (invocations w) \<and> send_connection (inv_of k w) \<noteq> None) \<and>
    (\<exists>n. slots_ok n w \<and> ids_ok n w \<and> n + b < 2 ^ 63))"

definition unlisted :: "nat \<Rightarrow> service \<Rightarrow> bool" where
  "unlisted k w = (k \<notin> snd ` set (invocations w))"

lemma inv_of_upd [simp]:
  "inv_of j (w\<lparr>store := (store w)[k := f (inv_of k w)]\<rparr>) =
    (if j = k \<and> k < length (store w) then f (inv_of k w) else inv_of j w)"
  by (cases "k < length (store w)") (auto simp: inv_of_def nth_list_update list_update_beyond)

lemma good_cong:
  assumes "good v own A S b w" "length (store w') = length (store w)"
    "invocations w' = invocations w" "retries w' = retries w" "call_id_seq w' = call_id_seq w"
    "\<And>k. k < length (store w) \<Longrightarrow> cid_of k w' = cid_of k w"
    "\<And>k. k < length (store w) \<Longrightarrow> invocation_promise (inv_of k w') = invocation_promise (inv_of k w)"
    "\<And>k. k < length (store w) \<Longrightarrow> continuation_attached (inv_of k w') = continuation_attached (inv_of k w)"
    "\<And>k. \<lbrakk>k < length (store w); k \<notin> own; awaited w k\<rbrakk> \<Longrightarrow> awaited w' k"
    "\<And>k. k \<in> snd ` S \<Longrightarrow> send_connection (inv_of k w') = send_connection (inv_of k w)"
    "b' \<le> b" "S' \<subseteq> S"
  shows "good (visiting w') own A S' b' w'"
proof -
  have un: "unresolved w' = unresolved w" and hs: "holds_slot w' = holds_slot w"
    using assms(2,7,8) by (auto simp: unresolved_def holds_slot_def fun_eq_iff)
  have lt: "k < length (store w)" if "unresolved w k" for k
    using that by (simp add: unresolved_def)
  have cid: "cid_of k w' = cid_of k w" if "unresolved w k" for k
    using that assms(6) lt by simp
  have qu: "queued w' = queued w"
    by (simp add: queued_def fun_eq_iff assms(4))
  have re: "registered w' k = registered w k" if "unresolved w k" for k
    using cid [OF that] by (simp add: registered_def assms(3))
  have pl: "placed w' k" if "placed w k" "k \<notin> own" for k
    using that re [of k] assms(9) [of k] lt [of k] unfolding placed_def un qu
    by (cases "unresolved w k"; cases "registered w k") simp_all
  have "table_ok w'"
  proof -
    have t: "table_ok w"
      using assms(1) by (simp add: good_def)
    have "unresolved w k \<and> cid = cid_of k w'" if "(cid, k) \<in> set (invocations w)" for cid k
    proof -
      have "unresolved w k" "cid = cid_of k w"
        using t that unfolding table_ok_def by blast+
      then show ?thesis
        by (simp add: cid)
    qed
    with t show ?thesis
      unfolding table_ok_def un assms(3) by blast
  qed
  moreover have "slots_ok n w' = slots_ok n w" for n
    by (simp add: slots_ok_def hs assms(5))
  moreover have "ids_ok n w' = ids_ok n w" for n
  proof -
    have "inj_on (\<lambda>k. cid_of k w') {k. unresolved w k} = inj_on (\<lambda>k. cid_of k w) {k. unresolved w k}"
      by (rule inj_on_cong) (simp add: cid)
    then show ?thesis
      using cid unfolding ids_ok_def un by auto
  qed
  moreover have "\<forall>k\<in>own. unresolved w' k \<and> queued w' k = 0" "\<forall>k. k \<notin> own \<longrightarrow> placed w' k"
    using assms(1) pl unfolding good_def un qu by simp_all
  moreover have "continuation_attached (inv_of k w') = (k \<notin> A)" if "k < length (store w')" for k
    using that assms(1,2,8) by (simp add: good_def)
  moreover have "(cid, k) \<in> set (invocations w') \<and> send_connection (inv_of k w') \<noteq> None" if "(cid, k) \<in> S'" for cid k
  proof -
    have "(cid, k) \<in> S" "k \<in> snd ` S"
      using that assms(12) by (auto simp: image_iff) (metis snd_conv subsetD)
    then show ?thesis
      using assms(1) assms(10) [of k] by (simp add: good_def assms(3))
  qed
  moreover have "A \<subseteq> {..<length (store w')}"
    using assms(1,2) by (simp add: good_def)
  moreover have "\<exists>n. slots_ok n w \<and> ids_ok n w \<and> n + b' < 2 ^ 63"
    using assms(1,11) unfolding good_def by (meson add_left_mono le_less_trans)
  ultimately show ?thesis
    unfolding good_def by simp
qed

section \<open>The primitive operations keep the invariant\<close>

lemma goodD:
  assumes "good v own A S b w"
  shows "visiting w = v" "table_ok w" "k \<in> own \<Longrightarrow> unresolved w k \<and> queued w k = 0"
    "k \<notin> own \<Longrightarrow> placed w k"
    "k < length (store w) \<Longrightarrow> continuation_attached (inv_of k w) = (k \<notin> A)"
    "\<exists>n. slots_ok n w \<and> ids_ok n w \<and> n + b < 2 ^ 63"
    "(cid, k) \<in> S \<Longrightarrow> (cid, k) \<in> set (invocations w) \<and> send_connection (inv_of k w) \<noteq> None"
  using assms by (auto simp: good_def)

lemma update_new: "x \<notin> fst ` set xs \<Longrightarrow> AList.update x y xs = xs @ [(x, y)]"
  by (induction xs) auto

lemma table_entry:
  assumes "table_ok w" "(cid, k) \<in> set (invocations w)"
  shows "unresolved w k" "cid = cid_of k w" "registered w k"
  using assms by (auto simp: table_ok_def registered_def)

lemma registered_entry: "registered w k \<Longrightarrow> (cid_of k w, k) \<in> set (invocations w)"
  by (auto simp: registered_def dest: map_of_SomeD)

lemma ids_inj:
  assumes "good v own A S b w" "unresolved w j" "unresolved w k" "cid_of j w = cid_of k w"
  shows "j = k"
proof -
  obtain n where "ids_ok n w"
    using goodD(6) [OF assms(1)] by blast
  then show ?thesis
    using assms by (auto simp: ids_ok_def inj_on_def)
qed

lemma good_upd:
  assumes "good v own A S b w"
    "\<And>i. request_correlation_id (request_message (f i)) = request_correlation_id (request_message i)"
    "\<And>i. invocation_promise (f i) = invocation_promise i"
    "\<And>i. continuation_attached (f i) = continuation_attached i"
    "k \<notin> own \<Longrightarrow> awaited w k \<Longrightarrow> send_connection (f (inv_of k w)) \<noteq> None \<or> pending_response (f (inv_of k w)) \<noteq> None"
    "k \<in> snd ` S \<Longrightarrow> send_connection (f (inv_of k w)) = send_connection (inv_of k w)"
  shows "good v own A S b (w\<lparr>store := (store w)[k := f (inv_of k w)]\<rparr>)"
proof -
  let ?w = "w\<lparr>store := (store w)[k := f (inv_of k w)]\<rparr>"
  have "good (visiting ?w) own A S b ?w"
    using assms(1)
  proof (rule good_cong)
    show "awaited ?w j" if "j < length (store w)" "j \<notin> own" "awaited w j" for j
      using that assms(5) by (cases "j = k") (auto simp: awaited_def)
  qed (use assms(2-4,6) in \<open>auto simp: cid_of_def\<close>)
  then show ?thesis
    using goodD(1) [OF assms(1)] by simp
qed

lemma meets_upd:
  assumes "\<And>w. P w \<Longrightarrow> good v own A S b w"
    "\<And>i. request_correlation_id (request_message (f i)) = request_correlation_id (request_message i)"
    "\<And>i. invocation_promise (f i) = invocation_promise i"
    "\<And>i. continuation_attached (f i) = continuation_attached i"
    "\<And>w. P w \<Longrightarrow> k \<notin> own \<Longrightarrow> awaited w k \<Longrightarrow> send_connection (f (inv_of k w)) \<noteq> None \<or> pending_response (f (inv_of k w)) \<noteq> None"
    "\<And>w. P w \<Longrightarrow> k \<in> snd ` S \<Longrightarrow> send_connection (f (inv_of k w)) = send_connection (inv_of k w)"
  shows "meets P (upd_inv k f) (\<lambda>_. good v own A S b)"
  unfolding upd_inv_def using assms by (intro meets_state good_upd) auto

text \<open>Passing an invocation between the running thread, the table and the retries.\<close>

lemma good_own_table:
  assumes "good v {} A S b w" "registered w k"
  shows "good v {k} A S b w"
proof -
  have un: "unresolved w k"
    using table_entry(1) [OF goodD(2) [OF assms(1)] registered_entry [OF assms(2)]] .
  then have "queued w k = 0"
    using goodD(4) [OF assms(1), of k] assms(2) by (simp add: placed_def)
  then show ?thesis
    using assms(1) un unfolding good_def by simp
qed

lemma good_return_table:
  assumes "good v {k} A S b w" "registered w k" "awaited w k"
  shows "good v {} A S b w"
proof -
  have "placed w j" for j
    using goodD(3,4) [OF assms(1), of j] assms(2,3) by (cases "j = k") (simp_all add: placed_def)
  then show ?thesis
    using assms(1) unfolding good_def by simp
qed

lemma good_mono: "\<lbrakk>good v own A S b w; b' \<le> b; S' \<subseteq> S\<rbrakk> \<Longrightarrow> good v own A S' b' w"
  using good_cong [of v own A S b w w b' S'] by (simp add: goodD(1))

lemma good_unlist:
  assumes "good v {k} A S b w" "k \<notin> snd ` S"
  shows "good v {k} A S b (w\<lparr>invocations := AList.delete (cid_of k w) (invocations w)\<rparr>)"
    "unlisted k (w\<lparr>invocations := AList.delete (cid_of k w) (invocations w)\<rparr>)"
proof -
  let ?w = "w\<lparr>invocations := AList.delete (cid_of k w) (invocations w)\<rparr>"
  have same: "inv_of j ?w = inv_of j w" "cid_of j ?w = cid_of j w" "unresolved ?w j = unresolved w j"
      "queued ?w j = queued w j" "awaited ?w j = awaited w j" "holds_slot ?w j = holds_slot w j" for j
    by (simp_all add: inv_of_def cid_of_def unresolved_def queued_def awaited_def holds_slot_def)
  have un: "unresolved w k"
    using goodD(3) [OF assms(1)] by simp
  have other: "cid_of j w \<noteq> cid_of k w" if "unresolved w j" "j \<noteq> k" for j
    using ids_inj [OF assms(1) that(1) un] that(2) by auto
  have re: "registered ?w j = registered w j" if "unresolved w j" "j \<noteq> k" for j
    using other [OF that] by (simp add: registered_def cid_of_def inv_of_def AList.delete_conv')
  have sub: "set (invocations ?w) \<subseteq> set (invocations w)"
    by (auto simp: AList.delete_eq)
  have t: "table_ok ?w"
    using goodD(2) [OF assms(1)] sub unfolding table_ok_def same
    by (auto simp: distinct_delete)
  show unl: "unlisted k ?w"
    using table_entry(2) [OF goodD(2) [OF assms(1)]] by (auto simp: unlisted_def AList.delete_eq)
  have keep: "(cid, j) \<in> set (invocations ?w)" if "(cid, j) \<in> S" for cid j
  proof -
    have e: "(cid, j) \<in> set (invocations w)"
      using goodD(7) [OF assms(1) that] by simp
    have "j \<noteq> k"
      using that assms(2) by force
    then have "cid \<noteq> cid_of k w"
      using table_entry(1,2) [OF goodD(2) [OF assms(1)] e] other [of j] by simp
    then show ?thesis
      using e by (simp add: AList.delete_eq)
  qed
  have p: "placed ?w j" if "j \<noteq> k" for j
    using goodD(4) [OF assms(1), of j] re [of j] that unfolding placed_def same
    by (cases "unresolved w j") simp_all
  have s: "slots_ok n ?w = slots_ok n w" "ids_ok n ?w = ids_ok n w" for n
    unfolding slots_ok_def ids_ok_def same by simp_all
  show "good v {k} A S b ?w"
    using assms(1) t p keep unfolding good_def s same by simp
qed

lemma good_list:
  assumes "good v {k} A S b w" "unlisted k w"
  shows "good v {k} A S b (w\<lparr>invocations := AList.update (cid_of k w) k (invocations w)\<rparr>)"
    "registered (w\<lparr>invocations := AList.update (cid_of k w) k (invocations w)\<rparr>) k"
proof -
  let ?w = "w\<lparr>invocations := AList.update (cid_of k w) k (invocations w)\<rparr>"
  have same: "inv_of j ?w = inv_of j w" "cid_of j ?w = cid_of j w" "unresolved ?w j = unresolved w j"
      "queued ?w j = queued w j" "awaited ?w j = awaited w j" "holds_slot ?w j = holds_slot w j" for j
    by (simp_all add: inv_of_def cid_of_def unresolved_def queued_def awaited_def holds_slot_def)
  show "registered ?w k"
    by (simp add: registered_def cid_of_def inv_of_def AList.update_conv')
  have un: "unresolved w k"
    using goodD(3) [OF assms(1)] by simp
  have other: "cid_of j w \<noteq> cid_of k w" if "unresolved w j" "j \<noteq> k" for j
    using ids_inj [OF assms(1) that(1) un] that(2) by auto
  have re: "registered ?w j = registered w j" if "unresolved w j" "j \<noteq> k" for j
    using other [OF that] by (simp add: registered_def cid_of_def inv_of_def AList.update_conv')
  have "cid_of k w \<notin> fst ` set (invocations w)"
  proof
    assume "cid_of k w \<in> fst ` set (invocations w)"
    then obtain j where j: "(cid_of k w, j) \<in> set (invocations w)" by force
    then have "j = k"
      using table_entry(1,2) [OF goodD(2) [OF assms(1)] j] other [of j] by fastforce
    then show False
      using j assms(2) by (force simp: unlisted_def)
  qed
  then have app: "AList.update (cid_of k w) k (invocations w) = invocations w @ [(cid_of k w, k)]"
    by (rule update_new)
  have t: "table_ok ?w"
    using goodD(2) [OF assms(1)] un \<open>cid_of k w \<notin> _\<close> unfolding table_ok_def same by (auto simp: app)
  have p: "placed ?w j" if "j \<noteq> k" for j
    using goodD(4) [OF assms(1), of j] re [of j] that unfolding placed_def same
    by (cases "unresolved w j") simp_all
  have s: "slots_ok n ?w = slots_ok n w" "ids_ok n ?w = ids_ok n w" for n
    unfolding slots_ok_def ids_ok_def same by simp_all
  show "good v {k} A S b ?w"
    using assms(1) t p unfolding good_def s same by (simp add: app)
qed

section \<open>Slots and promises\<close>

lemma finite_holds_slot: "finite {k. holds_slot w k}"
  by (rule finite_subset [of _ "{..<length (store w)}"]) (auto simp: holds_slot_def)

lemma holds_slot_alt:
  "holds_slot w k = (unresolved w k \<or> k < length (store w) \<and> \<not> continuation_attached (inv_of k w))"
  by (auto simp: holds_slot_def unresolved_def)

lemma slots_complete:
  assumes "counts n c (call_id_seq w)" "c < n"
  shows "\<exists>q. sequence_complete w = Inr ((), w\<lparr>call_id_seq := q\<rparr>) \<and> counts n (Suc c) q"
  using ci.fin_inv [OF assms] by (auto simp: sequence_complete_def)

text \<open>Satisfying the promise of an owned invocation that is not in the table.\<close>

definition resolve :: "nat \<Rightarrow> outcome \<Rightarrow> service \<Rightarrow> service" where
  "resolve k r w = w\<lparr>store := (store w)[k := (inv_of k w)\<lparr>invocation_promise := Some r\<rparr>]\<rparr>"

lemma resolve_fields:
  assumes "unresolved w k"
  shows "unresolved (resolve k r w) j \<longleftrightarrow> unresolved w j \<and> j \<noteq> k"
    "cid_of j (resolve k r w) = cid_of j w" "queued (resolve k r w) j = queued w j"
    "awaited (resolve k r w) j = awaited w j"
    "registered (resolve k r w) j = registered w j" "invocations (resolve k r w) = invocations w"
    "continuation_attached (inv_of j (resolve k r w)) = continuation_attached (inv_of j w)"
    "send_connection (inv_of j (resolve k r w)) = send_connection (inv_of j w)"
    "visiting (resolve k r w) = visiting w" "length (store (resolve k r w)) = length (store w)"
    "call_id_seq (resolve k r w) = call_id_seq w"
proof -
  have k: "k < length (store w)"
    using assms by (simp add: unresolved_def)
  have i: "inv_of j (resolve k r w) = (if j = k then (inv_of k w)\<lparr>invocation_promise := Some r\<rparr> else inv_of j w)" for j
    using k inv_of_upd [of j w k "invocation_promise_update (\<lambda>_. Some r)"] by (simp add: resolve_def)
  show "length (store (resolve k r w)) = length (store w)"
    by (simp add: resolve_def)
  then show "unresolved (resolve k r w) j \<longleftrightarrow> unresolved w j \<and> j \<noteq> k"
    by (auto simp: unresolved_def i)
  show c: "cid_of j (resolve k r w) = cid_of j w"
    by (simp add: cid_of_def i)
  show "registered (resolve k r w) j = registered w j"
    by (simp add: registered_def c) (simp add: resolve_def)
  show "awaited (resolve k r w) j = awaited w j" "continuation_attached (inv_of j (resolve k r w)) = continuation_attached (inv_of j w)"
    "send_connection (inv_of j (resolve k r w)) = send_connection (inv_of j w)"
    by (simp_all add: awaited_def i)
qed (simp_all add: resolve_def queued_def)

lemma good_resolve:
  assumes "good v {k} A S b w" "unlisted k w"
    "\<exists>n. slots_ok n w' \<and> ids_ok n w' \<and> n + b < 2 ^ 63"
    "w' = (resolve k r w)\<lparr>call_id_seq := q\<rparr>"
  shows "good v {} A S b w'"
proof -
  have un: "unresolved w k"
    using goodD(3) [OF assms(1)] by simp
  note f = resolve_fields [OF un, where r = r]
  have same: "unresolved w' j \<longleftrightarrow> unresolved w j \<and> j \<noteq> k" "cid_of j w' = cid_of j w" "queued w' j = queued w j"
      "awaited w' j = awaited w j" "registered w' j = registered w j" "inv_of j w' = inv_of j (resolve k r w)"
      "invocations w' = invocations w" for j
    using f(1-6) unfolding assms(4)
    by (simp_all add: unresolved_def cid_of_def inv_of_def queued_def awaited_def registered_def)
  have pl: "placed w' j" for j
    using goodD(3,4) [OF assms(1), of j] unfolding placed_def same by (cases "j = k") simp_all
  have "(cid, j) \<notin> set (invocations w) \<or> j \<noteq> k" for cid j
    using assms(2) by (force simp: unlisted_def)
  then have t: "table_ok w'"
    using goodD(2) [OF assms(1)] unfolding table_ok_def same by blast
  have l: "length (store w') = length (store w)" "visiting w' = visiting w"
    using f(9,10) by (simp_all add: assms(4))
  show ?thesis
    using assms(1,3) pl t unfolding good_def same f l by simp
qed

lemma ids_ok_subset:
  assumes "ids_ok n w" "\<And>j. unresolved w' j \<Longrightarrow> unresolved w j" "\<And>j. unresolved w' j \<Longrightarrow> cid_of j w' = cid_of j w"
  shows "ids_ok n w'"
proof -
  have "inj_on (\<lambda>k. cid_of k w) {k. unresolved w' k}"
    by (rule inj_on_subset [of _ "{k. unresolved w k}"]) (use assms(1,2) in \<open>auto simp: ids_ok_def\<close>)
  then have "inj_on (\<lambda>k. cid_of k w') {k. unresolved w' k}"
    using inj_on_cong [of "{k. unresolved w' k}" "\<lambda>k. cid_of k w'" "\<lambda>k. cid_of k w"] assms(3) by simp
  moreover have "\<exists>m\<le>n. cid_of k w' = of_nat m" if "unresolved w' k" for k
    using assms(1) assms(2,3) [OF that] by (simp add: ids_ok_def)
  ultimately show ?thesis
    by (simp add: ids_ok_def)
qed

lemma meets_set_promise:
  "meets (\<lambda>w. good v {k} A S b w \<and> unlisted k w) (set_promise k r) (\<lambda>_. good v {} A S b)"
  unfolding meets_def
proof (intro allI impI)
  fix w assume p: "good v {k} A S b w \<and> unlisted k w"
  then have g: "good v {k} A S b w" and ul: "unlisted k w" by auto
  have un: "unresolved w k" and k: "k < length (store w)" "invocation_promise (inv_of k w) = None"
    using goodD(3) [OF g] by (auto simp: unresolved_def)
  obtain n c where n: "counts n c (call_id_seq w)" "c + card {k. holds_slot w k} = n" "ids_ok n w" "n + b < 2 ^ 63"
    using goodD(6) [OF g] by (auto simp: slots_ok_def)
  note f = resolve_fields [OF un, where r = r]
  have att: "continuation_attached (inv_of k w) = (k \<notin> A)"
    using goodD(5) [OF g k(1)] .
  have hs: "holds_slot (resolve k r w) j = (holds_slot w j \<and> (j = k \<longrightarrow> k \<in> A))" for j
    using goodD(5) [OF g, of j] k(1) un unfolding holds_slot_alt f by auto
  have run: "set_promise k r w = (if k \<in> A then Inr ((), resolve k r w) else sequence_complete (resolve k r w))"
    using k att by (simp add: set_promise_def sget_def upd_inv_def sm_defs resolve_def)
  show "case set_promise k r w of Inl e \<Rightarrow> e \<noteq> AssertFailure | Inr (_, w') \<Rightarrow> good v {} A S b w'"
  proof (cases "k \<in> A")
    case True
    have "slots_ok n (resolve k r w)"
      using n True unfolding slots_ok_def f hs by auto
    moreover have "ids_ok n (resolve k r w)"
      using n(3) by (rule ids_ok_subset) (simp_all add: f)
    ultimately have "good v {} A S b (resolve k r w)"
      using n(4) f(11) by (intro good_resolve [OF g ul, where q = "call_id_seq w" and r = r]) auto
    then show ?thesis
      by (simp add: run True)
  next
    case False
    have "{j. holds_slot (resolve k r w) j} = {j. holds_slot w j} - {k}"
      using False unfolding hs by blast
    moreover have "holds_slot w k"
      using un by (simp add: holds_slot_alt)
    ultimately have card: "card {j. holds_slot w j} = Suc (card {j. holds_slot (resolve k r w) j})"
      using card_Suc_Diff1 [OF finite_holds_slot [of w], of k] by simp
    obtain q where q: "sequence_complete (resolve k r w) = Inr ((), (resolve k r w)\<lparr>call_id_seq := q\<rparr>)" "counts n (Suc c) q"
      using slots_complete [of n c "resolve k r w"] n card by (auto simp: f)
    let ?w = "(resolve k r w)\<lparr>call_id_seq := q\<rparr>"
    have same: "holds_slot ?w = holds_slot (resolve k r w)" "unresolved ?w = unresolved (resolve k r w)"
        "cid_of j ?w = cid_of j (resolve k r w)" for j
      by (auto simp: fun_eq_iff holds_slot_def unresolved_def cid_of_def inv_of_def)
    have "slots_ok n ?w"
      using q(2) n card unfolding slots_ok_def same by auto
    moreover have "ids_ok n ?w"
      using n(3) by (rule ids_ok_subset) (simp_all add: f same)
    ultimately have "good v {} A S b ?w"
      using n(4) by (intro good_resolve [OF g ul _ refl]) auto
    then show ?thesis
      by (simp add: run False q)
  qed
qed

section \<open>Fresh identifiers\<close>

text \<open>An owned invocation outside the table gets a new identifier.\<close>

lemma ids_ok_fresh:
  assumes "ids_ok n w" "n < 2 ^ 63 - 1" "cid_of k w' = of_nat (Suc n)"
    "\<And>j. unresolved w' j \<Longrightarrow> unresolved w j \<or> j = k" "\<And>j. \<lbrakk>unresolved w' j; j \<noteq> k\<rbrakk> \<Longrightarrow> cid_of j w' = cid_of j w"
  shows "ids_ok (Suc n) w'"
proof -
  have old: "\<exists>m\<le>n. cid_of j w' = of_nat m" if "unresolved w' j" "j \<noteq> k" for j
    using assms(1,4,5) that unfolding ids_ok_def by metis
  have new: "cid_of j w' \<noteq> of_nat (Suc n)" if j: "unresolved w' j" "j \<noteq> k" for j
  proof -
    obtain m where m: "m \<le> n" "cid_of j w' = of_nat m"
      using old [OF j] by blast
    have "(of_nat m :: i64) \<noteq> of_nat (Suc n)"
      using m(1) assms(2) by (simp add: word_of_nat_eq_iff take_bit_nat_eq_self del: of_nat_Suc)
    then show ?thesis
      using m(2) by simp
  qed
  have same: "i = j" if "unresolved w' i" "unresolved w' j" "cid_of i w' = cid_of j w'" for i j
  proof -
    consider "i = k \<or> j = k" | "i \<noteq> k" "j \<noteq> k" by blast
    then show ?thesis
    proof cases
      case 1
      then show ?thesis
        using that new [of i] new [of j] assms(3) by metis
    next
      case 2
      then have "unresolved w i" "unresolved w j" "cid_of i w = cid_of j w"
        using that assms(4,5) by metis+
      then show ?thesis
        using assms(1) by (auto simp: ids_ok_def inj_on_def)
    qed
  qed
  have "\<exists>m\<le>Suc n. cid_of j w' = of_nat m" if "unresolved w' j" for j
    using old [OF that] assms(3) by (cases "j = k") (auto intro: le_SucI)
  then show ?thesis
    using same by (auto simp: ids_ok_def inj_on_def)
qed

text \<open>The state after the first three statements of \<open>execute\<close>.\<close>

lemma execute_slot:
  assumes "good v {k} A S (Suc b) w" "unlisted k w"
  shows "\<exists>w'. sbind sequence_force_next (\<lambda>cid. sthen (set_correlation k cid) sequence_complete) w = Inr ((), w') \<and>
    good v {k} A S b w' \<and> unlisted k w'"
proof -
  have un: "unresolved w k" and k: "k < length (store w)"
    using goodD(3) [OF assms(1)] by (auto simp: unresolved_def)
  obtain n c where n: "counts n c (call_id_seq w)" "c + card {k. holds_slot w k} = n" "ids_ok n w" "n + Suc b < 2 ^ 63"
    using goodD(6) [OF assms(1)] by (auto simp: slots_ok_def)
  obtain q where q: "force_next (call_id_seq w) = (of_nat (Suc n), q)" "counts (Suc n) c q"
    using ci.nxt_inv [OF n(1)] n(4) by auto
  have "c < Suc n"
    using n(2) by simp
  then obtain q2 where q2: "complete q = Inr q2" "counts (Suc n) (Suc c) q2"
    using ci.fin_inv [OF q(2)] by auto
  define i where "i = (inv_of k w)\<lparr>request_message := (request_message (inv_of k w))\<lparr>request_correlation_id := of_nat (Suc n)\<rparr>\<rparr>"
  define w' where "w' = w\<lparr>store := (store w)[k := i], call_id_seq := q2\<rparr>"
  have inv: "inv_of j w' = (if j = k then i else inv_of j w)" for j
    using k by (simp add: w'_def inv_of_def nth_list_update)
  have run: "sbind sequence_force_next (\<lambda>cid. sthen (set_correlation k cid) sequence_complete) w = Inr ((), w')"
    using q(1) q2(1)
    by (simp add: sequence_force_next_def set_correlation_def upd_inv_def sequence_complete_def sm_defs
        w'_def i_def inv_of_def Let_def)
  have len: "length (store w') = length (store w)" "invocations w' = invocations w" "visiting w' = visiting w"
    by (simp_all add: w'_def)
  have same: "unresolved w' j = unresolved w j" "holds_slot w' j = holds_slot w j" "queued w' j = queued w j"
      "awaited w' j = awaited w j" "continuation_attached (inv_of j w') = continuation_attached (inv_of j w)"
      "send_connection (inv_of j w') = send_connection (inv_of j w)" for j
    unfolding unresolved_def holds_slot_def awaited_def inv len
    by (simp_all add: i_def queued_def w'_def)
  have cid: "cid_of k w' = of_nat (Suc n)" "\<And>j. j \<noteq> k \<Longrightarrow> cid_of j w' = cid_of j w"
    by (simp_all add: cid_of_def inv i_def)
  have notk: "(c, k) \<notin> set (invocations w)" for c
    using assms(2) by (force simp: unlisted_def)
  have t: "table_ok w'"
  proof -
    have "cid = cid_of j w'" if "(cid, j) \<in> set (invocations w)" for cid j
      using table_entry(2) [OF goodD(2) [OF assms(1)] that] cid(2) [of j] notk that by (cases "j = k") auto
    then show ?thesis
      using goodD(2) [OF assms(1)] unfolding table_ok_def same len by blast
  qed
  have re: "registered w' j = registered w j" if "j \<noteq> k" for j
    using that by (simp add: registered_def len cid)
  have pl: "placed w' j" if "j \<noteq> k" for j
    using goodD(4) [OF assms(1), of j] re [OF that] that unfolding placed_def same by simp
  have "slots_ok (Suc n) w'"
    using q2(2) n(2) unfolding slots_ok_def same by (auto simp: w'_def)
  moreover have "ids_ok (Suc n) w'"
    using n(3) by (rule ids_ok_fresh) (use n(4) cid in \<open>simp_all add: same\<close>)
  ultimately have "\<exists>n. slots_ok n w' \<and> ids_ok n w' \<and> n + b < 2 ^ 63"
    using n(4) by (intro exI [of _ "Suc n"]) simp
  then have "good v {k} A S b w'"
    using assms(1) t pl unfolding good_def same len by simp
  moreover have "unlisted k w'"
    using assms(2) by (simp add: unlisted_def len)
  ultimately show ?thesis
    using run by blast
qed

lemma good_queue:
  assumes "good v {k} A S b w" "unlisted k w"
  shows "good v {} A S b (w\<lparr>retries := retries w @ [(k, d)]\<rparr>)"
proof -
  let ?w = "w\<lparr>retries := retries w @ [(k, d)]\<rparr>"
  have same: "inv_of j ?w = inv_of j w" "cid_of j ?w = cid_of j w" "unresolved ?w j = unresolved w j"
      "awaited ?w j = awaited w j" "holds_slot ?w j = holds_slot w j" "registered ?w j = registered w j"
      "queued ?w j = queued w j + (if j = k then 1 else 0)" for j
    by (simp_all add: inv_of_def cid_of_def unresolved_def queued_def awaited_def holds_slot_def registered_def)
  have "\<not> registered w k"
    using assms(2) by (force simp: unlisted_def dest: registered_entry)
  then have "placed ?w j" for j
    using goodD(3,4) [OF assms(1), of j] unfolding placed_def same by (cases "j = k") simp_all
  moreover have "slots_ok n ?w = slots_ok n w" "ids_ok n ?w = ids_ok n w" "table_ok ?w = table_ok w" for n
    unfolding slots_ok_def ids_ok_def table_ok_def same by simp_all
  ultimately show ?thesis
    using assms(1) unfolding good_def same by simp
qed

lemma meets_schedule:
  "meets (\<lambda>w. good v {k} A S b w \<and> unlisted k w) (schedule k d) (\<lambda>_. good v {} A S b)"
  unfolding schedule_def by (intro meets_state) (auto intro: good_queue)

lemma meets_execute:
  "meets (\<lambda>w. good v {k} A S (Suc b) w \<and> unlisted k w) (execute k) (\<lambda>_. good v {} A S b)"
proof -
  let ?first = "sbind sequence_force_next (\<lambda>cid. sthen (set_correlation k cid) sequence_complete)"
  let ?second = "sbind (sget (\<lambda>w. (inv_of k w, invocation_retry_pause w))) (\<lambda>(i, pause).
      if sint (invoke_count i) < sint MAX_FAST_INVOCATION_COUNT then schedule k 0
      else case retry_delay (invoke_count i) pause of Inl e \<Rightarrow> sfail e | Inr d \<Rightarrow> schedule k d)"
  have split: "execute k = sthen ?first ?second"
    unfolding execute_def by (rule ext) (simp add: sm_defs split: sum.splits prod.splits)
  have "meets (\<lambda>w. good v {k} A S (Suc b) w \<and> unlisted k w) ?first (\<lambda>_ w. good v {k} A S b w \<and> unlisted k w)"
    unfolding meets_def using execute_slot by (fastforce split: sum.splits)
  moreover have "meets (\<lambda>w. good v {k} A S b w \<and> unlisted k w) ?second (\<lambda>_. good v {} A S b)"
  proof (rule meets_get_bind)
    fix x :: "invocation \<times> i64"
    obtain i pause where x: "x = (i, pause)" by (cases x)
    have s: "meets (\<lambda>w. (good v {k} A S b w \<and> unlisted k w) \<and> (inv_of k w, invocation_retry_pause w) = (i, pause))
        (schedule k d) (\<lambda>_. good v {} A S b)" for d
      by (rule meets_pre [OF meets_schedule]) simp
    have "e \<noteq> AssertFailure" if "retry_delay (invoke_count i) pause = Inl e" for e
      using that by (auto simp: retry_delay_def Let_def split: if_splits)
    then show "meets (\<lambda>w. (good v {k} A S b w \<and> unlisted k w) \<and> (inv_of k w, invocation_retry_pause w) = x)
       (case x of (i, pause) \<Rightarrow> if sint (invoke_count i) < sint MAX_FAST_INVOCATION_COUNT then schedule k 0
         else case retry_delay (invoke_count i) pause of Inl e \<Rightarrow> sfail e | Inr d \<Rightarrow> schedule k d)
       (\<lambda>_. good v {} A S b)"
      using s unfolding x by (auto intro: meets_fail split: sum.splits)
  qed
  ultimately show ?thesis
    unfolding split by (rule meets_then)
qed

section \<open>Notifications\<close>

lemma meets_erase:
  assumes "k \<notin> snd ` S"
  shows "meets (good v {k} A S b) (erase_invocation k) (\<lambda>_ w. good v {k} A S b w \<and> unlisted k w)"
  unfolding meets_def erase_invocation_def deregister_invocation_def
  using good_unlist [OF _ assms] by (auto simp: sm_defs sget_def)

lemma meets_set_exception:
  assumes "k \<notin> snd ` S"
  shows "meets (good v {k} A S b) (set_exception k e) (\<lambda>_. good v {} A S b)"
  unfolding set_exception_def
  by (rule meets_then [OF meets_upd meets_then [OF meets_erase [OF assms] meets_set_promise]]) auto

lemma meets_owned:
  assumes "k \<notin> snd ` S"
  shows "meets (good v {k} A S (Suc b)) (notify_exception_with_owned_permission ev k ex True) (\<lambda>_. good v {} A S b)"
proof (cases ex)
  case None
  have "meets (\<lambda>_. True) (notify_exception_with_owned_permission ev k ex True) (\<lambda>_. good v {} A S b)"
    unfolding notify_exception_with_owned_permission_def None meets_def
    by (auto simp: sm_defs erase_invocation_def deregister_invocation_def sget_def)
  then show ?thesis
    by (rule meets_pre) simp
next
  case (Some e)
  have set: "meets P (set_exception k e') (\<lambda>_. good v {} A S b)" if "\<And>w. P w \<Longrightarrow> good v {k} A S (Suc b) w" for P e'
    by (rule meets_pre [OF meets_set_exception [OF assms]]) (auto dest: that intro: good_mono)
  have exe: "meets P (execute k) (\<lambda>_. good v {} A S b)" if "\<And>w. P w \<Longrightarrow> good v {k} A S (Suc b) w \<and> unlisted k w" for P
    by (rule meets_pre [OF meets_execute]) (auto dest: that)
  have "meets (\<lambda>w. good v {k} A S (Suc b) w \<and> unlisted k w)
      (sbind (sget (\<lambda>w. (inv_of k w, redo_operation w, invocation_timeout w))) (\<lambda>(i, redo, timeout).
         if \<not> is_running ev then set_exception k (hazelcast_client_not_active (Some e))
         else if \<not> should_retry i redo e then set_exception k e
         else if timeout < now ev - start_time i then set_exception k operation_timeout
         else execute k)) (\<lambda>_. good v {} A S b)"
    by (rule meets_get_bind) (auto intro!: set exe split: prod.split)
  then show ?thesis
    unfolding notify_exception_with_owned_permission_def Some
    by (auto intro: meets_then [OF meets_erase [OF assms]])
qed

lemma meets_permission:
  assumes "k \<notin> snd ` S"
  shows "meets (\<lambda>w. good v {} A S b w \<and> registered w k) (get_permission_to_notify k cid)
    (\<lambda>p w. if p then good v {k} A S b w \<and> registered w k \<and> cid_of k w = cid else good v {} A S b w)"
  unfolding meets_def
proof (intro allI impI)
  fix w assume p: "good v {} A S b w \<and> registered w k"
  have own: "good v {k} A S b w"
    using good_own_table p by blast
  let ?w = "w\<lparr>store := (store w)[k := (inv_of k w)\<lparr>send_connection := None\<rparr>]\<rparr>"
  have "good v {k} A S b ?w"
    by (rule good_upd [OF own, of "send_connection_update (\<lambda>_. None)"]) (use assms in auto)
  moreover have "cid_of k ?w = cid_of k w" "registered ?w k"
    using p inv_of_upd [of k w k "send_connection_update (\<lambda>_. None)"] by (auto simp: registered_def cid_of_def)
  ultimately show "case get_permission_to_notify k cid w of Inl e \<Rightarrow> e \<noteq> AssertFailure
    | Inr (p, w) \<Rightarrow> if p then good v {k} A S b w \<and> registered w k \<and> cid_of k w = cid else good v {} A S b w"
    using p by (auto simp: get_permission_to_notify_def sm_defs sget_def upd_inv_def cid_of_def)
qed

lemma meets_notify_exception:
  assumes "k \<notin> snd ` S"
  shows "meets (\<lambda>w. good v {} A S (Suc b) w \<and> registered w k) (notify_exception ev k cid ex) (\<lambda>_. good v {} A S b)"
  unfolding notify_exception_def
proof (rule meets_bind [OF meets_permission [OF assms]])
  fix p
  show "meets (\<lambda>w. if p then good v {k} A S (Suc b) w \<and> registered w k \<and> cid_of k w = cid else good v {} A S (Suc b) w)
    (if p then notify_exception_with_owned_permission ev k ex True else sreturn ()) (\<lambda>_. good v {} A S b)"
    by (cases p) (auto intro!: meets_return intro: good_mono meets_pre [OF meets_owned [OF assms]])
qed

text \<open>A response satisfies the promise before the entry is removed.\<close>

lemma set_promise_table:
  "set_promise k r (w\<lparr>invocations := X\<rparr>) =
    (case set_promise k r w of Inl e \<Rightarrow> Inl e | Inr (a, w') \<Rightarrow> Inr (a, w'\<lparr>invocations := X\<rparr>))"
  by (auto simp: set_promise_def sm_defs sget_def upd_inv_def sequence_complete_def inv_of_def split: sum.splits)

lemma set_promise_fields:
  assumes "set_promise k r w = Inr (a, w')"
  shows "invocations w' = invocations w" "cid_of j w' = cid_of j w" "visiting w' = visiting w"
proof -
  have "cid_of j (w\<lparr>store := (store w)[k := (inv_of k w)\<lparr>invocation_promise := Some r\<rparr>]\<rparr>) = cid_of j w"
    using inv_of_upd [of j w k "invocation_promise_update (\<lambda>_. Some r)"] by (simp add: cid_of_def)
  then have "cid_of j (w\<lparr>store := (store w)[k := (inv_of k w)\<lparr>invocation_promise := Some r\<rparr>], call_id_seq := q\<rparr>) = cid_of j w" for q
    by (simp add: cid_of_def inv_of_def)
  with \<open>cid_of j (w\<lparr>store := _\<rparr>) = _\<close> show "invocations w' = invocations w" "cid_of j w' = cid_of j w" "visiting w' = visiting w"
    using assms by (auto simp: set_promise_def sm_defs sget_def upd_inv_def sequence_complete_def split: if_splits sum.splits)
qed

definition discharge :: "nat \<Rightarrow> outcome \<Rightarrow> i64 \<Rightarrow> unit op" where
  "discharge k r cid = sthen (set_promise k r) (\<lambda>w. Inr ((), w\<lparr>invocations := AList.delete cid (invocations w)\<rparr>))"

lemma meets_discharge:
  assumes "k \<notin> snd ` S"
  shows "meets (\<lambda>w. good v {k} A S b w \<and> cid_of k w = cid) (discharge k r cid) (\<lambda>_. good v {} A S b)"
  unfolding meets_def
proof (intro allI impI)
  fix w assume p: "good v {k} A S b w \<and> cid_of k w = cid"
  let ?w = "w\<lparr>invocations := AList.delete cid (invocations w)\<rparr>"
  have "good v {k} A S b ?w" "unlisted k ?w"
    using good_unlist [OF _ assms] p by auto
  then have "case set_promise k r ?w of Inl e \<Rightarrow> e \<noteq> AssertFailure | Inr (_, w') \<Rightarrow> good v {} A S b w'"
    using meets_set_promise unfolding meets_def by blast
  then show "case discharge k r cid w of Inl e \<Rightarrow> e \<noteq> AssertFailure | Inr (_, w') \<Rightarrow> good v {} A S b w'"
    using set_promise_fields(1) [of k r w] unfolding set_promise_table
    by (auto simp: discharge_def sm_defs split: sum.splits)
qed

lemma meets_complete_with:
  assumes "k \<notin> snd ` S"
  shows "meets (good v {k} A S b) (complete_with k m True) (\<lambda>_. good v {} A S b)"
  unfolding meets_def
proof (intro allI impI)
  fix w assume g: "good v {k} A S b w"
  have "case discharge k (Response m) (cid_of k w) w of Inl e \<Rightarrow> e \<noteq> AssertFailure | Inr (_, w') \<Rightarrow> good v {} A S b w'"
    using meets_discharge [OF assms, of v A b "cid_of k w" "Response m"] g by (simp add: meets_def)
  then show "case complete_with k m True w of Inl e \<Rightarrow> e \<noteq> AssertFailure | Inr (_, w') \<Rightarrow> good v {} A S b w'"
    using set_promise_fields [of k "Response m" w]
    by (auto simp: complete_with_def discharge_def erase_invocation_def deregister_invocation_def sm_defs sget_def
        split: sum.splits)
qed

lemma meets_upd_registered:
  assumes "k \<notin> snd ` S"
    "\<And>i. request_correlation_id (request_message (f i)) = request_correlation_id (request_message i)"
    "\<And>i. invocation_promise (f i) = invocation_promise i"
    "\<And>i. continuation_attached (f i) = continuation_attached i"
  shows "meets (\<lambda>w. good v {k} A S b w \<and> registered w k) (upd_inv k f) (\<lambda>_ w. good v {k} A S b w \<and> registered w k \<and>
    (\<exists>i. inv_of k w = f i))"
  unfolding upd_inv_def
proof (rule meets_state)
  fix w assume p: "good v {k} A S b w \<and> registered w k"
  let ?w = "w\<lparr>store := (store w)[k := f (inv_of k w)]\<rparr>"
  have "k < length (store w)"
    using p goodD(3) by (fastforce simp: unresolved_def)
  then have "inv_of k ?w = f (inv_of k w)"
    by simp
  moreover have "registered ?w k"
    using p assms(2) by (auto simp: registered_def cid_of_def)
  moreover have "good v {k} A S b ?w"
    using p assms by (intro good_upd) auto
  ultimately show "good v {k} A S b ?w \<and> registered ?w k \<and> (\<exists>i. inv_of k ?w = f i)"
    by blast
qed

lemma meets_notify_response:
  assumes "k \<notin> snd ` S"
  shows "meets (\<lambda>w. good v {k} A S b w \<and> registered w k) (notify_response ev k m n) (\<lambda>_. good v {} A S b)"
proof -
  have cw: "meets P (complete_with k m True) (\<lambda>_. good v {} A S b)" if "\<And>w. P w \<Longrightarrow> good v {k} A S b w" for P
    by (rule meets_pre [OF meets_complete_with [OF assms]]) (rule that)
  have wait: "meets P (sreturn ()) (\<lambda>_. good v {} A S b)"
    if "\<And>w. P w \<Longrightarrow> good v {k} A S b w \<and> registered w k \<and> awaited w k" for P
    by (rule meets_return) (use that good_return_table in blast)
  show ?thesis
    unfolding notify_response_def
  proof (rule meets_get_bind, rule meets_if)
    fix x
    let ?Q = "\<lambda>w. good v {k} A S b w \<and> registered w k"
    have u1: "meets ?Q (upd_inv k (\<lambda>i. i\<lparr>pending_response_received_time := now ev\<rparr>)) (\<lambda>_. ?Q)"
      and u2: "meets ?Q (upd_inv k (\<lambda>i. i\<lparr>backup_acks_expected := n\<rparr>)) (\<lambda>_. ?Q)"
      by (rule meets_weaken [OF meets_upd_registered [OF assms, where v = v and A = A and b = b]]; simp)+
    have u3: "meets ?Q (upd_inv k (\<lambda>i. i\<lparr>pending_response := Some m\<rparr>)) (\<lambda>_ w. ?Q w \<and> awaited w k)"
      by (rule meets_weaken [OF meets_upd_registered [OF assms, where v = v and A = A and b = b]]) (auto simp: awaited_def)
    have u4: "meets (\<lambda>w. ?Q w \<and> awaited w k) (sbind (sget (inv_of k)) (\<lambda>i.
         if sint (backup_acks_received i) \<noteq> sint n then sreturn () else complete_with k m True)) (\<lambda>_. good v {} A S b)"
      by (rule meets_get_bind, rule meets_if) (rule wait, simp, rule cw, simp)
    show "meets (\<lambda>w. ?Q w \<and> inv_of k w = x)
      (sthen (upd_inv k (\<lambda>i. i\<lparr>pending_response_received_time := now ev\<rparr>))
       (sthen (upd_inv k (\<lambda>i. i\<lparr>backup_acks_expected := n\<rparr>))
       (sthen (upd_inv k (\<lambda>i. i\<lparr>pending_response := Some m\<rparr>))
       (sbind (sget (inv_of k)) (\<lambda>i.
         if sint (backup_acks_received i) \<noteq> sint n then sreturn () else complete_with k m True)))))
      (\<lambda>_. good v {} A S b)"
      by (rule meets_pre [OF meets_then [OF u1 meets_then [OF u2 meets_then [OF u3 u4]]]]) simp
  qed (rule cw, simp)
qed

lemma meets_read:
  assumes "f m \<noteq> Inl AssertFailure" "\<And>s. P s \<Longrightarrow> Q () s" "\<And>x. meets P (g x) Q"
  shows "meets P (read_message f m g) Q"
  using assms by (auto simp: read_message_def intro: meets_fail meets_return split: sum.splits)

lemma meets_notify_backup:
  assumes "k \<notin> snd ` S"
  shows "meets (\<lambda>w. good v {} A S b w \<and> registered w k) (notify_backup k) (\<lambda>_. good v {} A S b)"
proof -
  let ?f = "\<lambda>i. i\<lparr>backup_acks_received := backup_acks_received i + 1\<rparr>"
  have "meets (\<lambda>w. good v {} A S b w \<and> registered w k) (upd_inv k ?f) (\<lambda>_ w. good v {} A S b w \<and> registered w k)"
    unfolding upd_inv_def
  proof (rule meets_state)
    fix w assume p: "good v {} A S b w \<and> registered w k"
    then have "good v {} A S b (w\<lparr>store := (store w)[k := ?f (inv_of k w)]\<rparr>)"
      by (intro good_upd) (auto simp: awaited_def)
    moreover have "registered (w\<lparr>store := (store w)[k := ?f (inv_of k w)]\<rparr>) k"
      using p inv_of_upd [of k w k ?f] by (auto simp: registered_def cid_of_def)
    ultimately show "good v {} A S b (w\<lparr>store := (store w)[k := ?f (inv_of k w)]\<rparr>) \<and>
        registered (w\<lparr>store := (store w)[k := ?f (inv_of k w)]\<rparr>) k"
      by blast
  qed
  moreover have "meets (\<lambda>w. good v {} A S b w \<and> registered w k) (sbind (sget (inv_of k)) (\<lambda>i.
      if pending_response i = None then sreturn ()
      else if sint (backup_acks_expected i) \<noteq> sint (backup_acks_received i) then sreturn ()
      else complete_with_pending_response k True)) (\<lambda>_. good v {} A S b)"
  proof (rule meets_get_bind, intro meets_if)
    fix x :: invocation
    show "meets (\<lambda>w. (good v {} A S b w \<and> registered w k) \<and> inv_of k w = x) (complete_with_pending_response k True) (\<lambda>_. good v {} A S b)"
      unfolding complete_with_pending_response_def
    proof (rule meets_get_bind)
      fix y :: invocation
      show "meets (\<lambda>w. ((good v {} A S b w \<and> registered w k) \<and> inv_of k w = x) \<and> inv_of k w = y)
         (case pending_response y of None \<Rightarrow> sfail UndefinedBehaviour | Some m \<Rightarrow> complete_with k m True) (\<lambda>_. good v {} A S b)"
        by (cases "pending_response y")
          (auto intro: meets_fail meets_pre [OF meets_complete_with [OF assms]] good_own_table)
    qed
  qed (auto intro: meets_return)
  ultimately show ?thesis
    unfolding notify_backup_def by (rule meets_then)
qed

text \<open>A message whose readers meet no failing assertion.\<close>

definition readable :: "msg \<Rightarrow> bool" where
  "readable m = (is_flag_set BACKUP_EVENT_FLAG m \<noteq> Inl AssertFailure \<and>
    sthen (skip_bytes EVENT_HEADER_LEN) get_int64 m \<noteq> Inl AssertFailure \<and>
    get_message_type m \<noteq> Inl AssertFailure \<and> get_correlation_id m \<noteq> Inl AssertFailure \<and>
    get_number_of_backups m \<noteq> Inl AssertFailure \<and> error_codec_decode m \<noteq> Inl AssertFailure)"

lemma create_exception_no_assert: "create_exception f fac es \<noteq> Inl AssertFailure"
  by (induction es) (auto split: option.splits sum.splits)

text \<open>A short response has no number of backups: reading it is undefined.\<close>

lemma backups_read_or_fatal: "get_number_of_backups m = Inl e \<Longrightarrow> fatal e"
  by (auto simp: get_number_of_backups_def ptr_load_def sm_defs fatal_def split: if_splits option.splits prod.splits sum.splits)

lemma meets_notify:
  assumes "k \<notin> snd ` S" "readable m"
  shows "meets (\<lambda>w. good v {} A S b w \<and> registered w k) (notify ev k m) (\<lambda>_. good v {} A S b)"
  unfolding notify_def
proof (rule meets_read)
  fix cid
  show "meets (\<lambda>w. good v {} A S b w \<and> registered w k) (sbind (get_permission_to_notify k cid) (\<lambda>permitted.
       if permitted then read_message get_number_of_backups m (notify_response ev k m) else sreturn ())) (\<lambda>_. good v {} A S b)"
  proof (rule meets_bind [OF meets_permission [OF assms(1)]])
    fix p
    have "meets (\<lambda>w. good v {k} A S b w \<and> registered w k \<and> cid_of k w = cid)
      (read_message get_number_of_backups m (notify_response ev k m)) (\<lambda>_. good v {} A S b)"
      using assms(2) backups_read_or_fatal [of m]
      by (auto simp: read_message_def readable_def intro: meets_fail meets_pre [OF meets_notify_response [OF assms(1)]] split: sum.splits)
    then show "meets (\<lambda>w. if p then good v {k} A S b w \<and> registered w k \<and> cid_of k w = cid else good v {} A S b w)
      (if p then read_message get_number_of_backups m (notify_response ev k m) else sreturn ()) (\<lambda>_. good v {} A S b)"
      by (cases p) (auto intro: meets_return)
  qed
qed (use assms(2) in \<open>auto simp: readable_def\<close>)

lemma meets_get_invocation:
  assumes "\<And>k. meets (\<lambda>w. good v {} A {} b w \<and> registered w k) (g k) (\<lambda>_. good v {} A {} b')" "b' \<le> b"
  shows "meets (good v {} A {} b) (sbind (get_invocation cid) (\<lambda>found. case found of None \<Rightarrow> sreturn () | Some k \<Rightarrow> g k))
    (\<lambda>_. good v {} A {} b')"
  unfolding meets_def
proof (intro allI impI)
  fix w assume g: "good v {} A {} b w"
  have r: "registered w k" if "map_of (invocations w) cid = Some k" for k
    using table_entry(3) [OF goodD(2) [OF g] map_of_SomeD [OF that]] .
  show "case sbind (get_invocation cid) (\<lambda>found. case found of None \<Rightarrow> sreturn () | Some k \<Rightarrow> g k) w of
    Inl e \<Rightarrow> e \<noteq> AssertFailure | Inr (_, w') \<Rightarrow> good v {} A {} b' w'"
    using g r assms(1) good_mono [OF g assms(2)] unfolding meets_def
    by (cases "map_of (invocations w) cid") (auto simp: get_invocation_def sm_defs)
qed

lemma meets_process_response:
  assumes "readable m"
  shows "meets (good False {} A {} (Suc b)) (process_response ev opt fac (cid, m)) (\<lambda>_. good False {} A {} b)"
proof -
  have low: "good False {} A {} (Suc b) w \<Longrightarrow> good False {} A {} b w" for w
    by (rule good_mono) auto
  have weak: "meets (\<lambda>w. good False {} A {} (Suc b) w \<and> registered w k) g (\<lambda>_. good False {} A {} b)"
    if "meets (\<lambda>w. good False {} A {} b w \<and> registered w k) g (\<lambda>_. good False {} A {} b)" for g :: "unit op" and k
    by (rule meets_pre [OF that]) (simp add: low)
  have err: "meets (\<lambda>w. good False {} A {} (Suc b) w \<and> registered w k)
      (case create_exception opt fac errors of Inl e \<Rightarrow> if fatal e then sfail e else sreturn () | Inr ex \<Rightarrow> notify_exception ev k cid ex)
      (\<lambda>_. good False {} A {} b)" for k errors
    using create_exception_no_assert [of opt fac errors]
    by (auto intro: meets_fail meets_notify_exception intro!: meets_return low split: sum.splits)
  show ?thesis
    using assms unfolding process_response_def prod.case readable_def
    by (intro meets_read meets_if meets_get_invocation weak [OF meets_notify_backup] weak [OF meets_notify] err)
      (auto simp: low readable_def)
qed

section \<open>Backup timeouts\<close>

text \<open>The entry of a timed out invocation that fails on the indeterminate state is visited while the
  table is locked; the failure removes it from the table.\<close>

lemma indeterminate_not_retried: "\<not> should_retry i redo indeterminate_operation_state"
  by (simp add: should_retry_def indeterminate_operation_state_def local_exception_def IO_CODE_def
      TARGET_DISCONNECTED_CODE_def TARGET_NOT_MEMBER_CODE_def INSTANCE_NOT_ACTIVE_CODE_def)

lemma set_exception_visiting: "visiting w \<Longrightarrow> set_exception k e w = Inl UndefinedBehaviour"
  by (simp add: set_exception_def upd_inv_def erase_invocation_def deregister_invocation_def sm_defs sget_def)

lemma indeterminate_visiting:
  assumes "visiting w"
  shows "notify_exception_with_owned_permission ev k (Some indeterminate_operation_state) False w = Inl UndefinedBehaviour"
  using set_exception_visiting [OF assms] indeterminate_not_retried
  by (simp add: notify_exception_with_owned_permission_def sm_defs sget_def)

definition visit_entry :: "env \<Rightarrow> int \<Rightarrow> i64 \<Rightarrow> nat \<Rightarrow> unit op" where
  "visit_entry ev t cid k = sbind (detect_and_handle_backup_timeout ev t k) (\<lambda>erase w.
     Inr ((), if erase then w\<lparr>invocations := AList.delete cid (invocations w)\<rparr> else w))"

lemma visit_entry_cases:
  assumes "visiting w"
  obtains "visit_entry ev t cid k w = Inr ((), w)" | "visit_entry ev t cid k w = Inl UndefinedBehaviour"
    | m where "visit_entry ev t cid k w = discharge k (Response m) cid w"
proof -
  let ?i = "inv_of k w"
  consider "sint (backup_acks_expected ?i) = sint (backup_acks_received ?i) \<or> pending_response ?i = None \<or>
      now ev \<le> pending_response_received_time ?i + t"
    | m where "\<not> (sint (backup_acks_expected ?i) = sint (backup_acks_received ?i) \<or>
      now ev \<le> pending_response_received_time ?i + t)" "pending_response ?i = Some m"
    by (cases "pending_response ?i") auto
  then show thesis
  proof cases
    case 1
    then have "visit_entry ev t cid k w = Inr ((), w)"
      by (auto simp: visit_entry_def detect_and_handle_backup_timeout_def sm_defs sget_def)
    then show thesis by (rule that)
  next
    case (2 m)
    show thesis
    proof (cases "fail_on_indeterminate_operation_state w")
      case True
      then have "visit_entry ev t cid k w = Inl UndefinedBehaviour"
        using 2 indeterminate_visiting [OF assms]
        by (simp add: visit_entry_def detect_and_handle_backup_timeout_def sm_defs sget_def)
      then show thesis by (rule that)
    next
      case False
      then have "visit_entry ev t cid k w = discharge k (Response m) cid w"
        using 2 by (simp add: visit_entry_def detect_and_handle_backup_timeout_def discharge_def
            complete_with_pending_response_def complete_with_def sm_defs sget_def split: sum.split)
      then show thesis by (rule that)
    qed
  qed
qed

lemma meets_check_entry:
  assumes "k \<notin> snd ` S"
  shows "meets (\<lambda>w. good True {} A S b w \<and> (cid, k) \<in> set (invocations w))
    (visit_entry ev t cid k)
    (\<lambda>_. good True {} A S b)"
  unfolding meets_def
proof (intro allI impI)
  fix w assume p: "good True {} A S b w \<and> (cid, k) \<in> set (invocations w)"
  then have g: "good True {} A S b w" and v: "visiting w"
    using goodD(1) by auto
  have r: "registered w k" "cid_of k w = cid"
    using table_entry [OF goodD(2) [OF g]] p by auto
  have "case discharge k (Response m) cid w of Inl e \<Rightarrow> e \<noteq> AssertFailure | Inr (_, w') \<Rightarrow> good True {} A S b w'" for m
    using meets_discharge [OF assms, of True A b cid "Response m"] good_own_table [OF g r(1)] r(2) by (simp add: meets_def)
  then show "case visit_entry ev t cid k w of
    Inl e \<Rightarrow> e \<noteq> AssertFailure | Inr (_, w') \<Rightarrow> good True {} A S b w'"
    using g by (cases rule: visit_entry_cases [OF v, of ev t cid k]) auto
qed

lemma check_entries_split:
  "check_entries ev t ((cid, k) # es) =
    sthen (visit_entry ev t cid k) (check_entries ev t es)"
  by (rule ext) (simp add: visit_entry_def sm_defs split: sum.splits prod.splits)

text \<open>The entries that are still to be visited are in the table.\<close>

lemma check_entry_others:
  assumes "visit_entry ev t cid k w = Inr (a, w')"
    "visiting w" "e \<in> set (invocations w)" "fst e \<noteq> cid"
  shows "e \<in> set (invocations w')"
  using assms(1,3,4)
  by (cases rule: visit_entry_cases [OF assms(2), of ev t cid k])
    (auto simp: discharge_def sm_defs AList.delete_eq split: sum.splits dest!: set_promise_fields(1))

lemma meets_check_entries:
  "distinct (map fst es) \<Longrightarrow>
    meets (\<lambda>w. good True {} A {} b w \<and> set es \<subseteq> set (invocations w)) (check_entries ev t es) (\<lambda>_. good True {} A {} b)"
proof (induction es)
  case Nil
  show ?case by (simp add: meets_def)
next
  case (Cons e es)
  obtain cid k where e: "e = (cid, k)" by (cases e)
  let ?visit = "visit_entry ev t cid k"
  have "meets (\<lambda>w. good True {} A {} b w \<and> set (e # es) \<subseteq> set (invocations w)) ?visit
      (\<lambda>_ w. good True {} A {} b w \<and> set es \<subseteq> set (invocations w))"
    unfolding meets_def
  proof (intro allI impI)
    fix w assume p: "good True {} A {} b w \<and> set (e # es) \<subseteq> set (invocations w)"
    have *: "case ?visit w of Inl e \<Rightarrow> e \<noteq> AssertFailure | Inr (_, w') \<Rightarrow> good True {} A {} b w'"
      using meets_check_entry [of k "{}" A b cid ev t] p unfolding meets_def e by simp
    show "case ?visit w of Inl e \<Rightarrow> e \<noteq> AssertFailure
      | Inr (_, w') \<Rightarrow> good True {} A {} b w' \<and> set es \<subseteq> set (invocations w')"
    proof (cases "?visit w")
      case (Inr r)
      obtain w' where r: "r = ((), w')" by (cases r) auto
      have "x \<in> set (invocations w')" if "x \<in> set es" for x
      proof (rule check_entry_others [OF Inr [unfolded r]])
        show "visiting w" "x \<in> set (invocations w)"
          using p that goodD(1) by auto
        show "fst x \<noteq> cid"
          using Cons.prems that by (auto simp: e)
      qed
      then show ?thesis
        using * Inr r by auto
    qed (use * in simp)
  qed
  then show ?case
    unfolding e check_entries_split using Cons.IH Cons.prems by (intro meets_then) (simp_all add: e)
qed

lemma good_visiting: "good v own A S b w \<Longrightarrow> good v' own A S b (w\<lparr>visiting := v'\<rparr>)"
  using good_cong [of v own A S b w "w\<lparr>visiting := v'\<rparr>" b S] by (simp add: cid_of_def inv_of_def awaited_def)

lemma meets_check_backup_timeouts:
  "meets (good False {} A {} b) (check_backup_timeouts ev t) (\<lambda>_. good False {} A {} b)"
proof -
  have a: "meets (good False {} A {} b) (\<lambda>w. Inr ((), w\<lparr>visiting := True\<rparr>)) (\<lambda>_. good True {} A {} b)"
    by (rule meets_state) (rule good_visiting)
  have c: "meets (good True {} A {} b) (\<lambda>w. Inr ((), w\<lparr>visiting := False\<rparr>)) (\<lambda>_. good False {} A {} b)"
    by (rule meets_state) (rule good_visiting)
  have "meets (good True {} A {} b) (sbind (sget invocations) (check_entries ev t)) (\<lambda>_. good True {} A {} b)"
  proof (rule meets_get_bind)
    fix es
    show "meets (\<lambda>w. good True {} A {} b w \<and> invocations w = es) (check_entries ev t es) (\<lambda>_. good True {} A {} b)"
    proof (cases "distinct (map fst es)")
      case True
      show ?thesis
        by (rule meets_pre [OF meets_check_entries [OF True]]) auto
    next
      case False
      then show ?thesis
        by (auto simp: meets_def dest!: goodD(2) simp: table_ok_def)
    qed
  qed
  then show ?thesis
    unfolding check_backup_timeouts_def by (intro meets_then [OF a] meets_then [OF _ c])
qed

section \<open>Sending\<close>

text \<open>An operation that leaves the store, the table, the retries and the sequence alone.\<close>

lemma good_frame:
  assumes "good v own A S b w" "store w' = store w" "invocations w' = invocations w" "retries w' = retries w"
    "call_id_seq w' = call_id_seq w" "visiting w' = visiting w"
  shows "good v own A S b w'" "registered w' k = registered w k" "awaited w' k = awaited w k" "unlisted k w' = unlisted k w"
proof -
  have i: "inv_of j w' = inv_of j w" for j
    by (simp add: inv_of_def assms(2))
  have "good (visiting w') own A S b w'"
    using assms(1) by (rule good_cong) (simp_all add: assms cid_of_def i awaited_def)
  then show "good v own A S b w'"
    using goodD(1) [OF assms(1)] assms(6) by simp
qed (simp_all add: registered_def awaited_def unlisted_def cid_of_def inv_of_def assms)

lemma good_handed_over:
  assumes "good v own A S b w"
  shows "good v own A S b (w\<lparr>event_handlers := h\<rparr>)" "good v own A S b (w\<lparr>written := h'\<rparr>)"
  by (rule good_frame(1) [OF assms]; simp)+

lemma registered_handed_over [simp]: "registered (w\<lparr>event_handlers := h\<rparr>) k = registered w k"
  by (simp add: registered_def cid_of_def inv_of_def)

text \<open>Before it is sent the invocation is owned and outside the table; the outcome decides who owns it.\<close>

abbreviation ready :: "nat \<Rightarrow> nat set \<Rightarrow> nat \<Rightarrow> service \<Rightarrow> bool" where
  "ready k A b w \<equiv> good False {k} A {} (Suc b) w \<and> unlisted k w"

definition sent_or_ready :: "nat \<Rightarrow> nat set \<Rightarrow> nat \<Rightarrow> hz_exception + bool \<Rightarrow> service \<Rightarrow> bool" where
  "sent_or_ready k A b r w = (if r = Inr True then good False {} A {} b w else ready k A b w)"

lemma sent_or_ready_simps [simp]:
  "sent_or_ready k A b (Inr True) w = good False {} A {} b w"
  "sent_or_ready k A b (Inr False) w = ready k A b w"
  "sent_or_ready k A b (Inl e) w = ready k A b w"
  by (simp_all add: sent_or_ready_def)

lemma meets_upd_ready:
  assumes "\<And>i. request_correlation_id (request_message (f i)) = request_correlation_id (request_message i)"
    "\<And>i. invocation_promise (f i) = invocation_promise i"
    "\<And>i. continuation_attached (f i) = continuation_attached i"
  shows "meets (\<lambda>w. ready k A b w \<and> cid_of k w = cid) (upd_inv k f) (\<lambda>_ w. ready k A b w \<and> cid_of k w = cid)"
  unfolding upd_inv_def
proof (rule meets_state)
  fix w assume p: "ready k A b w \<and> cid_of k w = cid"
  let ?w = "w\<lparr>store := (store w)[k := f (inv_of k w)]\<rparr>"
  have "good False {k} A {} (Suc b) ?w"
    by (rule good_upd) (use p assms in auto)
  moreover have "cid_of k ?w = cid"
    using p assms(1) by (auto simp: cid_of_def)
  ultimately show "ready k A b ?w \<and> cid_of k ?w = cid"
    using p by (simp add: unlisted_def)
qed

lemma meets_register:
  "meets (\<lambda>w. ready k A b w \<and> cid_of k w = cid) (register_invocation cid k)
    (\<lambda>_ w. good False {k} A {} (Suc b) w \<and> registered w k)"
  unfolding meets_def register_invocation_def using good_list by fastforce

lemma meets_set_send_connection:
  "meets (\<lambda>w. good False {k} A {} b w \<and> registered w k) (set_send_connection k (Some c))
    (\<lambda>_ w. good False {} A {} b w \<and> registered w k)"
  unfolding set_send_connection_def
  by (rule meets_weaken [OF meets_upd_registered [where S = "{}" and A = A and b = b and v = False]])
    (auto simp: awaited_def intro: good_return_table)

lemma meets_send: "meets (ready k A b) (send ev n k c) (sent_or_ready k A b)"
  unfolding send_def
proof (rule meets_get_bind)
  fix x :: "bool \<times> bool \<times> i64 \<times> invocation"
  obtain down acks cid i where x: "x = (down, acks, cid, i)" by (cases x)
  let ?P = "\<lambda>w. ready k A b w \<and> (is_shutdown w, backup_acks_enabled w, cid_of k w, inv_of k w) = (down, acks, cid, i)"
  let ?R = "\<lambda>w. ready k A b w \<and> cid_of k w = cid"
  let ?G = "\<lambda>w. good False {k} A {} (Suc b) w \<and> registered w k"
  let ?H = "\<lambda>w. good False {} A {} (Suc b) w \<and> registered w k"
  have flag: "meets ?P (if acks then upd_inv k (\<lambda>i. i\<lparr>request_message := (request_message i)\<lparr>request_flags :=
                request_flags (request_message i) OR BACKUP_AWARE_FLAG\<rparr>\<rparr>) else sreturn ()) (\<lambda>_. ?R)"
  proof (rule meets_if)
    show "meets ?P (upd_inv k (\<lambda>i. i\<lparr>request_message := (request_message i)\<lparr>request_flags :=
        request_flags (request_message i) OR BACKUP_AWARE_FLAG\<rparr>\<rparr>)) (\<lambda>_. ?R)"
      by (rule meets_pre [OF meets_upd_ready [where cid = cid]]) simp_all
    show "meets ?P (sreturn ()) (\<lambda>_. ?R)"
      by (rule meets_return) simp
  qed
  have handler: "meets ?G (if has_event_handler i then add_event_handler c cid k else sreturn ()) (\<lambda>_. ?G)"
  proof (rule meets_if)
    show "meets ?G (add_event_handler c cid k) (\<lambda>_. ?G)"
      unfolding add_event_handler_def
      by (rule meets_state) (simp add: good_handed_over)
  qed (simp add: meets_def)
  have gone: "meets ?H (sthen (notify_exception ev k cid (Some target_disconnected)) (sreturn (Inr True))) (sent_or_ready k A b)"
    by (rule meets_then [OF meets_notify_exception]) (simp_all add: meets_def)
  have "meets ?H (write_to_connection c k) (\<lambda>_. good False {} A {} b)"
    unfolding write_to_connection_def
    by (rule meets_state) (auto intro: good_handed_over(2) good_mono)
  then have out: "meets ?H (sthen (write_to_connection c k) (sreturn (Inr True))) (sent_or_ready k A b)"
    by (rule meets_then) (simp add: meets_def)
  show "meets (\<lambda>w. ready k A b w \<and> (is_shutdown w, backup_acks_enabled w, cid_of k w, inv_of k w) = x)
     (case x of (down, acks, cid, i) \<Rightarrow>
       if down then sreturn (Inl (hazelcast_client_not_active None))
       else if \<not> is_alive ev c (2 * n) then sreturn (Inr False)
       else sthen (if acks then upd_inv k (\<lambda>i. i\<lparr>request_message := (request_message i)\<lparr>request_flags :=
                request_flags (request_message i) OR BACKUP_AWARE_FLAG\<rparr>\<rparr>) else sreturn ())
         (sthen (register_invocation cid k)
         (sthen (if has_event_handler i then add_event_handler c cid k else sreturn ())
         (sthen (set_send_connection k (Some c))
         (if \<not> is_alive ev c (2 * n + 1)
          then sthen (notify_exception ev k cid (Some target_disconnected)) (sreturn (Inr True))
          else sthen (write_to_connection c k) (sreturn (Inr True)))))))
     (sent_or_ready k A b)"
    unfolding x prod.case
    by (intro meets_if meets_return) (simp, simp, rule meets_then [OF flag meets_then [OF meets_register
      meets_then [OF handler meets_then [OF meets_set_send_connection meets_if [OF gone out]]]]])
qed

lemma meets_invoke_random: "meets (ready k A b) (invoke_random ev n k) (sent_or_ready k A b)"
  by (auto simp: invoke_random_def intro: meets_send meets_return split: option.split)

lemma meets_invoke_on_target:
  "u \<noteq> nil_uuid \<Longrightarrow> meets (ready k A b) (invoke_on_target ev k u) (sent_or_ready k A b)"
  by (auto simp: invoke_on_target_def intro: meets_send meets_return split: option.split)

lemma meets_invoke_on_partition_owner: "meets (ready k A b) (invoke_on_partition_owner ev k p) (sent_or_ready k A b)"
  by (auto simp: invoke_on_partition_owner_def intro: meets_invoke_on_target meets_return)

lemma meets_send_to_selection: "meets (ready k A b) (send_to_selection ev k i) (sent_or_ready k A b)"
  unfolding send_to_selection_def
proof (rule meets_get_bind, rule meets_pre [where P' = "ready k A b"])
  fix smart
  have again: "meets (sent_or_ready k A b r) (case r of Inr False \<Rightarrow> invoke_random ev 1 k | _ \<Rightarrow> sreturn r) (sent_or_ready k A b)" for r
    using meets_invoke_random [of k A b ev 1]
    by (cases r) (auto intro!: meets_return elim!: meets_pre split: bool.split)
  have first: "meets (ready k A b) (if partition_id i \<noteq> - 1 then invoke_on_partition_owner ev k (partition_id i)
              else if target_uuid i \<noteq> nil_uuid then invoke_on_target ev k (target_uuid i)
              else invoke_random ev 0 k) (sent_or_ready k A b)"
    by (intro meets_if meets_invoke_on_partition_owner meets_invoke_on_target meets_invoke_random)
  show "meets (ready k A b)
     (if bound_to_single_connection i then
       (case bound_connection i of
          Some c \<Rightarrow> if connection_exists ev c then send ev 0 k c else sreturn (Inr False)
        | None \<Rightarrow> sreturn (Inr False))
     else if smart then
       sbind (if partition_id i \<noteq> - 1 then invoke_on_partition_owner ev k (partition_id i)
              else if target_uuid i \<noteq> nil_uuid then invoke_on_target ev k (target_uuid i)
              else invoke_random ev 0 k)
         (\<lambda>r. case r of Inr False \<Rightarrow> invoke_random ev 1 k | _ \<Rightarrow> sreturn r)
     else invoke_random ev 0 k) (sent_or_ready k A b)"
    by (intro meets_if meets_bind [OF first again] meets_invoke_random)
      (auto intro: meets_send meets_return split: option.split)
qed simp

lemma meets_invoke_on_selection: "meets (ready k A b) (invoke_on_selection ev k) (\<lambda>_. good False {} A {} b)"
  unfolding invoke_on_selection_def
proof (rule meets_then)
  show "meets (ready k A b) (upd_inv k (\<lambda>i. i\<lparr>invoke_count := invoke_count i + 1\<rparr>)) (\<lambda>_. ready k A b)"
    unfolding upd_inv_def by (rule meets_state) (auto simp: unlisted_def intro!: good_upd)
  have own: "meets P (notify_exception_with_owned_permission ev k ex True) (\<lambda>_. good False {} A {} b)"
    if "\<And>w. P w \<Longrightarrow> ready k A b w" for P ex
    by (rule meets_pre [OF meets_owned]) (auto dest: that)
  have select: "meets (sent_or_ready k A b r) (case r of
            Inl e \<Rightarrow> notify_exception_with_owned_permission ev k (Some e) True
          | Inr False \<Rightarrow> notify_exception_with_owned_permission ev k (Some io_exception) True
          | Inr True \<Rightarrow> sreturn ()) (\<lambda>_. good False {} A {} b)" for r
    by (cases r) (auto intro!: own meets_return split: bool.split)
  show "meets (ready k A b) (sbind (sget (inv_of k)) (\<lambda>i.
      case (if urgent i then check_urgent_invocation_allowed ev i else check_invocation_allowed ev) of
        Some e \<Rightarrow> notify_exception_with_owned_permission ev k (Some e) True
      | None \<Rightarrow> sbind (send_to_selection ev k i) (\<lambda>r. case r of
            Inl e \<Rightarrow> notify_exception_with_owned_permission ev k (Some e) True
          | Inr False \<Rightarrow> notify_exception_with_owned_permission ev k (Some io_exception) True
          | Inr True \<Rightarrow> sreturn ()))) (\<lambda>_. good False {} A {} b)"
  proof (rule meets_get_bind, rule meets_pre [where P' = "ready k A b"])
    fix i
    have "meets (ready k A b) (sbind (send_to_selection ev k i) (\<lambda>r. case r of
            Inl e \<Rightarrow> notify_exception_with_owned_permission ev k (Some e) True
          | Inr False \<Rightarrow> notify_exception_with_owned_permission ev k (Some io_exception) True
          | Inr True \<Rightarrow> sreturn ())) (\<lambda>_. good False {} A {} b)"
      by (rule meets_bind [OF meets_send_to_selection select])
    then show "meets (ready k A b) (case (if urgent i then check_urgent_invocation_allowed ev i else check_invocation_allowed ev) of
        Some e \<Rightarrow> notify_exception_with_owned_permission ev k (Some e) True
      | None \<Rightarrow> sbind (send_to_selection ev k i) (\<lambda>r. case r of
            Inl e \<Rightarrow> notify_exception_with_owned_permission ev k (Some e) True
          | Inr False \<Rightarrow> notify_exception_with_owned_permission ev k (Some io_exception) True
          | Inr True \<Rightarrow> sreturn ())) (\<lambda>_. good False {} A {} b)"
      by (cases "if urgent i then check_urgent_invocation_allowed ev i else check_invocation_allowed ev")
        (simp_all add: own)
  qed simp
qed

section \<open>Closed connections\<close>

lemma meets_fail_entry:
  assumes "k \<notin> snd ` S"
  shows "meets (good False {} A (insert (cid, k) S) (Suc b)) (fail_entry ev (cid, k)) (\<lambda>_. good False {} A S b)"
  unfolding meets_def
proof (intro allI impI)
  fix w assume g: "good False {} A (insert (cid, k) S) (Suc b) w"
  have e: "(cid, k) \<in> set (invocations w)" "send_connection (inv_of k w) \<noteq> None"
    using goodD(7) [OF g, of cid k] by auto
  have r: "registered w k" "cid = cid_of k w"
    using table_entry [OF goodD(2) [OF g] e(1)] by auto
  have "good False {k} A S (Suc b) w"
    using good_own_table [OF good_mono [OF g] r(1)] by auto
  let ?w = "w\<lparr>invocations := AList.delete cid (invocations w)\<rparr>"
  let ?w2 = "?w\<lparr>store := (store ?w)[k := (inv_of k ?w)\<lparr>send_connection := None\<rparr>]\<rparr>"
  have "good False {k} A S (Suc b) ?w"
    using good_unlist(1) [OF \<open>good False {k} A S (Suc b) w\<close> assms] r(2) by simp
  then have "good False {k} A S (Suc b) ?w2"
    by (rule good_upd [of _ _ _ _ _ _ "send_connection_update (\<lambda>_. None)"]) (use assms in auto)
  then have "case notify_exception_with_owned_permission ev k (Some target_disconnected) True ?w2 of
      Inl e \<Rightarrow> e \<noteq> AssertFailure | Inr (_, w') \<Rightarrow> good False {} A S b w'"
    using meets_owned [OF assms, of False A b ev "Some target_disconnected"] by (simp add: meets_def)
  moreover have "fail_entry ev (cid, k) w = notify_exception_with_owned_permission ev k (Some target_disconnected) True ?w2"
    using goodD(1) [OF g] e(2) r(2)
    by (auto simp: fail_entry_def deregister_invocation_def notify_exception_def get_permission_to_notify_def
        upd_inv_def sm_defs sget_def cid_of_def inv_of_def)
  ultimately show "case fail_entry ev (cid, k) w of Inl e \<Rightarrow> e \<noteq> AssertFailure | Inr (_, w') \<Rightarrow> good False {} A S b w'"
    by simp
qed

lemma meets_fail_entries:
  "distinct (map snd es) \<Longrightarrow>
    meets (good False {} A (set es) (length es + b)) (siter (fail_entry ev) es) (\<lambda>_. good False {} A {} b)"
proof (induction es)
  case Nil
  show ?case by (simp add: meets_def)
next
  case (Cons e es)
  obtain cid k where e: "e = (cid, k)" by (cases e)
  have "k \<notin> snd ` set es" "distinct (map snd es)"
    using Cons.prems by (auto simp: e)
  then show ?case
    using meets_then [OF meets_fail_entry [of k "set es" A cid "length es + b" ev] Cons.IH] by (simp add: e)
qed

lemma table_distinct:
  assumes "table_ok w"
  shows "distinct (map snd (invocations w))"
proof -
  have "inj_on snd (set (invocations w))"
    using table_entry(2) [OF assms] by (intro inj_onI) (metis prod.collapse)
  moreover have "distinct (invocations w)"
    using assms by (simp add: table_ok_def distinct_map)
  ultimately show ?thesis
    by (simp add: distinct_map)
qed

lemma meets_notify_connection_closed:
  assumes "\<And>w. P w \<Longrightarrow> good False {} A {} (length (invocations w) + b) w"
  shows "meets P (notify_connection_closed ev c) (\<lambda>_. good False {} A {} b)"
  unfolding meets_def
proof (intro allI impI)
  fix w assume "P w"
  then have g: "good False {} A {} (length (invocations w) + b) w"
    by (rule assms)
  let ?es = "entries_to_fail ev c w"
  have d: "distinct (map snd ?es)"
    using table_distinct [OF goodD(2) [OF g]] by (auto simp: entries_to_fail_def distinct_map_filter)
  have mem: "(cid, k) \<in> set (invocations w) \<and> send_connection (inv_of k w) \<noteq> None" if "(cid, k) \<in> set ?es" for cid k
    using that by (auto simp: entries_to_fail_def get_send_connection_def split: option.splits)
  have "length ?es + b \<le> length (invocations w) + b"
    by (simp add: entries_to_fail_def)
  with g have "good False {} A {} (length ?es + b) w"
    by (rule good_mono) simp
  then have "good False {} A (set ?es) (length ?es + b) w"
    using mem unfolding good_def by simp
  then have "case siter (fail_entry ev) ?es w of Inl e \<Rightarrow> e \<noteq> AssertFailure | Inr (_, w') \<Rightarrow> good False {} A {} b w'"
    using meets_fail_entries [OF d, of A b ev] by (simp add: meets_def)
  then show "case notify_connection_closed ev c w of Inl e \<Rightarrow> e \<noteq> AssertFailure | Inr (_, w') \<Rightarrow> good False {} A {} b w'"
    by (simp add: notify_connection_closed_def sm_defs sget_def)
qed

section \<open>Starting and retrying\<close>

definition take_retry :: "nat \<times> i64 \<Rightarrow> unit op" where
  "take_retry p = (\<lambda>w. Inr ((), w\<lparr>retries := remove1 p (retries w)\<rparr>))"

lemma count_remove1:
  "x \<in> set xs \<Longrightarrow> count_list (map f xs) y = count_list (map f (remove1 x xs)) y + (if f x = y then 1 else 0)"
  by (induction xs) auto

lemma take_retry_ready:
  assumes "good False {} A {} (Suc b) w" "(k, d) \<in> set (retries w)"
  shows "ready k A b (w\<lparr>retries := remove1 (k, d) (retries w)\<rparr>)"
proof -
  let ?w = "w\<lparr>retries := remove1 (k, d) (retries w)\<rparr>"
  have same: "inv_of j ?w = inv_of j w" "cid_of j ?w = cid_of j w" "unresolved ?w j = unresolved w j"
      "awaited ?w j = awaited w j" "holds_slot ?w j = holds_slot w j" "registered ?w j = registered w j"
      "queued ?w j = queued w j - (if k = j then 1 else 0)" for j
    using count_remove1 [OF assms(2), of fst j]
    by (simp_all add: inv_of_def cid_of_def unresolved_def queued_def awaited_def holds_slot_def registered_def)
  have "k \<in> set (map fst (retries w))"
    using assms(2) by force
  then have "queued w k \<noteq> 0"
    by (simp add: queued_def count_list_0_iff)
  then have k: "unresolved w k" "\<not> registered w k" "queued w k = 1"
    using goodD(4) [OF assms(1), of k] by (auto simp: placed_def split: if_splits)
  have "unlisted k ?w"
    using k(2) table_entry(3) [OF goodD(2) [OF assms(1)]] by (auto simp: unlisted_def)
  moreover have "placed ?w j" if "j \<noteq> k" for j
    using goodD(4) [OF assms(1), of j] that unfolding placed_def same by simp
  moreover have "slots_ok n ?w = slots_ok n w" "ids_ok n ?w = ids_ok n w" "table_ok ?w = table_ok w" for n
    unfolding slots_ok_def ids_ok_def table_ok_def same by simp_all
  ultimately show ?thesis
    using assms(1) k unfolding good_def same by simp
qed

definition start_invocation :: "invocation \<Rightarrow> bool \<Rightarrow> env \<Rightarrow> unit op" where
  "start_invocation i is_urgent ev = sbind (create i)
    (\<lambda>k. if is_urgent then invoke_urgent ev k else invoke ev [] k)"

definition fresh :: "invocation \<Rightarrow> bool" where
  "fresh i = (invocation_promise i = None \<and> \<not> continuation_attached i)"

lemma start_ready:
  assumes "good False {} {} {} (Suc (Suc b)) w" "fresh i"
    "w' = w\<lparr>store := store w @ [i\<lparr>request_message := (request_message i)\<lparr>request_correlation_id := cid\<rparr>\<rparr>], call_id_seq := q\<rparr>"
    "force_next (call_id_seq w) = (cid, q)"
  shows "ready (length (store w)) {length (store w)} b w'"
proof -
  let ?k = "length (store w)"
  obtain n c where n: "counts n c (call_id_seq w)" "c + card {k. holds_slot w k} = n" "ids_ok n w" "n + Suc (Suc b) < 2 ^ 63"
    using goodD(6) [OF assms(1)] by (auto simp: slots_ok_def)
  have q: "cid = of_nat (Suc n)" "counts (Suc n) c q"
    using ci.nxt_inv [OF n(1)] n(4) assms(4) by auto
  have inv: "inv_of ?k w' = i\<lparr>request_message := (request_message i)\<lparr>request_correlation_id := cid\<rparr>\<rparr>"
      "\<And>j. j < ?k \<Longrightarrow> inv_of j w' = inv_of j w"
    by (simp_all add: assms(3) inv_of_def nth_append)
  have len: "length (store w') = Suc ?k" "invocations w' = invocations w" "retries w' = retries w"
      "visiting w' = visiting w" "call_id_seq w' = q"
    by (simp_all add: assms(3))
  have old: "unresolved w j \<Longrightarrow> j < ?k" for j
    by (simp add: unresolved_def)
  have un: "unresolved w' j \<longleftrightarrow> unresolved w j \<or> j = ?k" for j
    using assms(2) by (auto simp: unresolved_def len fresh_def less_Suc_eq inv)
  have hs: "{j. holds_slot w' j} = insert ?k {j. holds_slot w j}"
    using assms(2) by (auto simp: holds_slot_def len fresh_def less_Suc_eq inv)
  have cid: "cid_of ?k w' = of_nat (Suc n)" "\<And>j. j < ?k \<Longrightarrow> cid_of j w' = cid_of j w"
    by (simp_all add: cid_of_def inv q(1))
  have "?k \<notin> {j. holds_slot w j}"
    by (simp add: holds_slot_def)
  then have "slots_ok (Suc n) w'"
    using q(2) n(2) finite_holds_slot [of w] unfolding slots_ok_def hs len by auto
  moreover have "ids_ok (Suc n) w'"
    using n(3)
  proof (rule ids_ok_fresh)
    show "cid_of j w' = cid_of j w" if "unresolved w' j" "j \<noteq> ?k" for j
      using cid(2) [of j] un [of j] old [of j] that by blast
  qed (use n(4) cid(1) un in auto)
  moreover have "placed w' j" if "j \<noteq> ?k" for j
  proof (cases "j < ?k")
    case True
    then have "registered w' j = registered w j" "awaited w' j = awaited w j" "queued w' j = queued w j"
      by (simp_all add: registered_def len awaited_def queued_def cid(2) inv)
    then show ?thesis
      using goodD(4) [OF assms(1), of j] un [of j] that unfolding placed_def by simp
  next
    case False
    then have "\<not> unresolved w' j" "\<not> unresolved w j"
      using un [of j] old [of j] that by auto
    then show ?thesis
      using goodD(4) [OF assms(1), of j] by (simp add: placed_def queued_def len)
  qed
  moreover have "queued w ?k = 0"
    using goodD(4) [OF assms(1), of ?k] by (simp add: placed_def unresolved_def)
  moreover have "table_ok w'"
    using goodD(2) [OF assms(1)] un cid old unfolding table_ok_def len by auto
  moreover have "continuation_attached (inv_of j w') = (j \<notin> {?k})" if "j < Suc ?k" for j
    using that assms(2) goodD(5) [OF assms(1), of j] by (auto simp: fresh_def less_Suc_eq inv)
  moreover have "unlisted ?k w'"
    by (auto simp: unlisted_def len dest!: table_entry(1) [OF goodD(2) [OF assms(1)]] old)
  ultimately show ?thesis
    using assms(1) n(4) un [of ?k] unfolding good_def len by (auto simp: queued_def len)
qed

text \<open>The continuation is attached last; when the promise is already satisfied it runs at once.\<close>

lemma meets_attach: "meets (good False {} {k} {} b) (complete_call_id_sequence k) (\<lambda>_. good False {} {} {} b)"
  unfolding meets_def
proof (intro allI impI)
  fix w assume g: "good False {} {k} {} b w"
  have k: "k < length (store w)" "\<not> continuation_attached (inv_of k w)"
    using g goodD(5) [OF g, of k] by (auto simp: good_def)
  obtain n c where n: "counts n c (call_id_seq w)" "c + card {k. holds_slot w k} = n" "ids_ok n w" "n + b < 2 ^ 63"
    using goodD(6) [OF g] by (auto simp: slots_ok_def)
  define w1 where "w1 = w\<lparr>store := (store w)[k := (inv_of k w)\<lparr>continuation_attached := True\<rparr>]\<rparr>"
  have inv: "inv_of j w1 = (if j = k then (inv_of k w)\<lparr>continuation_attached := True\<rparr> else inv_of j w)" for j
    using k inv_of_upd [of j w k "continuation_attached_update (\<lambda>_. True)"] by (simp add: w1_def)
  have len: "length (store w1) = length (store w)" "invocations w1 = invocations w" "retries w1 = retries w"
      "visiting w1 = visiting w" "call_id_seq w1 = call_id_seq w"
    by (simp_all add: w1_def)
  have same: "unresolved w1 j = unresolved w j" "cid_of j w1 = cid_of j w" "queued w1 j = queued w j"
      "awaited w1 j = awaited w j" "registered w1 j = registered w j" for j
    by (auto simp: unresolved_def cid_of_def queued_def awaited_def registered_def inv len)
  have hs: "holds_slot w1 j = (holds_slot w j \<and> (j = k \<longrightarrow> unresolved w k))" for j
    using k by (auto simp: holds_slot_def unresolved_def inv len)
  have good1: "good False {} {} {} b (w1\<lparr>call_id_seq := q\<rparr>)" if "slots_ok n (w1\<lparr>call_id_seq := q\<rparr>)" for q
  proof -
    have s2: "unresolved (w1\<lparr>call_id_seq := q\<rparr>) j = unresolved w j" "cid_of j (w1\<lparr>call_id_seq := q\<rparr>) = cid_of j w"
        "placed (w1\<lparr>call_id_seq := q\<rparr>) j = placed w1 j" "inv_of j (w1\<lparr>call_id_seq := q\<rparr>) = inv_of j w1" for j
      using same [of j] by (simp_all add: unresolved_def cid_of_def placed_def queued_def awaited_def registered_def inv_of_def)
    have "placed w1 j" for j
      using goodD(4) [OF g, of j] unfolding placed_def same by simp
    moreover have "table_ok (w1\<lparr>call_id_seq := q\<rparr>)" "ids_ok n (w1\<lparr>call_id_seq := q\<rparr>)"
      using goodD(2) [OF g] n(3) unfolding table_ok_def ids_ok_def s2 by (simp_all add: len)
    moreover have "continuation_attached (inv_of j w1)" if "j < length (store w)" for j
      using goodD(5) [OF g that] by (simp add: inv)
    ultimately show ?thesis
      using g n(4) that unfolding good_def s2 by (auto simp: len)
  qed
  have run: "complete_call_id_sequence k w = (if unresolved w k then Inr ((), w1) else sequence_complete w1)"
    using k by (simp add: complete_call_id_sequence_def upd_inv_def sm_defs sget_def w1_def unresolved_def)
  show "case complete_call_id_sequence k w of Inl e \<Rightarrow> e \<noteq> AssertFailure | Inr (_, w') \<Rightarrow> good False {} {} {} b w'"
  proof (cases "unresolved w k")
    case True
    then have "{j. holds_slot w1 j} = {j. holds_slot w j}"
      by (simp add: hs)
    then have "slots_ok n w1"
      using n(1,2) unfolding slots_ok_def len by auto
    then show ?thesis
      using good1 [of "call_id_seq w1"] run True by simp
  next
    case False
    have "{j. holds_slot w1 j} = {j. holds_slot w j} - {k}"
      using False unfolding hs by blast
    moreover have "holds_slot w k"
      using k by (simp add: holds_slot_def)
    ultimately have card: "card {j. holds_slot w j} = Suc (card {j. holds_slot w1 j})"
      using card_Suc_Diff1 [OF finite_holds_slot [of w], of k] by simp
    obtain q where q: "sequence_complete w1 = Inr ((), w1\<lparr>call_id_seq := q\<rparr>)" "counts n (Suc c) q"
      using slots_complete [of n c w1] n card by (auto simp: len)
    have "holds_slot (w1\<lparr>call_id_seq := q\<rparr>) = holds_slot w1"
      by (simp add: holds_slot_def inv_of_def fun_eq_iff)
    then have "slots_ok n (w1\<lparr>call_id_seq := q\<rparr>)"
      using q(2) n(2) card unfolding slots_ok_def by auto
    then show ?thesis
      using good1 q run False by simp
  qed
qed

lemma next_id_force_next: "next_id s [] = Some (Inr r) \<Longrightarrow> r = force_next s"
  by (cases s) (auto simp: seq_force_next_def split: if_splits)

lemma meets_start:
  assumes "fresh i"
  shows "meets (good False {} {} {} (Suc (Suc b))) (start_invocation i u ev) (\<lambda>_. good False {} {} {} b)"
  unfolding meets_def
proof (intro allI impI)
  fix w assume g: "good False {} {} {} (Suc (Suc b)) w"
  let ?k = "length (store w)"
  obtain cid q where q: "force_next (call_id_seq w) = (cid, q)"
    by fastforce
  let ?i = "if u then i\<lparr>urgent := True\<rparr> else i"
  define w1 where "w1 = w\<lparr>store := store w @ [?i\<lparr>request_message := (request_message ?i)\<lparr>request_correlation_id := cid\<rparr>\<rparr>], call_id_seq := q\<rparr>"
  have "fresh ?i"
    using assms by (simp add: fresh_def)
  then have "ready ?k {?k} b w1"
    by (rule start_ready [OF g _ w1_def q])
  then have go: "case sthen (invoke_on_selection ev ?k) (complete_call_id_sequence ?k) w1 of
      Inl e \<Rightarrow> e \<noteq> AssertFailure | Inr (_, w') \<Rightarrow> good False {} {} {} b w'"
    using meets_then [OF meets_invoke_on_selection [of ?k "{?k}" b ev] meets_attach] by (simp add: meets_def)
  have swap: "w\<lparr>call_id_seq := q, store := X\<rparr> = w\<lparr>store := X, call_id_seq := q\<rparr>" for X
    by simp
  have assert: "start_invocation i u ev w = sthen (invoke_on_selection ev ?k) (complete_call_id_sequence ?k) w1 \<or>
      (\<exists>e. start_invocation i u ev w = Inl e \<and> e \<noteq> AssertFailure)"
  proof (cases u)
    case True
    then show ?thesis
      using q by (simp add: start_invocation_def create_def invoke_urgent_def sequence_force_next_def set_correlation_def
          upd_inv_def sm_defs w1_def inv_of_def Let_def swap)
  next
    case False
    show ?thesis
    proof (cases "next_id (call_id_seq w) []")
      case None
      then show ?thesis
        using False by (simp add: start_invocation_def create_def invoke_def sequence_next_def sm_defs)
    next
      case (Some r)
      show ?thesis
      proof (cases r)
        case (Inl e)
        have "e \<noteq> AssertFailure"
          using Some Inl by (cases "call_id_seq w") (auto simp: seq_force_next_def split: if_splits)
        then show ?thesis
          using Some Inl False by (simp add: start_invocation_def create_def invoke_def sequence_next_def sm_defs)
      next
        case (Inr p)
        then have "p = (cid, q)"
          using next_id_force_next Some q by metis
        then show ?thesis
          using Some Inr False by (simp add: start_invocation_def create_def invoke_def sequence_next_def set_correlation_def
              upd_inv_def sm_defs w1_def inv_of_def swap)
      qed
    qed
  qed
  then show "case start_invocation i u ev w of Inl e \<Rightarrow> e \<noteq> AssertFailure | Inr (_, w') \<Rightarrow> good False {} {} {} b w'"
    using go by auto
qed

section \<open>Histories of the service\<close>

datatype event =
    Start env request i32 "nat option" uuid bool bool
  | Retry env nat i64
  | Arrived env i64 msg
  | Closed env nat
  | Timeouts env int
  | Shutdown

fun perform :: "(hz_string option \<Rightarrow> hz_string) \<Rightarrow> factory \<Rightarrow> event \<Rightarrow> unit op" where
  "perform opt fac (Start ev req part conn u handler is_urgent) =
    start_invocation (make_invocation ev req part conn u handler False) is_urgent ev"
| "perform opt fac (Retry ev k d) = sthen (take_retry (k, d)) (run ev k)"
| "perform opt fac (Arrived ev cid m) = process_response ev opt fac (cid, m)"
| "perform opt fac (Closed ev c) = notify_connection_closed ev c"
| "perform opt fac (Timeouts ev t) = check_backup_timeouts ev t"
| "perform opt fac Shutdown = service_shutdown"

text \<open>A retry is one that was handed to the executor, a message can be read, and there are identifiers
  left.\<close>

fun possible :: "event \<Rightarrow> service \<Rightarrow> bool" where
  "possible (Retry ev k d) w = ((k, d) \<in> set (retries w))"
| "possible (Arrived ev cid m) w = readable m"
| "possible _ w = True"

definition identifiers_left :: "service \<Rightarrow> bool" where
  "identifiers_left w = (unat (get_last_call_id (call_id_seq w)) + length (invocations w) + 2 < 2 ^ 63)"

inductive reachable :: "(hz_string option \<Rightarrow> hz_string) \<Rightarrow> factory \<Rightarrow> service \<Rightarrow> bool" for opt fac where
  init: "\<lbrakk>store w = []; invocations w = []; retries w = []; \<not> visiting w;
    new_call_id_sequence backpressure limit timeout = Inr (call_id_seq w)\<rbrakk> \<Longrightarrow> reachable opt fac w"
| step: "\<lbrakk>reachable opt fac w; possible e w; identifiers_left w; perform opt fac e w = Inr ((), w')\<rbrakk> \<Longrightarrow> reachable opt fac w'"

lemma good_identifiers_left:
  assumes "good v own A S 0 w" "identifiers_left w"
  shows "good v own A S (length (invocations w) + 2) w"
proof -
  obtain n c where n: "counts n c (call_id_seq w)" "slots_ok n w" "ids_ok n w" "n < 2 ^ 63"
    using goodD(6) [OF assms(1)] by (auto simp: slots_ok_def)
  have "get_last_call_id (call_id_seq w) = of_nat n"
    using n(1) by (cases "call_id_seq w") (auto simp: seq_counts_def)
  then have "unat (get_last_call_id (call_id_seq w)) = n"
    using n(4) by (simp add: unsigned_of_nat take_bit_nat_eq_self)
  then have "n + (length (invocations w) + 2) < 2 ^ 63"
    using assms(2) by (simp add: identifiers_left_def)
  then have "\<exists>n. slots_ok n w \<and> ids_ok n w \<and> n + (length (invocations w) + 2) < 2 ^ 63"
    using n by blast
  then show ?thesis
    using assms(1) unfolding good_def by blast
qed

lemma good_zero: "good v own A S b w \<Longrightarrow> good v own A S 0 w"
  by (rule good_mono) auto

lemma meets_perform:
  "meets (\<lambda>w. good False {} {} {} 0 w \<and> possible e w \<and> identifiers_left w) (perform opt fac e) (\<lambda>_. good False {} {} {} 0)"
proof -
  have g: "good False {} {} {} b w"
    if "good False {} {} {} 0 w \<and> possible e w \<and> identifiers_left w" "b \<le> length (invocations w) + 2" for b w
    using that good_identifiers_left by (blast intro: good_mono)
  show ?thesis
  proof (cases e)
    case (Start ev req part conn u handler is_urgent)
    have "fresh (make_invocation ev req part conn u handler False)"
      by (simp add: fresh_def make_invocation_def)
    then show ?thesis
      unfolding Start perform.simps using g Start by (intro meets_pre [OF meets_start]) auto
  next
    case (Retry ev k d)
    have "meets (\<lambda>w. good False {} {} {} 0 w \<and> possible e w \<and> identifiers_left w) (take_retry (k, d)) (\<lambda>_. ready k {} 0)"
      unfolding take_retry_def
    proof (rule meets_state)
      fix w assume p: "good False {} {} {} 0 w \<and> possible e w \<and> identifiers_left w"
      then show "ready k {} 0 (w\<lparr>retries := remove1 (k, d) (retries w)\<rparr>)"
        using take_retry_ready [OF g [OF p, of "Suc 0"]] Retry by simp
    qed
    then show ?thesis
      unfolding Retry perform.simps run_def using Retry by (intro meets_then [OF _ meets_invoke_on_selection]) simp
  next
    case (Arrived ev cid m)
    show ?thesis
    proof (cases "readable m")
      case True
      then show ?thesis
        unfolding Arrived perform.simps using g Arrived by (intro meets_pre [OF meets_process_response]) auto
    qed (simp add: meets_def Arrived)
  next
    case (Closed ev c)
    then show ?thesis
      using g unfolding Closed perform.simps by (intro meets_notify_connection_closed) auto
  next
    case (Timeouts ev t)
    show ?thesis
      unfolding Timeouts perform.simps by (rule meets_pre [OF meets_check_backup_timeouts]) simp
  next
    case Shutdown
    show ?thesis
      unfolding Shutdown perform.simps service_shutdown_def
      by (rule meets_state, rule good_frame(1)) auto
  qed
qed

lemma reachable_good:
  assumes "reachable opt fac w"
  shows "good False {} {} {} 0 w"
  using assms
proof induction
  case (init w backpressure limit timeout)
  have "counts 0 0 (call_id_seq w)"
    using init(5) by (rule new_sequence_counts)
  moreover have none: "unresolved w k = False" "holds_slot w k = False" "queued w k = 0" for k
    using init by (simp_all add: unresolved_def holds_slot_def queued_def)
  ultimately have "slots_ok 0 w" "ids_ok 0 w"
    by (auto simp: slots_ok_def ids_ok_def none)
  then show ?case
    using init none by (auto simp: good_def table_ok_def placed_def)
next
  case (step w e w')
  then show ?case
    by (intro meetsD(2) [OF meets_perform, of w e opt fac "()" w']) simp_all
qed

section \<open>Properties\<close>

text \<open>
  C23. No invocation is lost.  After any sequence of invocations, retries, responses, backup acknowledgements,
  closed connections and backup timeouts, each handled as a whole, every invocation whose promise is
  not satisfied is in exactly one place: in the table under its current identifier, waiting for a
  response or for backups, or exactly once among the retries.  An invocation whose promise is satisfied
  is in neither.  No two unsatisfied invocations have the same identifier, so a response reaches the
  invocation it belongs to.
\<close>

theorem invocation_never_lost:
  assumes "reachable opt fac w" "k < length (store w)"
  shows "(unresolved w k \<longrightarrow>
      (registered w k \<and> queued w k = 0 \<and> awaited w k) \<or> (\<not> registered w k \<and> queued w k = 1)) \<and>
    (\<not> unresolved w k \<longrightarrow> k \<notin> snd ` set (invocations w) \<and> queued w k = 0) \<and>
    (\<forall>j. unresolved w j \<and> unresolved w k \<and> cid_of j w = cid_of k w \<longrightarrow> j = k)"
proof -
  note g = reachable_good [OF assms(1)]
  have "k \<notin> snd ` set (invocations w)" if "\<not> unresolved w k"
    using that table_entry(1) [OF goodD(2) [OF g]] by auto
  then show ?thesis
    using goodD(4) [OF g, of k] ids_inj [OF g] by (auto simp: placed_def split: if_splits)
qed


text \<open>A client that is starting: a first invocation finds no connection and is handed to the executor.\<close>

definition no_service :: service where
  "no_service = \<lparr>store = [], invocations = [], call_id_seq = Without_Backpressure 0, retries = [], written = [],
     event_handlers = [], is_shutdown = False, visiting = False, invocation_timeout = 120000,
     invocation_retry_pause = 1000, smart_routing = True, backup_acks_enabled = True,
     fail_on_indeterminate_operation_state = False, redo_operation = False\<rparr>"

definition no_cluster :: env where
  "no_cluster = \<lparr>now = 0, is_running = True, state_of_client = INITIAL, active_connections = 0, async_start = False,
     reconnect_async = False, client_initialized_on_cluster = False, should_check_urgent_invocations = False,
     get_partition_owner = (\<lambda>_. nil_uuid), get_connection = (\<lambda>_. None), get_random_connection = (\<lambda>_. None),
     connection_exists = (\<lambda>_. False), is_alive = (\<lambda>_ _. False)\<rparr>"

definition some_request :: request where
  "some_request = \<lparr>request_correlation_id = 0, request_flags = 0, request_retryable = False,
     request_contains_serialized_data = False\<rparr>"

lemma no_service_reachable: "reachable opt fac no_service"
  by (rule reachable.init [of _ False 0 0]) (simp_all add: no_service_def new_call_id_sequence_def)

lemma started_reachable:
  "\<exists>w. reachable opt fac w \<and> perform opt fac (Start no_cluster some_request 3 None nil_uuid False False) no_service = Inr ((), w) \<and>
    length (store w) = 1 \<and> retries w = [(0, 0)]"
proof -
  let ?e = "Start no_cluster some_request 3 None nil_uuid False False"
  have "\<exists>w. perform opt fac ?e no_service = Inr ((), w) \<and> length (store w) = 1 \<and> retries w = [(0, 0)]"
    by (simp add: start_invocation_def create_def invoke_def sequence_next_def set_correlation_def upd_inv_def
        invoke_on_selection_def inv_of_def sm_defs sget_def make_invocation_def check_invocation_allowed_def
        no_cluster_def no_service_def notify_exception_with_owned_permission_def erase_invocation_def
        deregister_invocation_def cid_of_def should_retry_def io_exception_def local_exception_def execute_def
        sequence_force_next_def sequence_complete_def schedule_def MAX_FAST_INVOCATION_COUNT_def
        complete_call_id_sequence_def some_request_def)
  moreover have "identifiers_left no_service"
    by (simp add: identifiers_left_def no_service_def)
  ultimately show ?thesis
    using reachable.step [OF no_service_reachable, of ?e] by auto
qed

theorem invocation_never_lost_witness:
  "\<exists>w. unresolved w 0 \<and> \<not> registered w 0 \<and> queued w 0 = 1"
proof -
  obtain w where w: "reachable (\<lambda>_. []) [] w" "length (store w) = 1" "retries w = [(0, 0)]"
    using started_reachable by blast
  have "queued w 0 = 1"
    by (simp add: queued_def w(3))
  then show ?thesis
    using invocation_never_lost [OF w(1), of 0] w(2) by auto
qed


end
