(* ===== verification/Invocation_Errors.thy ===== *)
theory Invocation_Errors
  imports Invocation_Invariant
begin

text \<open>
  Error paths of invocations: which errors of a response are retried, how an exception ends, the
  delays between retries, and three situations in which an invocation goes wrong: a connection that is
  closed while the response of its invocation waits for backups, a backup timeout that has to fail, and
  an invocation that is retried too often.
\<close>

section \<open>Errors that are retried\<close>

lemma class_of_create:
  assumes "create_exception opt registrations (e # es) = Inr (Some ex)"
  shows "exception_cls ex = class_of_code (error_code e)"
proof -
  have "map_of registrations UNDEFINED_CODE = Some (Exception_Class ''undefined_error_code'' 0 False False)"
    by (simp add: registrations_def UNDEFINED_CODE_def)
  then show ?thesis
    using assms by (auto simp: class_of_code_def split: option.splits sum.splits)
qed

definition always_retried :: "i32 set" where
  "always_retried = {8, 19, 33, 39, 46, 47, 62, 82}"

definition class_check :: "i32 \<times> exception_class \<Rightarrow> bool" where
  "class_check = (\<lambda>(code, cls).
    (exception_code cls = IO_CODE) = (code = 22) \<and> (exception_code cls = TARGET_DISCONNECTED_CODE) = (code = 52) \<and>
    (exception_code cls = TARGET_NOT_MEMBER_CODE) = (code = 53) \<and> (exception_code cls = INSTANCE_NOT_ACTIVE_CODE) = (code = 19) \<and>
    is_retryable_class cls = (code = 8 \<or> code = 33 \<or> code = 39 \<or> code = 46 \<or> code = 47 \<or> code = 53 \<or> code = 62 \<or> code = 82))"

lemma class_checks: "list_all class_check registrations"
  by code_simp

lemma unregistered_codes: "list_all (\<lambda>code. map_of registrations code \<noteq> None) [22, 52, 53, 19, 8, 33, 39, 46, 47, 62, 82]"
  by code_simp

lemma class_codes:
  "exception_code (class_of_code code) = IO_CODE \<longleftrightarrow> code = 22"
  "exception_code (class_of_code code) = TARGET_DISCONNECTED_CODE \<longleftrightarrow> code = 52"
  "exception_code (class_of_code code) = TARGET_NOT_MEMBER_CODE \<longleftrightarrow> code = 53"
  "exception_code (class_of_code code) = INSTANCE_NOT_ACTIVE_CODE \<longleftrightarrow> code = 19"
  "is_retryable_class (class_of_code code) \<longleftrightarrow> code \<in> {8, 33, 39, 46, 47, 53, 62, 82}"
proof -
  let ?cls = "class_of_code code"
  have *: "class_check (code, ?cls)"
  proof (cases "map_of registrations code")
    case None
    then have "code \<noteq> c" if "map_of registrations c \<noteq> None" for c
      using that by auto
    then show ?thesis
      using None unregistered_codes
      by (simp add: class_check_def class_of_code_def IO_CODE_def TARGET_DISCONNECTED_CODE_def
          TARGET_NOT_MEMBER_CODE_def INSTANCE_NOT_ACTIVE_CODE_def)
  next
    case (Some cls)
    then show ?thesis
      using map_of_SomeD [OF Some] class_checks by (simp add: list_all_iff class_of_code_def)
  qed
  then show "exception_code ?cls = IO_CODE \<longleftrightarrow> code = 22" "exception_code ?cls = TARGET_DISCONNECTED_CODE \<longleftrightarrow> code = 52"
    "exception_code ?cls = TARGET_NOT_MEMBER_CODE \<longleftrightarrow> code = 53" "exception_code ?cls = INSTANCE_NOT_ACTIVE_CODE \<longleftrightarrow> code = 19"
    "is_retryable_class ?cls \<longleftrightarrow> code \<in> {8, 33, 39, 46, 47, 53, 62, 82}"
    by (simp_all add: class_check_def)
qed

text \<open>
  C26. Whether the errors of a response are retried depends on the code of the first one only: eight
  codes always, an I/O error unless the invocation is bound to a connection, a target that is not a
  member unless the invocation has a target member, and a disconnected target when the invocation is not
  bound and either the request may be repeated or the client is configured to redo operations.
\<close>

theorem error_response_retried:
  assumes "create_exception opt registrations (e # es) = Inr (Some ex)"
  shows "should_retry i redo ex \<longleftrightarrow>
    error_code e \<in> always_retried \<or>
    (error_code e = 22 \<and> \<not> bound_to_single_connection i) \<or>
    (error_code e = 53 \<and> target_uuid i = nil_uuid) \<or>
    (error_code e = 52 \<and> \<not> bound_to_single_connection i \<and> (request_retryable (request_message i) \<or> redo))"
  using class_codes [of "error_code e"] unfolding should_retry_def class_of_create [OF assms] Let_def
  by (auto simp: always_retried_def)

theorem error_response_retried_witness:
  "\<exists>ex. create_exception (\<lambda>_. []) registrations [\<lparr>error_code = 62, class_name = [], message = None,
       stack_trace = []\<rparr>] = Inr (Some ex) \<and>
    should_retry (make_invocation no_cluster some_request 0 None nil_uuid False False) False ex"
proof -
  let ?e = "\<lparr>error_code = 62, class_name = [], message = None, stack_trace = []\<rparr>"
  obtain ex where ex: "create_exception (\<lambda>_. []) registrations [?e] = Inr (Some ex)"
    by (simp add: registrations_def)
  then show ?thesis
    using error_response_retried [OF ex, of "make_invocation no_cluster some_request 0 None nil_uuid False False" False]
    by (auto simp: always_retried_def)
qed

section \<open>The outcome of an exception\<close>

lemma complete_error: "complete q = Inl e \<Longrightarrow> e = AssertFailure"
  by (cases q) (auto simp: seq_complete_def Let_def split: if_splits sum.splits)

lemma set_promise_error: "set_promise k r w = Inl e \<Longrightarrow> e = AssertFailure"
  by (auto simp: set_promise_def sm_defs sget_def upd_inv_def sequence_complete_def split: if_splits sum.splits
      dest: complete_error)

lemma set_promise_sets:
  assumes "set_promise k r w = Inr (a, w')" "unresolved w k"
  shows "invocation_promise (inv_of k w') = Some r"
proof -
  have k: "k < length (store w)" "invocation_promise (inv_of k w) = None"
    using assms(2) by (auto simp: unresolved_def)
  have "inv_of k (w\<lparr>store := (store w)[k := (inv_of k w)\<lparr>invocation_promise := Some r\<rparr>]\<rparr>) =
      (inv_of k w)\<lparr>invocation_promise := Some r\<rparr>"
    using inv_of_upd [of k w k "invocation_promise_update (\<lambda>_. Some r)"] k by simp
  then show ?thesis
    using assms(1) k by (auto simp: set_promise_def sm_defs sget_def upd_inv_def sequence_complete_def inv_of_def
        split: if_splits sum.splits)
qed

lemma set_exception_result:
  assumes "good False {k} A {} b w"
  shows "\<exists>w'. set_exception k e w = Inr ((), w') \<and> good False {} A {} b w' \<and>
    invocation_promise (inv_of k w') = Some (Failure e)"
proof -
  let ?first = "sthen (upd_inv k (\<lambda>i. i\<lparr>invoked_or_exception_set := True\<rparr>)) (erase_invocation k)"
  have m: "meets (good False {k} A {} b) ?first (\<lambda>_ w. good False {k} A {} b w \<and> unlisted k w)"
    by (rule meets_then [OF meets_upd meets_erase]) auto
  obtain w1 where w1: "?first w = Inr ((), w1)"
    using goodD(1) [OF assms] by (simp add: upd_inv_def erase_invocation_def deregister_invocation_def sm_defs sget_def)
  then have g: "good False {k} A {} b w1" "unlisted k w1"
    using meetsD(2) [OF m assms] by auto
  have "set_promise k (Failure e) w1 \<noteq> Inl AssertFailure"
    using meetsD(1) [OF meets_set_promise] g by blast
  then obtain w2 where w2: "set_promise k (Failure e) w1 = Inr ((), w2)"
    using set_promise_error by (cases "set_promise k (Failure e) w1") auto
  have "set_exception k e w = Inr ((), w2)"
    using w1 w2 by (auto simp: set_exception_def sm_defs split: sum.splits)
  moreover have "good False {} A {} b w2"
    using meetsD(2) [OF meets_set_promise _ w2] g by blast
  moreover have "unresolved w1 k"
    using goodD(3) [OF g(1)] by simp
  ultimately show ?thesis
    using set_promise_sets [OF w2] by blast
qed

lemma execute_result:
  assumes "good False {k} A {} (Suc b) w" "unlisted k w" "sint (invoke_count (inv_of k w)) < 5"
  shows "\<exists>w'. execute k w = Inr ((), w') \<and> good False {} A {} b w' \<and> queued w' k = 1 \<and> unresolved w' k"
proof -
  let ?first = "sbind sequence_force_next (\<lambda>cid. sthen (set_correlation k cid) sequence_complete)"
  obtain w1 where w1: "?first w = Inr ((), w1)" "good False {k} A {} b w1" "unlisted k w1"
    using execute_slot [OF assms(1,2)] by blast
  have "invoke_count (inv_of k w1) = invoke_count (inv_of k w)"
    using w1(1) inv_of_upd [of k _ k "\<lambda>i. i\<lparr>request_message := _ i\<rparr>"]
    by (auto simp: sequence_force_next_def set_correlation_def upd_inv_def sequence_complete_def sm_defs Let_def
        inv_of_def nth_list_update split: sum.splits prod.splits) (cases "k < length (store w)"; auto simp: list_update_beyond)
  then have run: "execute k w = Inr ((), w1\<lparr>retries := retries w1 @ [(k, 0)]\<rparr>)"
    using w1(1) assms(3)
    by (auto simp: execute_def MAX_FAST_INVOCATION_COUNT_def schedule_def sm_defs sget_def split: sum.splits prod.splits)
  have "queued w1 k = 0" "unresolved w1 k"
    using goodD(3) [OF w1(2)] by auto
  then have "queued (w1\<lparr>retries := retries w1 @ [(k, 0)]\<rparr>) k = 1" "unresolved (w1\<lparr>retries := retries w1 @ [(k, 0)]\<rparr>) k"
    by (simp_all add: queued_def unresolved_def inv_of_def)
  then show ?thesis
    using run good_queue [OF w1(2,3)] by blast
qed

text \<open>The state after the permission to notify has been taken and the entry has been removed.\<close>

lemma notify_exception_owned:
  assumes "good False {} A {} b w" "registered w k" "send_connection (inv_of k w) \<noteq> None"
  shows "\<exists>w1. notify_exception ev k (cid_of k w) (Some e) w =
      (if \<not> is_running ev then set_exception k (hazelcast_client_not_active (Some e)) w1
       else if \<not> should_retry (inv_of k w) (redo_operation w) e then set_exception k e w1
       else if invocation_timeout w < now ev - start_time (inv_of k w) then set_exception k operation_timeout w1
       else execute k w1) \<and>
    good False {k} A {} b w1 \<and> unlisted k w1 \<and> inv_of k w1 = (inv_of k w)\<lparr>send_connection := None\<rparr>"
proof -
  have k: "k < length (store w)"
    using table_entry(1) [OF goodD(2) [OF assms(1)] registered_entry [OF assms(2)]] by (simp add: unresolved_def)
  let ?w0 = "w\<lparr>store := (store w)[k := (inv_of k w)\<lparr>send_connection := None\<rparr>]\<rparr>"
  let ?w1 = "?w0\<lparr>invocations := AList.delete (cid_of k ?w0) (invocations ?w0)\<rparr>"
  have inv: "inv_of k ?w0 = (inv_of k w)\<lparr>send_connection := None\<rparr>"
    using inv_of_upd [of k w k "send_connection_update (\<lambda>_. None)"] k by simp
  then have cid: "cid_of k ?w0 = cid_of k w"
    by (simp add: cid_of_def)
  have "get_permission_to_notify k (cid_of k w) w = Inr (True, ?w0)"
    using assms(3) by (auto simp: get_permission_to_notify_def sm_defs sget_def upd_inv_def cid_of_def)
  moreover have "good False {k} A {} b ?w0"
    using meetsD(2) [OF meets_permission [of k "{}" False A b "cid_of k w"], of w True ?w0] assms calculation by auto
  moreover have "should_retry ((inv_of k w)\<lparr>send_connection := None\<rparr>) redo e = should_retry (inv_of k w) redo e" for redo
    by (simp add: should_retry_def)
  moreover have "inv_of k ?w1 = inv_of k ?w0"
    by (simp add: inv_of_def)
  moreover have "good False {k} A {} b ?w1" "unlisted k ?w1"
    using good_unlist [OF calculation(2)] by auto
  ultimately show ?thesis
    using goodD(1) [OF assms(1)] inv
    by (intro exI [of _ ?w1])
      (simp add: notify_exception_def notify_exception_with_owned_permission_def erase_invocation_def
        deregister_invocation_def sm_defs sget_def)
qed

text \<open>
  C27. What becomes of an exception.  When an exception for the current identifier reaches an invocation
  that waits for its response, the promise fails with \<open>hazelcast_client_not_active\<close>, with the exception
  as cause, if the client is not running; with the exception itself if it is not retried; with a timeout
  if it is retried but the invocation timeout has passed; otherwise, during the first retries, the
  invocation is handed to the executor once.  An exception for another identifier changes nothing.
\<close>

theorem exception_outcome:
  assumes "reachable opt fac w" "identifiers_left w" "registered w k" "send_connection (inv_of k w) \<noteq> None"
    "sint (invoke_count (inv_of k w)) < 5"
  shows "(\<exists>w'. notify_exception ev k (cid_of k w) (Some e) w = Inr ((), w') \<and>
      (if \<not> is_running ev
       then invocation_promise (inv_of k w') = Some (Failure (hazelcast_client_not_active (Some e)))
       else if \<not> should_retry (inv_of k w) (redo_operation w) e
       then invocation_promise (inv_of k w') = Some (Failure e)
       else if invocation_timeout w < now ev - start_time (inv_of k w)
       then invocation_promise (inv_of k w') = Some (Failure operation_timeout)
       else unresolved w' k \<and> queued w' k = 1)) \<and>
    (\<forall>cid. cid \<noteq> cid_of k w \<longrightarrow> notify_exception ev k cid (Some e) w = Inr ((), w))"
proof -
  have "good False {} {} {} (length (invocations w) + 2) w"
    by (rule good_identifiers_left [OF reachable_good [OF assms(1)] assms(2)])
  then have g: "good False {} {} {} (Suc 0) w"
    by (rule good_mono) auto
  obtain w1 where w1: "notify_exception ev k (cid_of k w) (Some e) w =
      (if \<not> is_running ev then set_exception k (hazelcast_client_not_active (Some e)) w1
       else if \<not> should_retry (inv_of k w) (redo_operation w) e then set_exception k e w1
       else if invocation_timeout w < now ev - start_time (inv_of k w) then set_exception k operation_timeout w1
       else execute k w1)"
    "good False {k} {} {} (Suc 0) w1" "unlisted k w1" "inv_of k w1 = (inv_of k w)\<lparr>send_connection := None\<rparr>"
    using notify_exception_owned [OF g assms(3,4)] by blast
  have ex: "\<exists>w'. execute k w1 = Inr ((), w') \<and> unresolved w' k \<and> queued w' k = 1"
    using execute_result [OF w1(2,3)] w1(4) assms(5) by auto
  have se: "\<exists>w'. set_exception k x w1 = Inr ((), w') \<and> invocation_promise (inv_of k w') = Some (Failure x)" for x
    using set_exception_result [OF w1(2)] by blast
  have "notify_exception ev k cid (Some e) w = Inr ((), w)" if "cid \<noteq> cid_of k w" for cid
    using that by (auto simp: notify_exception_def get_permission_to_notify_def sm_defs sget_def cid_of_def)
  then show ?thesis
    using ex se unfolding w1(1) by simp
qed

section \<open>Delays between retries\<close>

lemma sint_shift_one:
  assumes "n < 63"
  shows "sint (push_bit n 1 :: i64) = 2 ^ n"
proof -
  have "(2 :: int) ^ n < 2 ^ 63"
    using assms by (intro power_strict_increasing) auto
  then have "sint (word_of_int (2 ^ n) :: i64) = 2 ^ n"
    by (intro sint_word_of_int_id) (auto intro: order_trans [of _ 0])
  then show ?thesis
    by (simp add: push_bit_eq_mult)
qed

lemma retry_count:
  assumes "5 \<le> c" "c < 2 ^ 62"
  shows "sint (of_nat c - MAX_FAST_INVOCATION_COUNT) = int c - 5"
proof -
  have "of_nat c - MAX_FAST_INVOCATION_COUNT = (of_nat (c - 5) :: i64)"
    using assms by (simp add: MAX_FAST_INVOCATION_COUNT_def of_nat_diff)
  then show ?thesis
    using assms sint_of_nat64 [of "c - 5"] by (simp add: of_nat_diff)
qed

lemma retry_delay_grows:
  assumes "5 \<le> c" "c < 68" "0 < sint pause"
  shows "\<exists>d. retry_delay (of_nat c) pause = Inr d \<and> sint d = min (2 ^ (c - 5)) (sint pause)"
proof -
  have "nat (int c - 5) = c - 5"
    using assms by simp
  then show ?thesis
    using assms retry_count [of c] sint_shift_one [of "c - 5"] by (auto simp: retry_delay_def min_def)
qed

lemma retry_delay_wraps:
  assumes "0 < sint pause"
  shows "\<exists>d. retry_delay 68 pause = Inr d \<and> sint d = - (2 ^ 63)"
proof -
  have "sint (push_bit 63 1 :: i64) = - (2 ^ 63)"
    by simp
  then show ?thesis
    using assms by (simp add: retry_delay_def MAX_FAST_INVOCATION_COUNT_def)
qed

lemma retry_delay_undefined:
  assumes "69 \<le> c" "c < 2 ^ 62"
  shows "retry_delay (of_nat c) pause = Inl UndefinedBehaviour"
  using assms retry_count [of c] by (simp add: retry_delay_def Let_def)

definition pause_before :: "i64 \<Rightarrow> nat \<Rightarrow> int" where
  "pause_before pause c = (case retry_delay (of_nat c) pause of Inl _ \<Rightarrow> 0 | Inr d \<Rightarrow> max 0 (sint d))"

text \<open>
  C28. The delay before a retry doubles from one millisecond with every invocation from the fifth on, up to the
  configured pause, until the 67th; before the 69th invocation the shift reaches the sign bit and the
  delay is negative; from the 69th on the shift is undefined.  With the default pause of a second all
  delays up to there add up to less than 55 seconds, so an invocation that keeps failing gets there well
  before the default invocation timeout of 120 seconds.
\<close>

theorem retry_delay_overflows:
  assumes "0 < sint pause"
  shows "(\<forall>c. 5 \<le> c \<and> c < 68 \<longrightarrow> (\<exists>d. retry_delay (of_nat c) pause = Inr d \<and> sint d = min (2 ^ (c - 5)) (sint pause))) \<and>
    (\<exists>d. retry_delay 68 pause = Inr d \<and> sint d = - (2 ^ 63)) \<and>
    (\<forall>c. 69 \<le> c \<and> c < 2 ^ 62 \<longrightarrow> retry_delay (of_nat c) pause = Inl UndefinedBehaviour) \<and>
    (\<Sum>c = 5..68. pause_before 1000 c) < 55000"
proof -
  have p: "pause_before 1000 c = min (2 ^ (c - 5)) 1000" if "c \<in> {5..<68}" for c
    using retry_delay_grows [of c 1000] that by (auto simp: pause_before_def)
  have last: "pause_before 1000 68 = 0"
    using retry_delay_wraps [of 1000] by (auto simp: pause_before_def)
  have "(\<Sum>c = 5..68. pause_before 1000 c) = (\<Sum>c = 5..<68. pause_before 1000 c) + pause_before 1000 68"
  proof -
    have "{5..68} = insert 68 {5..<68 :: nat}"
      by auto
    then show ?thesis
      by (simp add: add.commute)
  qed
  also have "(\<Sum>c = 5..<68. pause_before 1000 c) = (\<Sum>c = 5..<68. min (2 ^ (c - 5)) 1000)"
    by (rule sum.cong) (simp_all add: p)
  also have "(\<Sum>c = 5..<68. min (2 ^ (c - 5)) 1000 :: int) = 54023"
    by code_simp
  finally have "(\<Sum>c = 5..68. pause_before 1000 c) < 55000"
    by (simp add: last)
  then show ?thesis
    using retry_delay_grows retry_delay_wraps retry_delay_undefined assms by blast
qed

theorem retry_delay_overflows_witness:
  "\<exists>d. retry_delay 6 1000 = Inr d \<and> sint d = 2"
  using retry_delay_overflows [of 1000] by (auto dest!: spec [of _ 6])

section \<open>Backup timeouts that fail\<close>

lemma visit_entry_failing:
  assumes "visiting w" "fail_on_indeterminate_operation_state w"
  shows "visit_entry ev t cid k w = Inr ((), w) \<or> visit_entry ev t cid k w = Inl UndefinedBehaviour"
  using assms indeterminate_visiting [OF assms(1)]
  by (auto simp: visit_entry_def detect_and_handle_backup_timeout_def sm_defs sget_def)

lemma check_entries_failing:
  assumes "visiting w" "fail_on_indeterminate_operation_state w" "(cid, k) \<in> set es"
    "visit_entry ev t cid k w = Inl UndefinedBehaviour"
  shows "check_entries ev t es w = Inl UndefinedBehaviour"
  using assms(3)
proof (induction es)
  case (Cons e es)
  obtain c j where e: "e = (c, j)" by (cases e)
  show ?case
    using Cons assms(4) visit_entry_failing [OF assms(1,2), of ev t c j]
    unfolding e check_entries_split by (auto simp: sm_defs)
qed simp

text \<open>
  C29. With \<open>fail_on_indeterminate_operation_state\<close>, a check for backup timeouts that finds an invocation whose
  backups are overdue removes that invocation from the table while it visits the table, which the table
  forbids.  The operation is undefined whenever such an invocation exists, whatever the other entries
  are; without the setting the same check completes the invocation with the response it has.
\<close>

theorem backup_timeout_failure_undefined:
  assumes "(cid, k) \<in> set (invocations w)" "pending_response (inv_of k w) = Some m"
    "sint (backup_acks_expected (inv_of k w)) \<noteq> sint (backup_acks_received (inv_of k w))"
    "pending_response_received_time (inv_of k w) + t < now ev"
  shows "(fail_on_indeterminate_operation_state w \<longrightarrow> check_backup_timeouts ev t w = Inl UndefinedBehaviour) \<and>
    (\<not> fail_on_indeterminate_operation_state w \<longrightarrow>
      detect_and_handle_backup_timeout ev t k w = sthen (set_promise k (Response m)) (sreturn True) w)"
proof -
  let ?w = "w\<lparr>visiting := True\<rparr>"
  have same: "inv_of k ?w = inv_of k w"
    by (simp add: inv_of_def)
  have "check_backup_timeouts ev t w = Inl UndefinedBehaviour" if "fail_on_indeterminate_operation_state w"
  proof -
    have "visit_entry ev t cid k ?w = Inl UndefinedBehaviour"
      using that assms(2-4) indeterminate_visiting [of ?w ev k]
      by (simp add: visit_entry_def detect_and_handle_backup_timeout_def sm_defs sget_def same)
    then have "check_entries ev t (invocations w) ?w = Inl UndefinedBehaviour"
      by (intro check_entries_failing [OF _ _ assms(1)]) (simp_all add: that)
    then show ?thesis
      by (simp add: check_backup_timeouts_def sm_defs sget_def)
  qed
  moreover have "detect_and_handle_backup_timeout ev t k w = sthen (set_promise k (Response m)) (sreturn True) w"
    if "\<not> fail_on_indeterminate_operation_state w"
    using that assms(2-4)
    by (simp add: detect_and_handle_backup_timeout_def complete_with_pending_response_def complete_with_def sm_defs sget_def
        split: sum.split)
  ultimately show ?thesis
    by blast
qed

definition waiting_invocation :: invocation where
  "waiting_invocation = (make_invocation no_cluster (some_request\<lparr>request_correlation_id := 1\<rparr>) 3 None nil_uuid False False)
    \<lparr>send_connection := None, backup_acks_expected := 1, pending_response := Some empty_client_message,
     continuation_attached := True, invoke_count := 1\<rparr>"

theorem backup_timeout_failure_undefined_witness:
  "check_backup_timeouts (no_cluster\<lparr>now := 9000\<rparr>) 5000
     (no_service\<lparr>store := [waiting_invocation], invocations := [(1, 0)], fail_on_indeterminate_operation_state := True\<rparr>) =
   Inl UndefinedBehaviour"
  using backup_timeout_failure_undefined [of 1 0
      "no_service\<lparr>store := [waiting_invocation], invocations := [(1, 0)], fail_on_indeterminate_operation_state := True\<rparr>"
      empty_client_message 5000 "no_cluster\<lparr>now := 9000\<rparr>"]
  by (simp add: inv_of_def waiting_invocation_def make_invocation_def no_service_def)

section \<open>A connection that is closed while its response waits\<close>

text \<open>\<open>notify_connection_closed\<close> first collects the entries of the connection and then fails them one by one.
  Between the two another thread may handle the response of one of them.\<close>

lemma await_backups:
  assumes "registered w k" "k < length (store w)" "send_connection (inv_of k w) \<noteq> None" "\<not> visiting w"
    "is_flag_set BACKUP_EVENT_FLAG m = Inr (False, m)" "get_message_type m = Inr (ty, m)" "ty \<noteq> EXCEPTION_MESSAGE_TYPE"
    "get_correlation_id m = Inr (cid_of k w, m)" "get_number_of_backups m = Inr (n, m)"
    "sint (backup_acks_received (inv_of k w)) < sint n"
  shows "process_response ev opt fac (cid_of k w, m) w = Inr ((), w\<lparr>store := (store w)[k := (inv_of k w)
    \<lparr>send_connection := None, pending_response_received_time := now ev, backup_acks_expected := n,
     pending_response := Some m\<rparr>]\<rparr>)"
proof -
  have "map_of (invocations w) (cid_of k w) = Some k"
    using assms(1) by (simp add: registered_def)
  then show ?thesis
    using assms(2-)
    by (auto simp: process_response_def read_message_def get_invocation_def notify_def get_permission_to_notify_def
        notify_response_def sm_defs sget_def upd_inv_def inv_of_def cid_of_def nth_list_update)
qed

text \<open>
  C30. A closed connection can lose an invocation.  If the response of an invocation arrives after
  \<open>notify_connection_closed\<close> has collected the entries of the connection, and the response waits for
  backups, then failing the entry removes the invocation from the table without completing or retrying
  it: its promise is not satisfied, and no acknowledgement, timeout, response or retry can reach it.
\<close>

theorem close_race_loses_invocation:
  assumes "reachable opt fac w" "(cid, k) \<in> set (entries_to_fail ev c w)"
    "is_flag_set BACKUP_EVENT_FLAG m = Inr (False, m)" "get_message_type m = Inr (ty, m)" "ty \<noteq> EXCEPTION_MESSAGE_TYPE"
    "get_correlation_id m = Inr (cid, m)" "get_number_of_backups m = Inr (n, m)"
    "sint (backup_acks_received (inv_of k w)) < sint n"
  shows "\<exists>w1 w2. process_response ev' opt fac (cid, m) w = Inr ((), w1) \<and> fail_entry ev (cid, k) w1 = Inr ((), w2) \<and>
    unresolved w2 k \<and> k \<notin> snd ` set (invocations w2) \<and> queued w2 k = 0"
proof -
  note g = reachable_good [OF assms(1)]
  have e: "(cid, k) \<in> set (invocations w)" "send_connection (inv_of k w) \<noteq> None"
    using assms(2) by (auto simp: entries_to_fail_def get_send_connection_def split: option.splits)
  have r: "registered w k" "cid = cid_of k w" "unresolved w k"
    using table_entry [OF goodD(2) [OF g] e(1)] by auto
  have q: "queued w k = 0"
    using goodD(4) [OF g, of k] r by (simp add: placed_def)
  let ?i = "(inv_of k w)\<lparr>send_connection := None, pending_response_received_time := now ev', backup_acks_expected := n,
     pending_response := Some m\<rparr>"
  let ?w1 = "w\<lparr>store := (store w)[k := ?i]\<rparr>"
  let ?w2 = "?w1\<lparr>invocations := AList.delete cid (invocations w)\<rparr>"
  have k: "k < length (store w)"
    using r(3) by (simp add: unresolved_def)
  have p: "process_response ev' opt fac (cid, m) w = Inr ((), ?w1)"
    using await_backups [OF r(1) k e(2)] goodD(1) [OF g] assms(3-8) r(2) by simp
  have f: "fail_entry ev (cid, k) ?w1 = Inr ((), ?w2)"
    using k goodD(1) [OF g]
    by (simp add: fail_entry_def deregister_invocation_def notify_exception_def get_permission_to_notify_def sm_defs sget_def inv_of_def)
  have "unresolved ?w2 k"
    using r(3) k by (simp add: unresolved_def inv_of_def)
  moreover have "queued ?w2 k = 0"
    using q by (simp add: queued_def)
  moreover have "k \<notin> snd ` set (invocations ?w2)"
    using table_entry(2) [OF goodD(2) [OF g]] r(2) by (auto simp: AList.delete_eq)
  ultimately show ?thesis
    using p f by blast
qed

text \<open>A client with one connection: the first invocation is sent to it.\<close>

definition one_member :: env where
  "one_member = no_cluster\<lparr>state_of_client := INITIALIZED_ON_CLUSTER, active_connections := 1,
     get_random_connection := (\<lambda>_. Some 7), connection_exists := (\<lambda>_. True), is_alive := (\<lambda>_ _. True)\<rparr>"

lemma sent_reachable:
  "\<exists>w. reachable opt fac w \<and> identifiers_left w \<and> invocations w = [(1, 0)] \<and> cid_of 0 w = 1 \<and>
    send_connection (inv_of 0 w) = Some (Some 7) \<and> backup_acks_received (inv_of 0 w) = 0 \<and>
    invoke_count (inv_of 0 w) = 1 \<and> bound_to_single_connection (inv_of 0 w) = False \<and> start_time (inv_of 0 w) = 0 \<and>
    target_uuid (inv_of 0 w) = nil_uuid \<and> invocation_timeout w = 120000"
proof -
  let ?e = "Start one_member some_request 3 None nil_uuid False False"
  have "\<exists>w. perform opt fac ?e no_service = Inr ((), w) \<and> identifiers_left w \<and> invocations w = [(1, 0)] \<and> cid_of 0 w = 1 \<and>
    send_connection (inv_of 0 w) = Some (Some 7) \<and> backup_acks_received (inv_of 0 w) = 0 \<and>
    invoke_count (inv_of 0 w) = 1 \<and> bound_to_single_connection (inv_of 0 w) = False \<and> start_time (inv_of 0 w) = 0 \<and>
    target_uuid (inv_of 0 w) = nil_uuid \<and> invocation_timeout w = 120000"
    by (simp add: start_invocation_def create_def invoke_def sequence_next_def set_correlation_def upd_inv_def
        invoke_on_selection_def inv_of_def sm_defs sget_def make_invocation_def check_invocation_allowed_def
        one_member_def no_cluster_def no_service_def send_to_selection_def invoke_on_partition_owner_def invoke_random_def
        send_def register_invocation_def set_send_connection_def write_to_connection_def cid_of_def
        complete_call_id_sequence_def some_request_def identifiers_left_def)
  moreover have "identifiers_left no_service"
    by (simp add: identifiers_left_def no_service_def)
  ultimately show ?thesis
    using reachable.step [OF no_service_reachable, of ?e] by auto
qed

theorem exception_outcome_witness:
  "\<exists>w w'. registered w 0 \<and> notify_exception no_cluster 0 (cid_of 0 w) (Some io_exception) w = Inr ((), w') \<and>
    unresolved w' 0 \<and> queued w' 0 = 1"
proof -
  obtain w where w: "reachable (\<lambda>_. []) [] w" "identifiers_left w" "invocations w = [(1, 0)]" "cid_of 0 w = 1"
      "send_connection (inv_of 0 w) = Some (Some 7)" "invoke_count (inv_of 0 w) = 1"
      "bound_to_single_connection (inv_of 0 w) = False" "start_time (inv_of 0 w) = 0" "target_uuid (inv_of 0 w) = nil_uuid"
      "invocation_timeout w = 120000"
    using sent_reachable [of "\<lambda>_. []" "[]"] by blast
  have r: "registered w 0"
    by (simp add: registered_def w)
  have s: "should_retry (inv_of 0 w) (redo_operation w) io_exception"
    by (simp add: should_retry_def io_exception_def local_exception_def IO_CODE_def TARGET_NOT_MEMBER_CODE_def w)
  have e: "is_running no_cluster" "now no_cluster = 0"
    by (simp_all add: no_cluster_def)
  obtain w' where "notify_exception no_cluster 0 (cid_of 0 w) (Some io_exception) w = Inr ((), w')"
      "unresolved w' 0" "queued w' 0 = 1"
    using exception_outcome [OF w(1,2) r, of no_cluster io_exception] w s e by auto
  then show ?thesis
    using r by blast
qed

definition response_bytes :: "byte list" where
  "response_bytes = [19, 0, 0, 0, 0, 0xC0, 1, 1, 0, 0, 1, 0, 0, 0, 0, 0, 0, 0, 1]"

theorem close_race_loses_invocation_witness:
  "\<exists>w w1 w2 m. (1, 0) \<in> set (entries_to_fail one_member 7 w) \<and>
    process_response no_cluster (\<lambda>_. []) [] (1, m) w = Inr ((), w1) \<and> fail_entry one_member (1, 0) w1 = Inr ((), w2) \<and>
    unresolved w2 0 \<and> 0 \<notin> snd ` set (invocations w2) \<and> queued w2 0 = 0"
proof -
  obtain w where w: "reachable (\<lambda>_. []) [] w" "invocations w = [(1, 0)]"
      "send_connection (inv_of 0 w) = Some (Some 7)" "backup_acks_received (inv_of 0 w) = 0"
    using sent_reachable [of "\<lambda>_. []" "[]"] by blast
  let ?m = "empty_client_message\<lparr>data_buffer := [\<lparr>buf_bytes = response_bytes, buf_capacity = 1024\<rparr>]\<rparr> :: msg"
  have h: "is_flag_set BACKUP_EVENT_FLAG ?m = Inr (False, ?m)" "get_message_type ?m = Inr (0x101, ?m)"
    "get_correlation_id ?m = Inr (1, ?m)" "get_number_of_backups ?m = Inr (1, ?m)"
    by (simp_all add: is_flag_set_def get_header_flags_def get_message_type_def get_correlation_id_def
        get_number_of_backups_def ptr_load_def slice_def response_bytes_def sm_defs empty_client_message_def
        flag_set_def BACKUP_EVENT_FLAG_def)
  have e: "(1, 0) \<in> set (entries_to_fail one_member 7 w)"
    by (simp add: entries_to_fail_def get_send_connection_def w one_member_def)
  have "\<exists>w1 w2. process_response no_cluster (\<lambda>_. []) [] (1, ?m) w = Inr ((), w1) \<and> fail_entry one_member (1, 0) w1 = Inr ((), w2) \<and>
      unresolved w2 0 \<and> 0 \<notin> snd ` set (invocations w2) \<and> queued w2 0 = 0"
    by (rule close_race_loses_invocation [OF w(1) e h(1,2) _ h(3,4)]) (simp_all add: EXCEPTION_MESSAGE_TYPE_def w)
  then show ?thesis
    using e by blast
qed

end
