(* ===== verification/Backup_Race.thy ===== *)
theory Backup_Race
  imports Invocation
begin

text \<open>
  The response of an invocation and the acknowledgements of its backups are handled by different
  threads.  This theory refines \<open>notify_response\<close> and \<open>notify_backup\<close> (\<open>spi.cpp\<close>) into their accesses
  to the atomic members of \<open>ClientInvocation\<close> and shows that under every interleaving the promise is
  satisfied exactly when the response and all acknowledgements have arrived.
\<close>

section \<open>Atomic steps\<close>

text \<open>The next access of the thread that runs \<open>notify_response\<close>.\<close>

datatype response_phase =
    Check_Received | Set_Expected | Set_Pending | Recheck_Received | Complete_Response | Response_Done

text \<open>The threads that run \<open>notify_backup\<close>, counted by their next access.\<close>

record race =
  shared :: invocation
  response :: response_phase
  to_increment :: nat
  to_load_pending :: nat
  to_compare :: nat
  to_complete :: nat

definition satisfy :: "msg \<Rightarrow> invocation \<Rightarrow> invocation" where
  "satisfy m i = (if invocation_promise i = None then i\<lparr>invocation_promise := Some (Response m)\<rparr> else i)"

inductive race_step :: "msg \<Rightarrow> i8 \<Rightarrow> race \<Rightarrow> race \<Rightarrow> bool" for m expected where
  check_wait: "\<lbrakk>response s = Check_Received; sint (backup_acks_received (shared s)) < sint expected\<rbrakk> \<Longrightarrow>
    race_step m expected s (s\<lparr>response := Set_Expected\<rparr>)"
| check_complete: "\<lbrakk>response s = Check_Received; \<not> sint (backup_acks_received (shared s)) < sint expected\<rbrakk> \<Longrightarrow>
    race_step m expected s (s\<lparr>response := Complete_Response\<rparr>)"
| set_expected: "response s = Set_Expected \<Longrightarrow>
    race_step m expected s (s\<lparr>shared := (shared s)\<lparr>backup_acks_expected := expected\<rparr>, response := Set_Pending\<rparr>)"
| set_pending: "response s = Set_Pending \<Longrightarrow>
    race_step m expected s (s\<lparr>shared := (shared s)\<lparr>pending_response := Some m\<rparr>, response := Recheck_Received\<rparr>)"
| recheck_wait: "\<lbrakk>response s = Recheck_Received; sint (backup_acks_received (shared s)) \<noteq> sint expected\<rbrakk> \<Longrightarrow>
    race_step m expected s (s\<lparr>response := Response_Done\<rparr>)"
| recheck_complete: "\<lbrakk>response s = Recheck_Received; sint (backup_acks_received (shared s)) = sint expected\<rbrakk> \<Longrightarrow>
    race_step m expected s (s\<lparr>response := Complete_Response\<rparr>)"
| complete_response: "response s = Complete_Response \<Longrightarrow>
    race_step m expected s (s\<lparr>shared := satisfy m (shared s), response := Response_Done\<rparr>)"
| increment: "to_increment s = Suc a \<Longrightarrow>
    race_step m expected s (s\<lparr>shared := (shared s)\<lparr>backup_acks_received := backup_acks_received (shared s) + 1\<rparr>,
      to_increment := a, to_load_pending := Suc (to_load_pending s)\<rparr>)"
| load_none: "\<lbrakk>to_load_pending s = Suc a; pending_response (shared s) = None\<rbrakk> \<Longrightarrow>
    race_step m expected s (s\<lparr>to_load_pending := a\<rparr>)"
| load_some: "\<lbrakk>to_load_pending s = Suc a; pending_response (shared s) = Some p\<rbrakk> \<Longrightarrow>
    race_step m expected s (s\<lparr>to_load_pending := a, to_compare := Suc (to_compare s)\<rparr>)"
| compare_wait: "\<lbrakk>to_compare s = Suc a;
    sint (backup_acks_expected (shared s)) \<noteq> sint (backup_acks_received (shared s))\<rbrakk> \<Longrightarrow>
    race_step m expected s (s\<lparr>to_compare := a\<rparr>)"
| compare_last: "\<lbrakk>to_compare s = Suc a;
    sint (backup_acks_expected (shared s)) = sint (backup_acks_received (shared s))\<rbrakk> \<Longrightarrow>
    race_step m expected s (s\<lparr>to_compare := a, to_complete := Suc (to_complete s)\<rparr>)"
| complete_backup: "\<lbrakk>to_complete s = Suc a; pending_response (shared s) = Some p\<rbrakk> \<Longrightarrow>
    race_step m expected s (s\<lparr>shared := satisfy p (shared s), to_complete := a\<rparr>)"

definition race_start :: "invocation \<Rightarrow> nat \<Rightarrow> race" where
  "race_start i acks = \<lparr>shared = i, response = Check_Received, to_increment = acks, to_load_pending = 0,
     to_compare = 0, to_complete = 0\<rparr>"

definition all_arrived :: "race \<Rightarrow> bool" where
  "all_arrived s = (response s = Response_Done \<and> to_increment s = 0 \<and> to_load_pending s = 0 \<and>
     to_compare s = 0 \<and> to_complete s = 0)"

section \<open>The invariant of the race\<close>

definition race_ok :: "msg \<Rightarrow> i8 \<Rightarrow> race \<Rightarrow> bool" where
  "race_ok m expected s =
    (sint (backup_acks_received (shared s)) = sint expected - int (to_increment s) \<and>
     0 \<le> sint expected \<and> int (to_increment s) \<le> sint expected \<and>
     (pending_response (shared s) = None \<or> pending_response (shared s) = Some m) \<and>
     (response s = Set_Pending \<or> pending_response (shared s) \<noteq> None \<longrightarrow> backup_acks_expected (shared s) = expected) \<and>
     (response s \<in> {Check_Received, Set_Expected, Set_Pending} \<longrightarrow> pending_response (shared s) = None) \<and>
     (response s = Recheck_Received \<longrightarrow> pending_response (shared s) \<noteq> None) \<and>
     (response s = Complete_Response \<longrightarrow> to_increment s = 0) \<and>
     (0 < to_compare s + to_complete s \<longrightarrow> pending_response (shared s) \<noteq> None) \<and>
     (0 < to_complete s \<longrightarrow> to_increment s = 0) \<and>
     (invocation_promise (shared s) \<noteq> None \<longrightarrow>
        invocation_promise (shared s) = Some (Response m) \<and> to_increment s = 0) \<and>
     (response s = Response_Done \<and> invocation_promise (shared s) = None \<longrightarrow>
        pending_response (shared s) \<noteq> None \<and>
        (0 < to_increment s \<or> 0 < to_load_pending s + to_compare s + to_complete s)))"

lemma sint_i8_bounds: "- 128 \<le> sint (w :: i8)" "sint (w :: i8) \<le> 127"
  using sint_ge [of w] sint_lt [of w] by simp_all

lemma sint_inc32:
  assumes "- 1000 \<le> sint (w :: i32)" "sint w \<le> 1000"
  shows "sint (w + 1) = sint w + 1"
  using assms by (simp add: sint_word_ariths signed_take_bit_int_eq_self)

lemma race_ok_step:
  assumes "race_step m expected s s'" "race_ok m expected s"
  shows "race_ok m expected s'"
  using assms
proof cases
  case (increment a)
  have "sint (backup_acks_received (shared s) + 1) = sint (backup_acks_received (shared s)) + 1"
    using assms(2) sint_i8_bounds [of expected] by (intro sint_inc32) (auto simp: race_ok_def)
  then show ?thesis
    using increment assms(2) by (auto simp: race_ok_def)
qed (auto simp: race_ok_def satisfy_def)

fun phases_left :: "response_phase \<Rightarrow> nat" where
  "phases_left Check_Received = 5"
| "phases_left Set_Expected = 4"
| "phases_left Set_Pending = 3"
| "phases_left Recheck_Received = 2"
| "phases_left Complete_Response = 1"
| "phases_left Response_Done = 0"

definition steps_left :: "race \<Rightarrow> nat" where
  "steps_left s = phases_left (response s) + 4 * to_increment s + 3 * to_load_pending s + 2 * to_compare s + to_complete s"

lemma race_step_decreases: "race_step m expected s s' \<Longrightarrow> steps_left s' < steps_left s"
  by (cases rule: race_step.cases) (auto simp: steps_left_def)

lemma race_steps:
  assumes "(race_step m expected ^^ n) s s'" "race_ok m expected s"
  shows "race_ok m expected s' \<and> n + steps_left s' \<le> steps_left s"
  using assms
proof (induction n arbitrary: s')
  case (Suc n)
  then obtain t where "(race_step m expected ^^ n) s t" "race_step m expected t s'"
    by auto
  then show ?case
    using Suc race_ok_step race_step_decreases by fastforce
qed auto

lemma race_stuck:
  assumes "race_ok m expected s" "\<nexists>s'. race_step m expected s s'"
  shows "all_arrived s"
proof -
  have "response s = Response_Done"
    using assms(2) race_step.intros [of s] by (cases "response s") (metis | blast)+
  moreover have "to_increment s = 0"
    using assms(2) increment [of s] by (cases "to_increment s") blast+
  moreover have "to_load_pending s = 0"
    using assms(2) load_none [of s] load_some [of s]
    by (cases "to_load_pending s"; cases "pending_response (shared s)") blast+
  moreover have "to_compare s = 0"
    using assms(2) compare_wait [of s] compare_last [of s] by (cases "to_compare s") blast+
  moreover have "to_complete s = 0"
  proof (cases "to_complete s")
    case (Suc a)
    then have "pending_response (shared s) = Some m"
      using assms(1) by (auto simp: race_ok_def)
    then show ?thesis
      using complete_backup [OF Suc] assms(2) by blast
  qed
  ultimately show ?thesis
    by (simp add: all_arrived_def)
qed

text \<open>
  C25. Every run of a response and of the acknowledgements of the backups it announces ends, after at
  most 5 + 4n accesses for n backups, and when it ends the promise is satisfied with the response: no
  interleaving of the accesses loses the completion.  The promise is never satisfied before all
  acknowledgements have been counted.
\<close>

theorem response_and_backups_complete:
  assumes "0 \<le> sint expected" "backup_acks_received i = 0" "pending_response i = None" "invocation_promise i = None"
    "(race_step m expected ^^ n) (race_start i (nat (sint expected))) s"
  shows "n \<le> 5 + 4 * nat (sint expected) \<and>
    ((\<nexists>s'. race_step m expected s s') \<longrightarrow> invocation_promise (shared s) = Some (Response m)) \<and>
    (invocation_promise (shared s) \<noteq> None \<longrightarrow> sint (backup_acks_received (shared s)) = sint expected)"
proof -
  have "race_ok m expected (race_start i (nat (sint expected)))"
    using assms(1-4) by (simp add: race_ok_def race_start_def)
  note r = race_steps [OF assms(5) this]
  then have ok: "race_ok m expected s" ..
  have "invocation_promise (shared s) = Some (Response m)" if "\<nexists>s'. race_step m expected s s'"
  proof -
    have "all_arrived s"
      using race_stuck [OF ok that] .
    with ok have "invocation_promise (shared s) \<noteq> None"
      unfolding race_ok_def all_arrived_def by simp
    with ok show ?thesis
      unfolding race_ok_def by blast
  qed
  moreover have "sint (backup_acks_received (shared s)) = sint expected" if "invocation_promise (shared s) \<noteq> None"
    using ok that unfolding race_ok_def by simp
  moreover have "n \<le> 5 + 4 * nat (sint expected)"
    using r by (simp add: steps_left_def race_start_def)
  ultimately show ?thesis
    by blast
qed

text \<open>One backup whose acknowledgement comes after the response: eight accesses.\<close>

theorem response_and_backups_complete_witness:
  "\<exists>(i :: invocation) s. (race_step empty_client_message 1 ^^ 8) (race_start i (nat (sint (1 :: i8)))) s \<and>
    invocation_promise (shared s) \<noteq> None \<and> sint (backup_acks_received (shared s)) = sint (1 :: i8)"
proof -
  let ?m = "empty_client_message :: msg"
  let ?step = "race_step ?m 1"
  define i where "i = \<lparr>request_message = \<lparr>request_correlation_id = 1, request_flags = 0, request_retryable = False,
      request_contains_serialized_data = False\<rparr>, target_uuid = nil_uuid, partition_id = 0, start_time = 0,
     bound_connection = None, bound_to_single_connection = False, invoked_or_exception_set = True,
     send_connection = None, has_event_handler = False, invoke_count = 1, invocation_promise = None,
     continuation_attached = True, urgent = False, backup_acks_received = 0, backup_acks_expected = - 1,
     pending_response = None, pending_response_received_time = 0\<rparr>"
  define s0 where "s0 = race_start i 1"
  define s1 where "s1 = s0\<lparr>response := Set_Expected\<rparr>"
  define s2 where "s2 = s1\<lparr>shared := (shared s1)\<lparr>backup_acks_expected := 1\<rparr>, response := Set_Pending\<rparr>"
  define s3 where "s3 = s2\<lparr>shared := (shared s2)\<lparr>pending_response := Some ?m\<rparr>, response := Recheck_Received\<rparr>"
  define s4 where "s4 = s3\<lparr>response := Response_Done\<rparr>"
  define s5 where "s5 = s4\<lparr>shared := (shared s4)\<lparr>backup_acks_received := backup_acks_received (shared s4) + 1\<rparr>,
      to_increment := 0, to_load_pending := Suc (to_load_pending s4)\<rparr>"
  define s6 where "s6 = s5\<lparr>to_load_pending := 0, to_compare := Suc (to_compare s5)\<rparr>"
  define s7 where "s7 = s6\<lparr>to_compare := 0, to_complete := Suc (to_complete s6)\<rparr>"
  define s8 where "s8 = s7\<lparr>shared := satisfy ?m (shared s7), to_complete := 0\<rparr>"
  note defs = s0_def s1_def s2_def s3_def s4_def s5_def s6_def s7_def race_start_def i_def
  have "?step s0 s1" unfolding s1_def by (rule check_wait) (simp_all add: defs)
  moreover have "?step s1 s2" unfolding s2_def by (rule set_expected) (simp_all add: defs)
  moreover have "?step s2 s3" unfolding s3_def by (rule set_pending) (simp_all add: defs)
  moreover have "?step s3 s4" unfolding s4_def by (rule recheck_wait) (simp_all add: defs)
  moreover have "?step s4 s5" unfolding s5_def by (rule increment) (simp_all add: defs)
  moreover have "?step s5 s6" unfolding s6_def by (rule load_some) (simp_all add: defs)
  moreover have "?step s6 s7" unfolding s7_def by (rule compare_last) (simp_all add: defs)
  moreover have "?step s7 s8" unfolding s8_def by (rule complete_backup) (simp_all add: defs)
  ultimately have "(?step ^^ Suc (Suc (Suc (Suc (Suc (Suc (Suc (Suc 0)))))))) s0 s8"
    by (intro relpowp_Suc_I2 [of ?step]) (assumption | simp)+
  then have run: "(?step ^^ 8) (race_start i (nat (sint (1 :: i8)))) s8"
    by (simp add: s0_def numeral_eq_Suc)
  moreover have "invocation_promise (shared s8) \<noteq> None"
    by (simp add: s8_def satisfy_def defs)
  moreover have "sint (backup_acks_received (shared s8)) = sint (1 :: i8)"
    using response_and_backups_complete [OF _ _ _ _ run] calculation(2) by (simp add: i_def)
  ultimately show ?thesis
    by blast
qed

end
