(* ===== verification/Data_IO.thy ===== *)
theory Data_IO
  imports Message_Types
begin

text \<open>
  The byte streams under every serializer: \<open>data_output\<close> (\<open>data_output.h\<close>, \<open>serialization.cpp\<close>)
  and \<open>data_input\<close> (\<open>data_input.h\<close>), and the codecs of dates and times in
  \<open>serialization_util\<close> (\<open>serialization.h\<close>).

  An output is its byte order, the flag that turns writing off and the bytes so far.  An input is
  its byte order, the buffer and the position, a 32-bit \<open>int\<close> as in the source.  A floating-point
  number is the word with its bits, which is what the union of the source moves.  An access outside
  the vector of bytes is \<open>UndefinedBehaviour\<close>.

  \<open>appends\<close> says which bytes an operation appends and \<open>decodes\<close> which value is read from some bytes
  wherever they stand in a buffer; the locale \<open>io_codec\<close> pairs a writer with a reader and is
  interpreted on every pair of the source.
\<close>

section \<open>Output\<close>

datatype byte_order = Big_Endian | Little_Endian

fun order_bytes :: "byte_order \<Rightarrow> nat \<Rightarrow> 'a::len word \<Rightarrow> byte list" where
  "order_bytes Big_Endian n w = be_bytes n w"
| "order_bytes Little_Endian n w = le_bytes n w"

fun order_word :: "byte_order \<Rightarrow> byte list \<Rightarrow> 'a::len word" where
  "order_word Big_Endian bs = be_word bs"
| "order_word Little_Endian bs = le_word bs"

record data_output =
  do_byte_order :: byte_order
  is_no_write :: bool
  output_stream :: "byte list"

type_synonym 'a dout = "(data_output, 'a) sm"

definition make_data_output :: "byte_order \<Rightarrow> bool \<Rightarrow> data_output" where
  "make_data_output order dont_write =
    \<lparr>do_byte_order = order, is_no_write = dont_write, output_stream = []\<rparr>"

definition append_bytes :: "byte list \<Rightarrow> unit dout" where
  "append_bytes bs = (\<lambda>out. Inr ((), out\<lparr>output_stream := output_stream out @ bs\<rparr>))"

definition write_zero_bytes :: "nat \<Rightarrow> unit dout" where
  "write_zero_bytes n = (\<lambda>out. Inr ((), out\<lparr>output_stream := output_stream out @ replicate n 0\<rparr>))"

definition out_position :: "nat dout" where
  "out_position = (\<lambda>out. Inr (length (output_stream out), out))"

definition set_out_position :: "nat \<Rightarrow> unit dout" where
  "set_out_position new_pos = (\<lambda>out.
    if is_no_write out then Inr ((), out)
    else if length (output_stream out) < new_pos
    then Inr ((), out\<lparr>output_stream :=
           output_stream out @ replicate (new_pos - length (output_stream out)) 0\<rparr>)
    else Inr ((), out))"

definition unless_no_write :: "unit dout \<Rightarrow> unit dout" where
  "unless_no_write f = (\<lambda>out. if is_no_write out then Inr ((), out) else f out)"

definition write_u8 :: "byte \<Rightarrow> unit dout" where
  "write_u8 i = unless_no_write (append_bytes [i])"

definition write_int16 :: "i16 \<Rightarrow> unit dout" where
  "write_int16 v = unless_no_write (\<lambda>out. append_bytes (order_bytes (do_byte_order out) 2 v) out)"

text \<open>A \<open>char\<close> is signed and widened to 16 bits.\<close>

definition write_char :: "i8 \<Rightarrow> unit dout" where
  "write_char i = write_int16 (scast i)"

definition write_char16 :: "i16 \<Rightarrow> unit dout" where
  "write_char16 i = write_int16 i"

definition write_int32_as :: "i32 \<Rightarrow> byte_order \<Rightarrow> unit dout" where
  "write_int32_as v order = unless_no_write (append_bytes (order_bytes order 4 v))"

definition write_int32 :: "i32 \<Rightarrow> unit dout" where
  "write_int32 v = (\<lambda>out. write_int32_as v (do_byte_order out) out)"

definition write_int64 :: "i64 \<Rightarrow> unit dout" where
  "write_int64 v = unless_no_write (\<lambda>out. append_bytes (order_bytes (do_byte_order out) 8 v) out)"

definition write_float :: "i32 \<Rightarrow> unit dout" where
  "write_float x = unless_no_write (write_int32 x)"

definition write_double :: "i64 \<Rightarrow> unit dout" where
  "write_double v = unless_no_write (write_int64 v)"

definition write_uuid :: "uuid \<Rightarrow> unit dout" where
  "write_uuid v = unless_no_write (\<lambda>out.
    append_bytes (if do_byte_order out = Little_Endian then reverse_halves (uuid_data v)
                  else uuid_data v) out)"

definition write_bool :: "bool \<Rightarrow> unit dout" where
  "write_bool v = unless_no_write (write_u8 (of_bool v))"

definition write_int8 :: "i8 \<Rightarrow> unit dout" where
  "write_int8 v = unless_no_write (write_u8 v)"

definition write_string :: "hz_string \<Rightarrow> unit dout" where
  "write_string str = unless_no_write
    (sthen (write_int32 (of_nat (length str))) (append_bytes str))"

definition NULL_ARRAY :: i32 where
  "NULL_ARRAY = - 1"

definition write_nullable_string :: "hz_string option \<Rightarrow> unit dout" where
  "write_nullable_string value = unless_no_write
    (case value of None \<Rightarrow> write_int32 NULL_ARRAY | Some str \<Rightarrow> write_string str)"

text \<open>The vector templates take the writer of the element type.\<close>

definition write_vector :: "('a \<Rightarrow> unit dout) \<Rightarrow> 'a list \<Rightarrow> unit dout" where
  "write_vector write_item value = unless_no_write
    (let len = (of_nat (length value) :: i32)
     in sthen (write_int32 len) (if 0 < sint len then siter write_item value else sreturn ()))"

definition write_nullable_vector :: "('a \<Rightarrow> unit dout) \<Rightarrow> 'a list option \<Rightarrow> unit dout" where
  "write_nullable_vector write_item value = unless_no_write
    (case value of None \<Rightarrow> write_int32 NULL_ARRAY | Some vs \<Rightarrow> write_vector write_item vs)"

text \<open>The test of \<open>check_available\<close> that the unsigned index is negative never succeeds.\<close>

definition check_available_out :: "nat \<Rightarrow> i32 \<Rightarrow> unit dout" where
  "check_available_out index requested_length = (\<lambda>out.
    let available = usize_sub (length (output_stream out)) index
    in if sint (of_nat available :: i32) < sint requested_length then Inl IllegalArgument
       else Inr ((), out))"

definition store_at :: "nat \<Rightarrow> byte list \<Rightarrow> unit dout" where
  "store_at index bs = (\<lambda>out.
    if index + length bs \<le> length (output_stream out)
    then Inr ((), out\<lparr>output_stream := overwrite index bs (output_stream out)\<rparr>)
    else Inl UndefinedBehaviour)"

definition write_at :: "nat \<Rightarrow> nat \<Rightarrow> 'a::len word \<Rightarrow> unit dout" where
  "write_at sz index v = unless_no_write
    (sthen (check_available_out index (of_nat sz))
      (\<lambda>out. store_at index (order_bytes (do_byte_order out) sz v) out))"

definition set_bit_of :: "byte \<Rightarrow> nat \<Rightarrow> bool \<Rightarrow> byte" where
  "set_bit_of b off v =
    (if v then ucast ((ucast b :: i32) OR push_bit off 1)
     else ucast ((ucast b :: i32) AND NOT (push_bit off 1)))"

text \<open>A shift of a 32-bit \<open>int\<close> by 32 or more is undefined.\<close>

definition write_boolean_bit_at :: "nat \<Rightarrow> nat \<Rightarrow> bool \<Rightarrow> unit dout" where
  "write_boolean_bit_at index offset_in_bits v = unless_no_write
    (sthen (check_available_out index 1)
      (\<lambda>out. if index < length (output_stream out) \<and> offset_in_bits < 32
             then store_at index [set_bit_of (output_stream out ! index) offset_in_bits v] out
             else Inl UndefinedBehaviour))"

section \<open>Input\<close>

record data_input =
  di_byte_order :: byte_order
  di_buffer :: "byte list"
  di_pos :: i32

type_synonym 'a din = "(data_input, 'a) sm"

definition make_data_input :: "byte_order \<Rightarrow> byte list \<Rightarrow> i32 \<Rightarrow> data_input" where
  "make_data_input order buf offset = \<lparr>di_byte_order = order, di_buffer = buf, di_pos = offset\<rparr>"

text \<open>The position is converted to \<open>size_t\<close> before it is subtracted.\<close>

definition check_available_at :: "i32 \<Rightarrow> nat \<Rightarrow> unit din" where
  "check_available_at pos requested_length = (\<lambda>inp.
    let available = usize_sub (length (di_buffer inp)) (i32_to_usize pos)
    in if available < requested_length then Inl IO else Inr ((), inp))"

definition check_available :: "nat \<Rightarrow> unit din" where
  "check_available requested_length = (\<lambda>inp. check_available_at (di_pos inp) requested_length inp)"

definition load_at :: "i32 \<Rightarrow> nat \<Rightarrow> byte list din" where
  "load_at pos n = (\<lambda>inp.
    if i32_to_usize pos + n \<le> length (di_buffer inp)
    then Inr (slice (i32_to_usize pos) n (di_buffer inp), inp) else Inl UndefinedBehaviour)"

text \<open>Adding an \<open>int\<close> to the position is undefined when it overflows; adding a \<open>sizeof\<close> wraps.\<close>

definition advance_int :: "i32 \<Rightarrow> unit din" where
  "advance_int n = (\<lambda>inp.
    if sint (di_pos inp + n) = sint (di_pos inp) + sint n
    then Inr ((), inp\<lparr>di_pos := di_pos inp + n\<rparr>) else Inl UndefinedBehaviour)"

definition advance_sizeof :: "nat \<Rightarrow> unit din" where
  "advance_sizeof n = (\<lambda>inp. Inr ((), inp\<lparr>di_pos := di_pos inp + of_nat n\<rparr>))"

definition in_position :: "i32 din" where
  "in_position = (\<lambda>inp. Inr (di_pos inp, inp))"

definition set_in_position :: "i32 \<Rightarrow> unit din" where
  "set_in_position p = (\<lambda>inp.
    if sint (di_pos inp) < sint p
    then if sint (p - di_pos inp) = sint p - sint (di_pos inp)
         then sthen (check_available (i32_to_usize (p - di_pos inp)))
                (\<lambda>inp. Inr ((), inp\<lparr>di_pos := p\<rparr>)) inp
         else Inl UndefinedBehaviour
    else Inr ((), inp\<lparr>di_pos := p\<rparr>))"

definition read_fully :: "nat \<Rightarrow> byte list din" where
  "read_fully len = sthen (check_available len)
    (sbind (\<lambda>inp. load_at (di_pos inp) len inp) (\<lambda>bs.
      sthen (advance_int (of_nat len)) (sreturn bs)))"

definition skip_in :: "i32 \<Rightarrow> i32 din" where
  "skip_in i = sthen (check_available (i32_to_usize i)) (sthen (advance_int i) (sreturn i))"

definition read_u8 :: "byte din" where
  "read_u8 = sthen (check_available 1) (sbind (\<lambda>inp. load_at (di_pos inp) 1 inp) (\<lambda>bs.
    sthen (advance_int 1) (sreturn (hd bs))))"

definition read_word_as :: "nat \<Rightarrow> i32 \<Rightarrow> byte_order \<Rightarrow> 'a::len word din" where
  "read_word_as sz pos order = sthen (check_available_at pos sz)
    (sbind (load_at pos sz) (\<lambda>bs. sreturn (order_word order bs)))"

definition read_word_at :: "nat \<Rightarrow> i32 \<Rightarrow> 'a::len word din" where
  "read_word_at sz pos = (\<lambda>inp. read_word_as sz pos (di_byte_order inp) inp)"

definition read_u8_at :: "i32 \<Rightarrow> byte din" where
  "read_u8_at pos = sthen (check_available_at pos 1) (sbind (load_at pos 1) (\<lambda>bs. sreturn (hd bs)))"

definition read_int8 :: "i8 din" where
  "read_int8 = sbind (\<lambda>inp. read_u8_at (di_pos inp) inp) (\<lambda>v. sthen (advance_sizeof 1) (sreturn v))"

definition read_word :: "nat \<Rightarrow> 'a::len word din" where
  "read_word sz = sbind (\<lambda>inp. read_word_at sz (di_pos inp) inp) (\<lambda>v.
    sthen (advance_sizeof sz) (sreturn v))"

definition read_int16 :: "i16 din" where
  "read_int16 = read_word 2"

definition read_int32 :: "i32 din" where
  "read_int32 = read_word 4"

definition read_int64 :: "i64 din" where
  "read_int64 = read_word 8"

definition read_float :: "i32 din" where
  "read_float = read_word 4"

definition read_double :: "i64 din" where
  "read_double = read_word 8"

definition read_int32_as :: "byte_order \<Rightarrow> i32 din" where
  "read_int32_as order = sbind (\<lambda>inp. read_word_as 4 (di_pos inp) order inp) (\<lambda>v.
    sthen (advance_int 4) (sreturn v))"

definition read_char16 :: "i16 din" where
  "read_char16 = read_int16"

definition read_char :: "i8 din" where
  "read_char = sbind read_char16 (\<lambda>v. sreturn (ucast v))"

definition read_bool :: "bool din" where
  "read_bool = sbind read_u8 (\<lambda>b. sreturn (b \<noteq> 0))"

definition read_chars :: "nat \<Rightarrow> hz_string din" where
  "read_chars byte_count = sthen (check_available byte_count)
    (sbind (\<lambda>inp. load_at (di_pos inp) byte_count inp) (\<lambda>bs.
      sthen (advance_int (of_nat byte_count)) (sreturn bs)))"

definition read_string :: "hz_string din" where
  "read_string = sbind read_int32 (\<lambda>char_count.
    if char_count = NULL_ARRAY then sfail IO else read_chars (i32_to_usize char_count))"

definition read_nullable_string :: "hz_string option din" where
  "read_nullable_string = sbind read_int32 (\<lambda>char_count.
    if char_count = NULL_ARRAY then sreturn None
    else sbind (read_chars (i32_to_usize char_count)) (\<lambda>str. sreturn (Some str)))"

definition read_uuid :: "uuid din" where
  "read_uuid = sthen (check_available 16) (sbind (\<lambda>inp. load_at (di_pos inp) 16 inp) (\<lambda>bs.
    sthen (advance_int 16) (\<lambda>inp. Inr (uuid_of_data
      (if di_byte_order inp = Little_Endian then reverse_halves bs else bs), inp))))"

definition read_vector :: "'a din \<Rightarrow> 'a list option din" where
  "read_vector read_item = sbind read_int32 (\<lambda>len.
    if len = NULL_ARRAY then sreturn None
    else if len = 0 then sreturn None
    else if sint len < 0 then sfail HazelcastSerialization
    else sbind (srepeat (unat len) read_item) (\<lambda>vs. sreturn (Some vs)))"

section \<open>Dates and times\<close>

definition write_local_time :: "local_time \<Rightarrow> unit dout" where
  "write_local_time t = sseq [write_u8 (time_hour t), write_u8 (time_minute t),
    write_u8 (time_second t), write_int32 (time_nano t)]"

definition read_local_time :: "local_time din" where
  "read_local_time = sbind read_u8 (\<lambda>h. sbind read_u8 (\<lambda>m. sbind read_u8 (\<lambda>s. sbind read_int32 (\<lambda>n.
    sreturn \<lparr>time_hour = h, time_minute = m, time_second = s, time_nano = n\<rparr>))))"

definition write_local_date :: "local_date \<Rightarrow> unit dout" where
  "write_local_date d = sseq [write_int32 (date_year d), write_u8 (date_month d),
    write_u8 (date_day d)]"

definition read_local_date :: "local_date din" where
  "read_local_date = sbind read_int32 (\<lambda>y. sbind read_u8 (\<lambda>m. sbind read_u8 (\<lambda>d.
    sreturn \<lparr>date_year = y, date_month = m, date_day = d\<rparr>)))"

definition write_local_date_time :: "local_date \<times> local_time \<Rightarrow> unit dout" where
  "write_local_date_time v = sthen (write_local_date (fst v)) (write_local_time (snd v))"

definition read_local_date_time :: "(local_date \<times> local_time) din" where
  "read_local_date_time = sbind read_local_date (\<lambda>d. sbind read_local_time (\<lambda>t. sreturn (d, t)))"

definition write_offset_date_time :: "(local_date \<times> local_time) \<times> i32 \<Rightarrow> unit dout" where
  "write_offset_date_time v = sthen (write_local_date_time (fst v)) (write_int32 (snd v))"

definition read_offset_date_time :: "((local_date \<times> local_time) \<times> i32) din" where
  "read_offset_date_time = sbind read_local_date_time (\<lambda>dt. sbind read_int32 (\<lambda>z. sreturn (dt, z)))"

section \<open>What is appended and what is read back\<close>

definition out_at :: "byte_order \<Rightarrow> byte list \<Rightarrow> data_output" where
  "out_at order s = \<lparr>do_byte_order = order, is_no_write = False, output_stream = s\<rparr>"

definition in_at :: "byte_order \<Rightarrow> byte list \<Rightarrow> nat \<Rightarrow> data_input" where
  "in_at order buf p = \<lparr>di_byte_order = order, di_buffer = buf, di_pos = of_nat p\<rparr>"

definition appends :: "byte_order \<Rightarrow> unit dout \<Rightarrow> byte list \<Rightarrow> bool" where
  "appends order f bs \<longleftrightarrow> (\<forall>s. length s + length bs < 2 ^ 31 \<longrightarrow>
    f (out_at order s) = Inr ((), out_at order (s @ bs)))"

definition decodes :: "byte_order \<Rightarrow> 'a din \<Rightarrow> byte list \<Rightarrow> 'a \<Rightarrow> bool" where
  "decodes order r bs v \<longleftrightarrow> (\<forall>xs ys. length xs + length bs + length ys < 2 ^ 31 \<longrightarrow>
    r (in_at order (xs @ bs @ ys) (length xs)) =
      Inr (v, in_at order (xs @ bs @ ys) (length xs + length bs)))"

lemma appendsD:
  "appends order f bs \<Longrightarrow> length s + length bs < 2 ^ 31 \<Longrightarrow>
    f (out_at order s) = Inr ((), out_at order (s @ bs))"
  by (simp add: appends_def)

lemma decodesD:
  "decodes order r bs v \<Longrightarrow> length xs + length bs + length ys < 2 ^ 31 \<Longrightarrow>
    r (in_at order (xs @ bs @ ys) (length xs)) =
      Inr (v, in_at order (xs @ bs @ ys) (length xs + length bs))"
  by (simp add: decodes_def)

lemma appends_nil: "appends order (sreturn ()) []"
  by (simp add: appends_def)

lemma appends_then:
  assumes "appends order f bs" "appends order g cs"
  shows "appends order (sthen f g) (bs @ cs)"
  using assms by (simp add: appends_def sthen_def)

lemma appends_iter:
  assumes "\<And>v. v \<in> set vs \<Longrightarrow> appends order (w v) (enc v)"
  shows "appends order (siter w vs) (concat (map enc vs))"
  using assms
proof (induction vs)
  case Nil
  show ?case
    using appends_nil by (simp del: sreturn_apply)
next
  case (Cons v vs)
  then have "appends order (sthen (w v) (siter w vs)) (enc v @ concat (map enc vs))"
    by (intro appends_then) simp_all
  then show ?case by simp
qed

lemma appends_append: "appends order (append_bytes bs) bs"
  by (simp add: appends_def append_bytes_def out_at_def)

lemma appends_unless: "appends order f bs \<Longrightarrow> appends order (unless_no_write f) bs"
  by (simp add: appends_def unless_no_write_def out_at_def)

lemma appends_order:
  assumes "\<And>s. f (out_at order s) = g (out_at order s)" "appends order g bs"
  shows "appends order f bs"
  using assms by (simp add: appends_def)

lemma decodes_return: "decodes order (sreturn v) [] v"
  by (simp add: decodes_def)

lemma decodes_bind:
  assumes r: "decodes order r bs v" and k: "decodes order (k v) cs u"
  shows "decodes order (sbind r k) (bs @ cs) u"
  unfolding decodes_def
proof (intro allI impI)
  fix xs ys :: "byte list"
  assume "length xs + length (bs @ cs) + length ys < 2 ^ 31"
  then have b: "length xs + length bs + length (cs @ ys) < 2 ^ 31"
    and c: "length (xs @ bs) + length cs + length ys < 2 ^ 31"
    by simp_all
  show "sbind r k (in_at order (xs @ (bs @ cs) @ ys) (length xs)) =
      Inr (u, in_at order (xs @ (bs @ cs) @ ys) (length xs + length (bs @ cs)))"
    using decodesD [OF r b] decodesD [OF k c] by (simp add: add.assoc)
qed

lemma decodes_map: "decodes order r bs v \<Longrightarrow> decodes order (sbind r (\<lambda>v. sreturn (f v))) bs (f v)"
  using decodes_bind [where k = "\<lambda>v. sreturn (f v)", OF _ decodes_return] by (metis append_Nil2)

lemma decodes_repeat:
  assumes "\<And>v. v \<in> set vs \<Longrightarrow> decodes order r (enc v) (view v)"
  shows "decodes order (srepeat (length vs) r) (concat (map enc vs)) (map view vs)"
  using assms
proof (induction vs)
  case Nil
  show ?case
    using decodes_return by (simp del: sreturn_apply)
next
  case (Cons v vs)
  have "decodes order (srepeat (length vs) r) (concat (map enc vs)) (map view vs)"
    using Cons by simp
  then have rest: "decodes order (sbind (srepeat (length vs) r) (\<lambda>us. sreturn (view v # us)))
      (concat (map enc vs)) (view v # map view vs)"
    by (rule decodes_map)
  have "decodes order r (enc v) (view v)"
    using Cons.prems by simp
  from decodes_bind [OF this, of "\<lambda>u. sbind (srepeat (length vs) r) (\<lambda>us. sreturn (u # us))", OF rest]
  show ?case by simp
qed


subsection \<open>Primitive reads at a position\<close>

lemma usize_sub_le: "a < usize_max \<Longrightarrow> b \<le> a \<Longrightarrow> usize_sub a b = a - b"
  by (rule usize_sub_exact) simp_all

lemma check_available_at_in:
  assumes "p + n \<le> length buf" "length buf < 2 ^ 31"
  shows "check_available_at (of_nat p) n (in_at order buf q) = Inr ((), in_at order buf q)"
proof -
  have "usize_sub (length buf) p = length buf - p"
    using assms by (intro usize_sub_le) (simp_all add: usize_max_def)
  moreover have "i32_to_usize (of_nat p) = p"
    using assms by simp
  ultimately show ?thesis
    using assms by (simp add: check_available_at_def in_at_def)
qed

lemma check_available_in:
  assumes "p + n \<le> length buf" "length buf < 2 ^ 31"
  shows "check_available n (in_at order buf p) = Inr ((), in_at order buf p)"
  using check_available_at_in [OF assms] by (simp add: check_available_def in_at_def)

lemma load_at_in:
  assumes "p + n \<le> length buf" "length buf < 2 ^ 31"
  shows "load_at (of_nat p) n (in_at order buf q) = Inr (slice p n buf, in_at order buf q)"
  using assms by (simp add: load_at_def in_at_def)

lemma load_pos_in:
  assumes "p + n \<le> length buf" "length buf < 2 ^ 31"
  shows "load_at (di_pos (in_at order buf p)) n (in_at order buf p) = Inr (slice p n buf, in_at order buf p)"
  using load_at_in [OF assms] by (simp add: in_at_def)

lemma sint_of_nat:
  assumes "n < 2 ^ 31"
  shows "sint (of_nat n :: i32) = int n"
proof -
  have "unat (of_nat n :: i32) = n"
    using assms by (simp add: unsigned_of_nat take_bit_nat_eq_self)
  then show ?thesis
    using sint_unat [of "of_nat n :: i32"] assms by simp
qed

lemma advance_int_in:
  assumes "p + n < 2 ^ 31"
  shows "advance_int (of_nat n) (in_at order buf p) = Inr ((), in_at order buf (p + n))"
  using assms sint_of_nat [of "p + n"] sint_of_nat [of p] sint_of_nat [of n]
  by (simp add: advance_int_def in_at_def)

lemma advance_sizeof_in: "advance_sizeof n (in_at order buf p) = Inr ((), in_at order buf (p + n))"
  by (simp add: advance_sizeof_def in_at_def)

lemma slice_mid: "n = length bs \<Longrightarrow> slice (length xs) n (xs @ bs @ ys) = bs"
  by (simp add: slice_append_right)

lemmas in_defs = check_available_in check_available_at_in load_at_in load_pos_in advance_sizeof_in slice_mid

lemma order_width [simp]: "length (order_bytes order n w) = n"
  by (cases order) simp_all

lemma order_full [simp]: "LENGTH('a) = 8 * n \<Longrightarrow> order_word order (order_bytes order n (w :: 'a::len word)) = w"
  by (cases order) simp_all

lemma decodes_word:
  assumes "LENGTH('a) = 8 * n"
  shows "decodes order (read_word n) (order_bytes order n (w :: 'a::len word)) w"
  unfolding decodes_def
proof (intro allI impI)
  fix xs ys :: "byte list"
  let ?b = "xs @ order_bytes order n w @ ys"
  assume "length xs + length (order_bytes order n w) + length ys < 2 ^ 31"
  then have b: "length xs + n \<le> length ?b" "length ?b < 2 ^ 31"
    by simp_all
  have "read_word_at n (di_pos (in_at order ?b (length xs))) (in_at order ?b (length xs)) =
      Inr (w, in_at order ?b (length xs))"
    using in_defs(2) [OF b, of order "length xs"] in_defs(3) [OF b, of order "length xs"] assms
    by (simp add: read_word_at_def read_word_as_def in_at_def slice_mid)
  then show "read_word n (in_at order ?b (length xs)) =
      Inr (w, in_at order ?b (length xs + length (order_bytes order n w)))"
    by (simp add: read_word_def advance_sizeof_in)
qed

lemma decodes_chars: "decodes order (read_chars (length bs)) bs bs"
  unfolding decodes_def
proof (intro allI impI)
  fix xs ys :: "byte list"
  let ?b = "xs @ bs @ ys"
  assume "length xs + length bs + length ys < 2 ^ 31"
  then have b: "length xs + length bs \<le> length ?b" "length ?b < 2 ^ 31" and s: "length xs + length bs < 2 ^ 31"
    by simp_all
  show "read_chars (length bs) (in_at order ?b (length xs)) = Inr (bs, in_at order ?b (length xs + length bs))"
    using in_defs(1) [OF b, of order] in_defs(4) [OF b, of order] advance_int_in [OF s, of order ?b]
    by (simp add: read_chars_def slice_mid)
qed

lemma read_fully_chars: "read_fully = read_chars"
  by (simp add: read_fully_def read_chars_def fun_eq_iff)

lemma decodes_u8: "decodes order read_u8 [b] b"
  unfolding decodes_def
proof (intro allI impI)
  fix xs ys :: "byte list"
  let ?b = "xs @ [b] @ ys"
  assume "length xs + length [b] + length ys < 2 ^ 31"
  then have b: "length xs + 1 \<le> length ?b" "length ?b < 2 ^ 31" and s: "length xs + 1 < 2 ^ 31"
    by simp_all
  show "read_u8 (in_at order ?b (length xs)) = Inr (b, in_at order ?b (length xs + length [b]))"
    using in_defs(1) [OF b, of order] in_defs(4) [OF b, of order] advance_int_in [OF s, of order ?b]
      slice_mid [of 1 "[b]" xs ys]
    by (simp add: read_u8_def)
qed


lemma decodes_int8: "decodes order read_int8 [b] b"
  unfolding decodes_def
proof (intro allI impI)
  fix xs ys :: "byte list"
  let ?b = "xs @ [b] @ ys"
  assume "length xs + length [b] + length ys < 2 ^ 31"
  then have b: "length xs + 1 \<le> length ?b" "length ?b < 2 ^ 31"
    by simp_all
  have "read_u8_at (di_pos (in_at order ?b (length xs))) (in_at order ?b (length xs)) =
      Inr (b, in_at order ?b (length xs))"
    using in_defs(2) [OF b, of order "length xs"] in_defs(3) [OF b, of order "length xs"]
      slice_mid [of 1 "[b]" xs ys]
    by (simp add: read_u8_at_def in_at_def)
  then show "read_int8 (in_at order ?b (length xs)) = Inr (b, in_at order ?b (length xs + length [b]))"
    by (simp add: read_int8_def advance_sizeof_in)
qed

subsection \<open>The codecs\<close>

locale io_codec =
  fixes put :: "'a \<Rightarrow> unit dout"
    and fetch :: "'b din"
    and enc :: "byte_order \<Rightarrow> 'a \<Rightarrow> byte list"
    and view :: "'a \<Rightarrow> 'b"
    and ok :: "'a \<Rightarrow> bool"
  assumes appends_put: "ok v \<Longrightarrow> appends order (put v) (enc order v)"
    and decodes_fetch: "ok v \<Longrightarrow> decodes order fetch (enc order v) (view v)"
begin

lemma appends_items:
  "list_all ok vs \<Longrightarrow> appends order (siter put vs) (concat (map (enc order) vs))"
  by (intro appends_iter appends_put) (auto simp: list_all_iff)

lemma decodes_items:
  "list_all ok vs \<Longrightarrow>
    decodes order (srepeat (length vs) fetch) (concat (map (enc order) vs)) (map view vs)"
  by (intro decodes_repeat decodes_fetch) (auto simp: list_all_iff)

text \<open>What is written at the end of an output is read back from the finished buffer, whatever stands
  around it.\<close>

lemma round_trip:
  assumes "ok v" "length s + length (enc order v) + length ys < 2 ^ 31"
  shows "\<exists>bs. put v (out_at order s) = Inr ((), out_at order (s @ bs)) \<and>
    fetch (in_at order (s @ bs @ ys) (length s)) = Inr (view v, in_at order (s @ bs @ ys) (length s + length bs))"
  using appendsD [OF appends_put [OF assms(1)], where order = order and s = s]
    decodesD [OF decodes_fetch [OF assms(1)], where order = order and xs = s and ys = ys] assms(2)
  by auto

end

lemma appends_word:
  "appends order (unless_no_write (\<lambda>out. append_bytes (order_bytes (do_byte_order out) n w) out))
    (order_bytes order n w)"
  by (intro appends_unless appends_order [OF _ appends_append]) (simp add: out_at_def)

interpretation u8: io_codec write_u8 read_u8 "\<lambda>_ b. [b]" "\<lambda>v. v" "\<lambda>_. True"
  by unfold_locales (simp_all add: write_u8_def appends_unless appends_append decodes_u8)

interpretation int8: io_codec write_int8 read_int8 "\<lambda>_ b. [b]" "\<lambda>v. v" "\<lambda>_. True"
  by unfold_locales (simp_all add: write_int8_def appends_unless u8.appends_put decodes_int8)

interpretation int16: io_codec write_int16 read_int16 "\<lambda>order. order_bytes order 2" "\<lambda>v. v" "\<lambda>_. True"
  by unfold_locales (simp_all add: write_int16_def read_int16_def appends_word decodes_word)

lemma appends_int32: "appends order (write_int32 v) (order_bytes order 4 v)"
proof -
  have "appends order (write_int32_as v order) (order_bytes order 4 v)"
    by (simp add: write_int32_as_def appends_unless appends_append)
  then show ?thesis
    by (rule appends_order [rotated]) (simp add: write_int32_def out_at_def)
qed

interpretation int32: io_codec write_int32 read_int32 "\<lambda>order. order_bytes order 4" "\<lambda>v. v" "\<lambda>_. True"
  by unfold_locales (simp_all add: appends_int32 read_int32_def decodes_word)

interpretation int64: io_codec write_int64 read_int64 "\<lambda>order. order_bytes order 8" "\<lambda>v. v" "\<lambda>_. True"
  by unfold_locales (simp_all add: write_int64_def read_int64_def appends_word decodes_word)

interpretation float: io_codec write_float read_float "\<lambda>order. order_bytes order 4" "\<lambda>v. v" "\<lambda>_. True"
  by unfold_locales (simp_all add: write_float_def read_float_def appends_unless appends_int32 decodes_word)

interpretation double: io_codec write_double read_double "\<lambda>order. order_bytes order 8" "\<lambda>v. v" "\<lambda>_. True"
  by unfold_locales (simp_all add: write_double_def read_double_def appends_unless int64.appends_put decodes_word)

interpretation bool8: io_codec write_bool read_bool "\<lambda>_ b. [of_bool b]" "\<lambda>v. v" "\<lambda>_. True"
proof unfold_locales
  fix order v
  show "appends order (write_bool v) [of_bool v]"
    by (simp add: write_bool_def appends_unless u8.appends_put)
  show "decodes order read_bool [of_bool v] v"
    using decodes_map [OF decodes_u8 [of order "of_bool v"], of "\<lambda>b. b \<noteq> 0"] by (simp add: read_bool_def)
qed

interpretation char16: io_codec write_char16 read_char16 "\<lambda>order. order_bytes order 2" "\<lambda>v. v" "\<lambda>_. True"
  by unfold_locales (simp_all add: write_char16_def read_char16_def int16.appends_put int16.decodes_fetch)

lemma ucast_scast_byte: "ucast (scast (v :: i8) :: i16) = v"
  by (rule bit_word_eqI) (auto simp: bit_simps)

interpretation char8: io_codec write_char read_char "\<lambda>order v. order_bytes order 2 (scast v :: i16)"
  "\<lambda>v. v" "\<lambda>_. True"
proof unfold_locales
  fix order and v :: i8
  show "appends order (write_char v) (order_bytes order 2 (scast v :: i16))"
    by (simp add: write_char_def int16.appends_put)
  show "decodes order read_char (order_bytes order 2 (scast v :: i16)) v"
    using decodes_map [OF char16.decodes_fetch [OF TrueI, where v = "scast v" and order = order], of "ucast :: i16 \<Rightarrow> i8"]
    by (simp add: read_char_def ucast_scast_byte)
qed

fun uuid_bytes :: "byte_order \<Rightarrow> uuid \<Rightarrow> byte list" where
  "uuid_bytes Big_Endian u = uuid_data u"
| "uuid_bytes Little_Endian u = reverse_halves (uuid_data u)"

lemma uuid_of_uuid_data: "uuid_of_data (uuid_data u) = u"
  by (cases u) (simp add: uuid_of_data_def uuid_data_def)

lemma reverse_halves_twice: "length bs = 16 \<Longrightarrow> reverse_halves (reverse_halves bs) = bs"
  by (simp add: reverse_halves_def)

lemma length_uuid_data: "length (uuid_data u) = 16" "length (reverse_halves (uuid_data u)) = 16"
  by (simp_all add: uuid_data_def reverse_halves_def)

interpretation uuid16: io_codec write_uuid read_uuid uuid_bytes "\<lambda>v. v" "\<lambda>_. True"
proof unfold_locales
  fix order u
  show "appends order (write_uuid u) (uuid_bytes order u)"
    unfolding write_uuid_def
    by (intro appends_unless appends_order [OF _ appends_append], cases order) (simp_all add: out_at_def)
  show "decodes order read_uuid (uuid_bytes order u) u"
    unfolding decodes_def
  proof (intro allI impI)
    fix xs ys
    let ?b = "xs @ uuid_bytes order u @ ys"
    have l: "length (uuid_bytes order u) = 16"
      by (cases order) (simp_all add: length_uuid_data)
    assume "length xs + length (uuid_bytes order u) + length ys < 2 ^ 31"
    then have b: "length xs + 16 \<le> length ?b" "length ?b < 2 ^ 31" and s: "length xs + 16 < 2 ^ 31"
      by (simp_all add: l)
    have "uuid_of_data (if order = Little_Endian then reverse_halves (uuid_bytes order u)
        else uuid_bytes order u) = u"
      by (cases order) (simp_all add: uuid_of_uuid_data reverse_halves_twice length_uuid_data)
    moreover have "di_byte_order (in_at order ?b p) = order" for p
      by (simp add: in_at_def)
    ultimately show "read_uuid (in_at order ?b (length xs)) =
        Inr (u, in_at order ?b (length xs + length (uuid_bytes order u)))"
      using in_defs(1) [OF b, of order] in_defs(4) [OF b, of order] advance_int_in [OF s, of order ?b]
      by (simp add: read_uuid_def slice_mid l)
  qed
qed


lemma decodes_small:
  assumes "length bs < 2 ^ 31 \<Longrightarrow> decodes order r bs v"
  shows "decodes order r bs v"
proof (cases "length bs < 2 ^ 31")
  case True
  then show ?thesis by (rule assms)
next
  case False
  then show ?thesis by (simp add: decodes_def)
qed

lemma of_nat_not_null: "n < 2 ^ 31 \<Longrightarrow> of_nat n \<noteq> NULL_ARRAY"
  using sint_of_nat [of n] by (auto simp: NULL_ARRAY_def)

lemma of_nat_zero_iff: "n < 2 ^ 31 \<Longrightarrow> (of_nat n :: i32) = 0 \<longleftrightarrow> n = 0"
  using sint_of_nat [of n] by auto

lemma unat_of_nat_small: "n < 2 ^ 31 \<Longrightarrow> unat (of_nat n :: i32) = n"
  by (simp add: unsigned_of_nat take_bit_nat_eq_self)

definition string_bytes :: "byte_order \<Rightarrow> hz_string \<Rightarrow> byte list" where
  "string_bytes order str = order_bytes order 4 (of_nat (length str) :: i32) @ str"

interpretation str: io_codec write_string read_string string_bytes "\<lambda>v. v" "\<lambda>_. True"
proof unfold_locales
  fix order v
  show "appends order (write_string v) (string_bytes order v)"
    unfolding write_string_def string_bytes_def
    by (intro appends_unless appends_then appends_int32 appends_append)
  show "decodes order read_string (string_bytes order v) v"
  proof (rule decodes_small)
    assume "length (string_bytes order v) < 2 ^ 31"
    then have l: "length v < 2 ^ 31"
      by (simp add: string_bytes_def)
    show "decodes order read_string (string_bytes order v) v"
      unfolding read_string_def string_bytes_def
      by (rule decodes_bind [OF int32.decodes_fetch [OF TrueI]])
        (use l of_nat_not_null [OF l] decodes_chars in simp)
  qed
qed

fun nullable_string_bytes :: "byte_order \<Rightarrow> hz_string option \<Rightarrow> byte list" where
  "nullable_string_bytes order None = order_bytes order 4 NULL_ARRAY"
| "nullable_string_bytes order (Some str) = string_bytes order str"

interpretation nullable_str: io_codec write_nullable_string read_nullable_string nullable_string_bytes
  "\<lambda>v. v" "\<lambda>_. True"
proof unfold_locales
  fix order v
  show "appends order (write_nullable_string v) (nullable_string_bytes order v)"
    unfolding write_nullable_string_def
    by (cases v) (simp_all add: appends_unless appends_int32 str.appends_put)
  show "decodes order read_nullable_string (nullable_string_bytes order v) v"
  proof (rule decodes_small)
    assume l: "length (nullable_string_bytes order v) < 2 ^ 31"
    show "decodes order read_nullable_string (nullable_string_bytes order v) v"
    proof (cases v)
      case None
      have "decodes order read_nullable_string (order_bytes order 4 NULL_ARRAY @ []) None"
        unfolding read_nullable_string_def
        by (rule decodes_bind [OF int32.decodes_fetch [OF TrueI]])
          (use decodes_return in \<open>simp del: sreturn_apply\<close>)
      then show ?thesis
        by (simp add: None)
    next
      case (Some str)
      have "length str < 2 ^ 31"
        using l by (simp add: Some string_bytes_def)
      then have "decodes order read_nullable_string (string_bytes order str) (Some str)"
        unfolding read_nullable_string_def string_bytes_def
        by (intro decodes_bind [OF int32.decodes_fetch [OF TrueI]])
          (simp add: of_nat_not_null decodes_map [OF decodes_chars])
      then show ?thesis
        by (simp add: Some)
    qed
  qed
qed

subsection \<open>Vectors\<close>

text \<open>A vector without elements is written as a length of zero and read back as no vector.\<close>

definition vector_view :: "('a \<Rightarrow> 'b) \<Rightarrow> 'a list \<Rightarrow> 'b list option" where
  "vector_view view vs = (if vs = [] then None else Some (map view vs))"

definition vector_bytes :: "(byte_order \<Rightarrow> 'a \<Rightarrow> byte list) \<Rightarrow> byte_order \<Rightarrow> 'a list \<Rightarrow> byte list" where
  "vector_bytes enc order vs =
    order_bytes order 4 (of_nat (length vs) :: i32) @ concat (map (enc order) vs)"

definition vec_ok :: "('a \<Rightarrow> bool) \<Rightarrow> 'a list \<Rightarrow> bool" where
  "vec_ok ok vs \<longleftrightarrow> length vs < 2 ^ 31 \<and> list_all ok vs"

lemma appends_vector_of:
  assumes l: "length vs < 2 ^ 31" and items: "appends order (siter put vs) bs" "vs = [] \<Longrightarrow> bs = []"
  shows "appends order (write_vector put vs) (order_bytes order 4 (of_nat (length vs) :: i32) @ bs)"
proof -
  have "appends order (if 0 < sint (of_nat (length vs) :: i32) then siter put vs else sreturn ()) bs"
  proof (cases "vs = []")
    case True
    then show ?thesis using appends_nil items(2) by (simp del: sreturn_apply)
  next
    case False
    then show ?thesis
      using items(1) sint_of_nat [OF l] by simp
  qed
  then show ?thesis
    unfolding write_vector_def Let_def
    by (intro appends_unless appends_then appends_int32)
qed

lemma decodes_vector_of:
  assumes l: "length vs < 2 ^ 31" and items: "decodes order (srepeat (length vs) fetch) bs us" "vs = [] \<Longrightarrow> bs = []"
  shows "decodes order (read_vector fetch) (order_bytes order 4 (of_nat (length vs) :: i32) @ bs)
    (if vs = [] then None else Some us)"
  unfolding read_vector_def
proof (rule decodes_bind [OF int32.decodes_fetch [OF TrueI]], cases "vs = []")
  case True
  then show "decodes order (if of_nat (length vs) = NULL_ARRAY then sreturn None
      else if of_nat (length vs) = (0 :: i32) then sreturn None
      else if sint (of_nat (length vs) :: i32) < 0 then sfail HazelcastSerialization
      else sbind (srepeat (unat (of_nat (length vs) :: i32)) fetch) (\<lambda>vs. sreturn (Some vs)))
    bs (if vs = [] then None else Some us)"
    using decodes_return items(2) by (simp del: sreturn_apply)
next
  case False
  then have z: "(of_nat (length vs) :: i32) \<noteq> 0"
    using of_nat_zero_iff [OF l] by simp
  show "decodes order (if of_nat (length vs) = NULL_ARRAY then sreturn None
      else if of_nat (length vs) = (0 :: i32) then sreturn None
      else if sint (of_nat (length vs) :: i32) < 0 then sfail HazelcastSerialization
      else sbind (srepeat (unat (of_nat (length vs) :: i32)) fetch) (\<lambda>vs. sreturn (Some vs)))
    bs (if vs = [] then None else Some us)"
    using False z decodes_map [OF items(1)]
    by (simp add: of_nat_not_null [OF l] sint_of_nat [OF l] unat_of_nat_small [OF l])
qed

context io_codec
begin

lemma appends_vector:
  assumes "vec_ok ok vs"
  shows "appends order (write_vector put vs) (vector_bytes enc order vs)"
  using assms appends_items unfolding vec_ok_def vector_bytes_def by (intro appends_vector_of) auto

lemma decodes_vector:
  assumes "vec_ok ok vs"
  shows "decodes order (read_vector fetch) (vector_bytes enc order vs) (vector_view view vs)"
  using assms decodes_items unfolding vec_ok_def vector_bytes_def vector_view_def
  by (intro decodes_vector_of) auto

end

subsection \<open>Dates and times\<close>

definition local_time_bytes :: "byte_order \<Rightarrow> local_time \<Rightarrow> byte list" where
  "local_time_bytes order t =
    [time_hour t] @ [time_minute t] @ [time_second t] @ order_bytes order 4 (time_nano t)"

definition local_date_bytes :: "byte_order \<Rightarrow> local_date \<Rightarrow> byte list" where
  "local_date_bytes order d = order_bytes order 4 (date_year d) @ [date_month d] @ [date_day d]"

definition local_date_time_bytes :: "byte_order \<Rightarrow> local_date \<times> local_time \<Rightarrow> byte list" where
  "local_date_time_bytes order v = local_date_bytes order (fst v) @ local_time_bytes order (snd v)"

definition offset_date_time_bytes :: "byte_order \<Rightarrow> (local_date \<times> local_time) \<times> i32 \<Rightarrow> byte list" where
  "offset_date_time_bytes order v = local_date_time_bytes order (fst v) @ order_bytes order 4 (snd v)"

lemma appends_last: "appends order f bs \<Longrightarrow> appends order (sthen f (sreturn ())) bs"
  using appends_then [OF _ appends_nil] by fastforce

lemmas io_appends = u8.appends_put [OF TrueI] appends_int32 appends_then appends_last

lemmas io_binds = decodes_bind [OF u8.decodes_fetch [OF TrueI]] decodes_bind [OF int32.decodes_fetch [OF TrueI]]
  decodes_map [OF u8.decodes_fetch [OF TrueI]] decodes_map [OF int32.decodes_fetch [OF TrueI]]

interpretation local_time: io_codec write_local_time read_local_time local_time_bytes "\<lambda>v. v" "\<lambda>_. True"
proof unfold_locales
  fix order and v :: local_time
  show "appends order (write_local_time v) (local_time_bytes order v)"
    unfolding write_local_time_def local_time_bytes_def sseq.simps by (intro io_appends)
  have "decodes order read_local_time (local_time_bytes order v)
      \<lparr>time_hour = time_hour v, time_minute = time_minute v, time_second = time_second v,
       time_nano = time_nano v\<rparr>"
    unfolding read_local_time_def local_time_bytes_def
    by (intro decodes_bind [OF u8.decodes_fetch [OF TrueI]] decodes_map [OF int32.decodes_fetch [OF TrueI]])
  then show "decodes order read_local_time (local_time_bytes order v) v"
    by (cases v) simp
qed

interpretation local_date: io_codec write_local_date read_local_date local_date_bytes "\<lambda>v. v" "\<lambda>_. True"
proof unfold_locales
  fix order and v :: local_date
  show "appends order (write_local_date v) (local_date_bytes order v)"
    unfolding write_local_date_def local_date_bytes_def sseq.simps by (intro io_appends)
  have "decodes order read_local_date (local_date_bytes order v)
      \<lparr>date_year = date_year v, date_month = date_month v, date_day = date_day v\<rparr>"
    unfolding read_local_date_def local_date_bytes_def
    by (intro decodes_bind [OF int32.decodes_fetch [OF TrueI]] decodes_bind [OF u8.decodes_fetch [OF TrueI]]
        decodes_map [OF u8.decodes_fetch [OF TrueI]])
  then show "decodes order read_local_date (local_date_bytes order v) v"
    by (cases v) simp
qed

interpretation local_date_time: io_codec write_local_date_time read_local_date_time local_date_time_bytes
  "\<lambda>v. v" "\<lambda>_. True"
proof unfold_locales
  fix order and v :: "local_date \<times> local_time"
  show "appends order (write_local_date_time v) (local_date_time_bytes order v)"
    unfolding write_local_date_time_def local_date_time_bytes_def
    by (intro appends_then local_date.appends_put local_time.appends_put TrueI)
  have "decodes order read_local_date_time (local_date_time_bytes order v) (fst v, snd v)"
    unfolding read_local_date_time_def local_date_time_bytes_def
    by (intro decodes_bind [OF local_date.decodes_fetch [OF TrueI]]
        decodes_map [OF local_time.decodes_fetch [OF TrueI]])
  then show "decodes order read_local_date_time (local_date_time_bytes order v) v"
    by simp
qed

interpretation offset_date_time: io_codec write_offset_date_time read_offset_date_time
  offset_date_time_bytes "\<lambda>v. v" "\<lambda>_. True"
proof unfold_locales
  fix order and v :: "(local_date \<times> local_time) \<times> i32"
  show "appends order (write_offset_date_time v) (offset_date_time_bytes order v)"
    unfolding write_offset_date_time_def offset_date_time_bytes_def
    by (intro appends_then local_date_time.appends_put appends_int32 TrueI)
  have "decodes order read_offset_date_time (offset_date_time_bytes order v) (fst v, snd v)"
    unfolding read_offset_date_time_def offset_date_time_bytes_def
    by (intro decodes_bind [OF local_date_time.decodes_fetch [OF TrueI]]
        decodes_map [OF int32.decodes_fetch [OF TrueI]])
  then show "decodes order read_offset_date_time (offset_date_time_bytes order v) v"
    by simp
qed

section \<open>A stream of values\<close>

text \<open>The values a serializer may write, the operation that writes each and the operation that reads
  a value of each type.\<close>

datatype scalar_type = T_byte | T_char | T_char16 | T_bool | T_int8 | T_int16 | T_int32 | T_int64
  | T_float | T_double | T_uuid | T_string

datatype scalar = V_byte byte | V_char i8 | V_char16 i16 | V_bool bool | V_int8 i8 | V_int16 i16
  | V_int32 i32 | V_int64 i64 | V_float i32 | V_double i64 | V_uuid uuid | V_string hz_string

fun scalar_type_of :: "scalar \<Rightarrow> scalar_type" where
  "scalar_type_of (V_byte _) = T_byte"
| "scalar_type_of (V_char _) = T_char"
| "scalar_type_of (V_char16 _) = T_char16"
| "scalar_type_of (V_bool _) = T_bool"
| "scalar_type_of (V_int8 _) = T_int8"
| "scalar_type_of (V_int16 _) = T_int16"
| "scalar_type_of (V_int32 _) = T_int32"
| "scalar_type_of (V_int64 _) = T_int64"
| "scalar_type_of (V_float _) = T_float"
| "scalar_type_of (V_double _) = T_double"
| "scalar_type_of (V_uuid _) = T_uuid"
| "scalar_type_of (V_string _) = T_string"

fun write_scalar :: "scalar \<Rightarrow> unit dout" where
  "write_scalar (V_byte v) = write_u8 v"
| "write_scalar (V_char v) = write_char v"
| "write_scalar (V_char16 v) = write_char16 v"
| "write_scalar (V_bool v) = write_bool v"
| "write_scalar (V_int8 v) = write_int8 v"
| "write_scalar (V_int16 v) = write_int16 v"
| "write_scalar (V_int32 v) = write_int32 v"
| "write_scalar (V_int64 v) = write_int64 v"
| "write_scalar (V_float v) = write_float v"
| "write_scalar (V_double v) = write_double v"
| "write_scalar (V_uuid v) = write_uuid v"
| "write_scalar (V_string v) = write_string v"

fun read_scalar :: "scalar_type \<Rightarrow> scalar din" where
  "read_scalar T_byte = sbind read_u8 (\<lambda>v. sreturn (V_byte v))"
| "read_scalar T_char = sbind read_char (\<lambda>v. sreturn (V_char v))"
| "read_scalar T_char16 = sbind read_char16 (\<lambda>v. sreturn (V_char16 v))"
| "read_scalar T_bool = sbind read_bool (\<lambda>v. sreturn (V_bool v))"
| "read_scalar T_int8 = sbind read_int8 (\<lambda>v. sreturn (V_int8 v))"
| "read_scalar T_int16 = sbind read_int16 (\<lambda>v. sreturn (V_int16 v))"
| "read_scalar T_int32 = sbind read_int32 (\<lambda>v. sreturn (V_int32 v))"
| "read_scalar T_int64 = sbind read_int64 (\<lambda>v. sreturn (V_int64 v))"
| "read_scalar T_float = sbind read_float (\<lambda>v. sreturn (V_float v))"
| "read_scalar T_double = sbind read_double (\<lambda>v. sreturn (V_double v))"
| "read_scalar T_uuid = sbind read_uuid (\<lambda>v. sreturn (V_uuid v))"
| "read_scalar T_string = sbind read_string (\<lambda>v. sreturn (V_string v))"

fun scalar_bytes :: "byte_order \<Rightarrow> scalar \<Rightarrow> byte list" where
  "scalar_bytes order (V_byte v) = [v]"
| "scalar_bytes order (V_char v) = order_bytes order 2 (scast v :: i16)"
| "scalar_bytes order (V_char16 v) = order_bytes order 2 v"
| "scalar_bytes order (V_bool v) = [of_bool v]"
| "scalar_bytes order (V_int8 v) = [v]"
| "scalar_bytes order (V_int16 v) = order_bytes order 2 v"
| "scalar_bytes order (V_int32 v) = order_bytes order 4 v"
| "scalar_bytes order (V_int64 v) = order_bytes order 8 v"
| "scalar_bytes order (V_float v) = order_bytes order 4 v"
| "scalar_bytes order (V_double v) = order_bytes order 8 v"
| "scalar_bytes order (V_uuid v) = uuid_bytes order v"
| "scalar_bytes order (V_string v) = string_bytes order v"

lemma appends_scalar: "appends order (write_scalar v) (scalar_bytes order v)"
  by (cases v) (simp_all add: u8.appends_put char8.appends_put char16.appends_put bool8.appends_put
      int8.appends_put int16.appends_put int32.appends_put int64.appends_put float.appends_put
      double.appends_put uuid16.appends_put str.appends_put)

lemma decodes_scalar: "decodes order (read_scalar (scalar_type_of v)) (scalar_bytes order v) v"
  by (cases v) (simp_all add: decodes_map u8.decodes_fetch char8.decodes_fetch char16.decodes_fetch
      bool8.decodes_fetch int8.decodes_fetch int16.decodes_fetch int32.decodes_fetch
      int64.decodes_fetch float.decodes_fetch double.decodes_fetch uuid16.decodes_fetch str.decodes_fetch)

interpretation scalars: io_codec write_scalar "read_scalar t" scalar_bytes "\<lambda>v. v"
  "\<lambda>v. scalar_type_of v = t"
  by unfold_locales (use appends_scalar decodes_scalar in auto)

text \<open>Vectors exist for these element types.\<close>

definition vector_item :: "scalar_type \<Rightarrow> bool" where
  "vector_item t \<longleftrightarrow> t \<noteq> T_char16 \<and> t \<noteq> T_uuid"

datatype io_type = T_scalar scalar_type | T_nullable_string | T_vector scalar_type

datatype io_value = V_scalar scalar | V_nullable_string "hz_string option"
  | V_vector scalar_type "scalar list option"

fun io_type_of :: "io_value \<Rightarrow> io_type" where
  "io_type_of (V_scalar v) = T_scalar (scalar_type_of v)"
| "io_type_of (V_nullable_string _) = T_nullable_string"
| "io_type_of (V_vector t _) = T_vector t"

fun write_value :: "io_value \<Rightarrow> unit dout" where
  "write_value (V_scalar v) = write_scalar v"
| "write_value (V_nullable_string v) = write_nullable_string v"
| "write_value (V_vector t vs) = write_nullable_vector write_scalar vs"

fun read_value :: "io_type \<Rightarrow> io_value din" where
  "read_value (T_scalar t) = sbind (read_scalar t) (\<lambda>v. sreturn (V_scalar v))"
| "read_value T_nullable_string = sbind read_nullable_string (\<lambda>v. sreturn (V_nullable_string v))"
| "read_value (T_vector t) = sbind (read_vector (read_scalar t)) (\<lambda>vs. sreturn (V_vector t vs))"

fun write_values :: "io_value list \<Rightarrow> unit dout" where
  "write_values vs = siter write_value vs"

fun read_values :: "io_type list \<Rightarrow> io_value list din" where
  "read_values [] = sreturn []"
| "read_values (t # ts) = sbind (read_value t) (\<lambda>v. sbind (read_values ts) (\<lambda>vs. sreturn (v # vs)))"

fun well_typed :: "io_value \<Rightarrow> bool" where
  "well_typed (V_vector t (Some vs)) \<longleftrightarrow> vector_item t \<and> vec_ok (\<lambda>v. scalar_type_of v = t) vs"
| "well_typed _ \<longleftrightarrow> True"

fun read_view :: "io_value \<Rightarrow> io_value" where
  "read_view (V_vector t (Some [])) = V_vector t None"
| "read_view v = v"

fun value_bytes :: "byte_order \<Rightarrow> io_value \<Rightarrow> byte list" where
  "value_bytes order (V_scalar v) = scalar_bytes order v"
| "value_bytes order (V_nullable_string v) = nullable_string_bytes order v"
| "value_bytes order (V_vector t None) = order_bytes order 4 NULL_ARRAY"
| "value_bytes order (V_vector t (Some vs)) = vector_bytes scalar_bytes order vs"

lemma appends_value: "well_typed v \<Longrightarrow> appends order (write_value v) (value_bytes order v)"
proof (cases "(order, v)" rule: value_bytes.cases)
  case (4 order' t vs)
  assume "well_typed v"
  then show ?thesis
    using 4 appends_unless [OF scalars.appends_vector, of t vs]
    by (simp add: write_nullable_vector_def)
qed (simp_all add: appends_scalar nullable_str.appends_put write_nullable_vector_def appends_unless
      appends_int32)

lemma decodes_null_vector: "decodes order (read_vector r) (order_bytes order 4 NULL_ARRAY) None"
proof -
  have "decodes order (read_vector r) (order_bytes order 4 NULL_ARRAY @ []) None"
    unfolding read_vector_def
    by (rule decodes_bind [OF int32.decodes_fetch [OF TrueI]])
      (use decodes_return in \<open>simp del: sreturn_apply\<close>)
  then show ?thesis by simp
qed

lemma decodes_value:
  "well_typed v \<Longrightarrow> decodes order (read_value (io_type_of v)) (value_bytes order v) (read_view v)"
proof (cases "(order, v)" rule: value_bytes.cases)
  case (4 order' t vs)
  assume "well_typed v"
  then have "decodes order (read_vector (read_scalar t)) (vector_bytes scalar_bytes order vs)
      (vector_view (\<lambda>v. v) vs)"
    using 4 by (intro scalars.decodes_vector) simp
  from decodes_map [OF this, of "V_vector t"] show ?thesis
    using 4 by (cases vs) (simp_all add: vector_view_def)
qed (simp_all add: decodes_map decodes_scalar nullable_str.decodes_fetch decodes_null_vector)

lemma decodes_values:
  "list_all well_typed vs \<Longrightarrow>
    decodes order (read_values (map io_type_of vs)) (concat (map (value_bytes order) vs)) (map read_view vs)"
proof (induction vs)
  case Nil
  then show ?case using decodes_return by (simp del: sreturn_apply)
next
  case (Cons v vs)
  then have "decodes order (sbind (read_values (map io_type_of vs)) (\<lambda>us. sreturn (read_view v # us)))
      (concat (map (value_bytes order) vs)) (read_view v # map read_view vs)"
    by (intro decodes_map) simp
  then show ?case
    using Cons.prems by (auto intro: decodes_bind [OF decodes_value])
qed

text \<open>
  C31. What a sequence of writes puts into an output is read back by the corresponding reads, in either
  byte order and with nothing left over: bytes, characters, truth values, integers, floating-point
  numbers, uuids, strings, strings that may be absent and vectors.  The one value that changes is the
  vector without elements, which is read back as an absent vector.
\<close>

theorem data_stream_roundtrip:
  assumes "list_all well_typed vs" "length (concat (map (value_bytes order) vs)) < 2 ^ 31"
  shows "\<exists>bs. write_values vs (make_data_output order False) =
      Inr ((), \<lparr>do_byte_order = order, is_no_write = False, output_stream = bs\<rparr>) \<and>
    read_values (map io_type_of vs) (make_data_input order bs 0) =
      Inr (map read_view vs, make_data_input order bs (of_nat (length bs)))"
proof -
  let ?bs = "concat (map (value_bytes order) vs)"
  have "appends order (write_values vs) ?bs"
    using assms(1) unfolding write_values.simps
    by (intro appends_iter appends_value) (simp add: list_all_iff)
  from appendsD [OF this, of "[]"] decodesD [OF decodes_values [OF assms(1)], of "[]" order "[]"] assms(2)
  show ?thesis
    by (intro exI [of _ ?bs])
      (simp add: out_at_def in_at_def make_data_output_def make_data_input_def)
qed

theorem data_stream_roundtrip_witness:
  "\<exists>bs. write_values [V_scalar (V_char 0xfe), V_vector T_int16 (Some [V_int16 1, V_int16 2]),
      V_vector T_string (Some []), V_nullable_string None] (make_data_output Little_Endian False) =
      Inr ((), \<lparr>do_byte_order = Little_Endian, is_no_write = False, output_stream = bs\<rparr>) \<and>
    read_values (map io_type_of [V_scalar (V_char 0xfe), V_vector T_int16 (Some [V_int16 1, V_int16 2]),
      V_vector T_string (Some []), V_nullable_string None]) (make_data_input Little_Endian bs 0) =
      Inr ([V_scalar (V_char 0xfe), V_vector T_int16 (Some [V_int16 1, V_int16 2]),
        V_vector T_string None, V_nullable_string None], make_data_input Little_Endian bs (of_nat (length bs)))"
  using data_stream_roundtrip [of "[V_scalar (V_char 0xfe), V_vector T_int16 (Some [V_int16 1, V_int16 2]),
      V_vector T_string (Some []), V_nullable_string None]" Little_Endian]
  by (simp add: vec_ok_def vector_item_def vector_bytes_def)

section \<open>Reading stays inside the buffer\<close>

definition in_bounds :: "data_input \<Rightarrow> bool" where
  "in_bounds inp \<longleftrightarrow> length (di_buffer inp) < 2 ^ 31 \<and> 0 \<le> sint (di_pos inp) \<and>
    unat (di_pos inp) \<le> length (di_buffer inp)"

definition moved :: "data_input \<Rightarrow> data_input \<Rightarrow> bool" where
  "moved inp inp' \<longleftrightarrow> in_bounds inp' \<and> di_buffer inp' = di_buffer inp \<and>
    di_byte_order inp' = di_byte_order inp \<and> unat (di_pos inp) \<le> unat (di_pos inp')"

definition safe :: "'a din \<Rightarrow> bool" where
  "safe r \<longleftrightarrow> (\<forall>inp. in_bounds inp \<longrightarrow> (case r inp of
      Inl e \<Rightarrow> e = IO \<or> e = HazelcastSerialization
    | Inr (v, inp') \<Rightarrow> moved inp inp'))"

lemma in_bounds_at: "in_bounds (in_at order buf p)" if "p \<le> length buf" "length buf < 2 ^ 31"
  using that sint_of_nat [of p] unat_of_nat_small [of p] by (simp add: in_bounds_def in_at_def)

lemma in_bounds_cases:
  assumes "in_bounds inp"
  obtains order buf p where "inp = in_at order buf p" "p \<le> length buf" "length buf < 2 ^ 31"
proof -
  have "inp = in_at (di_byte_order inp) (di_buffer inp) (unat (di_pos inp))"
    by (simp add: in_at_def)
  then show ?thesis
    using assms that unfolding in_bounds_def by blast
qed

lemma moved_at:
  "p \<le> q \<Longrightarrow> q \<le> length buf \<Longrightarrow> length buf < 2 ^ 31 \<Longrightarrow> moved (in_at order buf p) (in_at order buf q)"
  using in_bounds_at [of q buf order] unat_of_nat_small [of p] unat_of_nat_small [of q]
  by (simp add: moved_def) (simp add: in_at_def)

lemma safeI:
  assumes "\<And>order buf p. p \<le> length buf \<Longrightarrow> length buf < 2 ^ 31 \<Longrightarrow>
    r (in_at order buf p) = Inl IO \<or> (\<exists>v n. p + n \<le> length buf \<and> r (in_at order buf p) = Inr (v, in_at order buf (p + n)))"
  shows "safe r"
  unfolding safe_def
proof (intro allI impI)
  fix inp
  assume "in_bounds inp"
  then obtain order buf p where "inp = in_at order buf p" "p \<le> length buf" "length buf < 2 ^ 31"
    by (rule in_bounds_cases)
  with assms [of p buf order] show "case r inp of Inl e \<Rightarrow> e = IO \<or> e = HazelcastSerialization
      | Inr (v, inp') \<Rightarrow> moved inp inp'"
    by (auto intro!: moved_at)
qed

lemma safe_return: "safe (sreturn v)"
  by (auto simp: safe_def moved_def)

lemma safe_fail: "e = IO \<or> e = HazelcastSerialization \<Longrightarrow> safe (sfail e)"
  by (simp add: safe_def)

lemma moved_trans: "moved a b \<Longrightarrow> moved b c \<Longrightarrow> moved a c"
  by (auto simp: moved_def)

lemma moved_bounds: "moved a b \<Longrightarrow> in_bounds b"
  by (simp add: moved_def)

lemma safe_bind:
  assumes "safe r" "\<And>v. safe (k v)"
  shows "safe (sbind r k)"
  unfolding safe_def
proof (intro allI impI)
  fix inp
  assume b: "in_bounds inp"
  show "case sbind r k inp of Inl e \<Rightarrow> e = IO \<or> e = HazelcastSerialization
      | Inr (v, inp') \<Rightarrow> moved inp inp'"
  proof (cases "r inp")
    case (Inl e)
    then show ?thesis using assms(1) b by (auto simp: safe_def)
  next
    case (Inr x)
    obtain v inp1 where x: "x = (v, inp1)" by (cases x)
    have m: "moved inp inp1"
      using assms(1) b Inr x by (auto simp: safe_def)
    have "case k v inp1 of Inl e \<Rightarrow> e = IO \<or> e = HazelcastSerialization
        | Inr (v, inp') \<Rightarrow> moved inp1 inp'"
      using assms(2) [of v] moved_bounds [OF m] by (simp add: safe_def)
    then show ?thesis
      using Inr x moved_trans [OF m] by (auto split: sum.splits)
  qed
qed

lemma safe_repeat: "safe r \<Longrightarrow> safe (srepeat n r)"
  by (induction n) (simp_all add: safe_return safe_bind del: sreturn_apply)

lemma check_available_short:
  assumes "p \<le> length buf" "length buf < 2 ^ 31" "length buf < p + n"
  shows "check_available_at (of_nat p) n (in_at order buf q) = Inl IO"
    and "check_available n (in_at order buf p) = Inl IO"
proof -
  have u: "usize_sub (length buf) p = length buf - p" "i32_to_usize (of_nat p) = p"
    using assms by (simp_all add: usize_sub_le usize_max_def)
  then show "check_available_at (of_nat p) n (in_at order buf q) = Inl IO"
    using assms by (simp add: check_available_at_def in_at_def)
  show "check_available n (in_at order buf p) = Inl IO"
    using assms u by (simp add: check_available_def check_available_at_def in_at_def)
qed

lemma safe_chars: "safe (read_chars n)"
proof (rule safeI)
  fix order and buf :: "byte list" and p
  assume p: "p \<le> length buf" "length buf < 2 ^ 31"
  show "read_chars n (in_at order buf p) = Inl IO \<or>
    (\<exists>v m. p + m \<le> length buf \<and> read_chars n (in_at order buf p) = Inr (v, in_at order buf (p + m)))"
  proof (cases "p + n \<le> length buf")
    case True
    have "p + n < 2 ^ 31" using True p by simp
    then show ?thesis
      using True in_defs(1,4) [OF True p(2), of order] advance_int_in [of p n order buf]
      by (auto simp: read_chars_def)
  next
    case False
    then show ?thesis
      using check_available_short(2) [OF p, of n order] by (simp add: read_chars_def)
  qed
qed

lemma read_u8_chars: "read_u8 = sbind (read_chars 1) (\<lambda>bs. sreturn (hd bs))"
  by (simp add: read_u8_def read_chars_def fun_eq_iff sm_defs split: sum.splits)

lemma read_uuid_chars: "read_uuid = sbind (read_chars 16) (\<lambda>bs inp. Inr (uuid_of_data
    (if di_byte_order inp = Little_Endian then reverse_halves bs else bs), inp))"
  by (simp add: read_uuid_def read_chars_def fun_eq_iff sm_defs split: sum.splits)

lemma safe_word: "safe (read_word n :: 'a::len word din)"
proof (rule safeI)
  fix order and buf :: "byte list" and p
  assume p: "p \<le> length buf" "length buf < 2 ^ 31"
  let ?i = "in_at order buf p"
  have i: "di_pos ?i = of_nat p" "di_byte_order ?i = order"
    by (simp_all add: in_at_def)
  show "read_word n ?i = Inl IO \<or>
    (\<exists>(v :: 'a word) m. p + m \<le> length buf \<and> read_word n ?i = Inr (v, in_at order buf (p + m)))"
  proof (cases "p + n \<le> length buf")
    case True
    show ?thesis
      using True in_defs(2,3) [OF True p(2), of order p]
      by (auto simp: read_word_def read_word_at_def read_word_as_def advance_sizeof_in i)
  next
    case False
    then show ?thesis
      using check_available_short(1) [OF p, of n order p]
      by (simp add: read_word_def read_word_at_def read_word_as_def i)
  qed
qed

lemma safe_int8: "safe read_int8"
proof (rule safeI)
  fix order and buf :: "byte list" and p
  assume p: "p \<le> length buf" "length buf < 2 ^ 31"
  let ?i = "in_at order buf p"
  have i: "di_pos ?i = of_nat p"
    by (simp add: in_at_def)
  show "read_int8 ?i = Inl IO \<or>
    (\<exists>v m. p + m \<le> length buf \<and> read_int8 ?i = Inr (v, in_at order buf (p + m)))"
  proof (cases "p + 1 \<le> length buf")
    case True
    show ?thesis
      using True in_defs(2,3) [OF True p(2), of order p]
      by (auto simp: read_int8_def read_u8_at_def advance_sizeof_in i intro!: exI [of _ "1 :: nat"])
  next
    case False
    then show ?thesis
      using check_available_short(1) [OF p, of 1 order p]
      by (simp add: read_int8_def read_u8_at_def i)
  qed
qed

lemma safe_state: "safe (\<lambda>inp. Inr (f inp, inp))"
  by (auto simp: safe_def moved_def)

lemmas safe_intros = safe_bind safe_return safe_chars safe_word safe_int8 safe_repeat safe_state

lemma safe_u8: "safe read_u8"
  unfolding read_u8_chars by (intro safe_intros)

lemma safe_int32: "safe read_int32"
  unfolding read_int32_def by (rule safe_word)

lemma safe_string: "safe read_string"
  unfolding read_string_def by (intro safe_bind safe_int32) (simp add: safe_fail safe_chars)

lemma safe_nullable_string: "safe read_nullable_string"
  unfolding read_nullable_string_def
  by (intro safe_bind safe_int32) (simp add: safe_return safe_bind safe_chars del: sreturn_apply)

lemma safe_vector: "safe r \<Longrightarrow> safe (read_vector r)"
  unfolding read_vector_def
  by (intro safe_bind safe_int32)
    (simp add: safe_return safe_bind safe_fail safe_repeat del: sreturn_apply sfail_apply)

lemma safe_scalar: "safe (read_scalar t)"
proof -
  have "safe read_bool" "safe read_char" "safe read_char16" "safe read_uuid"
    unfolding read_bool_def read_char_def read_char16_def read_int16_def read_uuid_chars
    by (intro safe_intros safe_u8)+
  then show ?thesis
    by (cases t) (simp_all add: safe_bind safe_return safe_u8 safe_int8 safe_word safe_string
        read_int16_def read_int32_def read_int64_def read_float_def read_double_def del: sreturn_apply)
qed

lemma safe_value: "safe (read_value t)"
  by (cases t) (simp_all add: safe_bind safe_return safe_scalar safe_nullable_string safe_vector
      del: sreturn_apply)

lemma safe_values: "safe (read_values ts)"
  by (induction ts) (simp_all add: safe_bind safe_return safe_value del: sreturn_apply)

text \<open>
  C32. Reading never leaves the buffer: from a position inside it, every sequence of reads, on whatever
  bytes the buffer holds, either stops with an I/O error, or a serialization error for a negative array
  size, or ends at a position inside the buffer that is not before the first.  The buffer itself does
  not change.
\<close>

theorem data_input_stays_in_bounds:
  assumes "length buf < 2 ^ 31" "0 \<le> sint pos" "unat pos \<le> length buf"
  shows "case read_values ts (make_data_input order buf pos) of
      Inl e \<Rightarrow> e = IO \<or> e = HazelcastSerialization
    | Inr (vs, inp) \<Rightarrow> di_buffer inp = buf \<and> di_byte_order inp = order \<and> 0 \<le> sint (di_pos inp) \<and>
        unat pos \<le> unat (di_pos inp) \<and> unat (di_pos inp) \<le> length buf"
proof -
  have "in_bounds (make_data_input order buf pos)"
    using assms by (simp add: in_bounds_def make_data_input_def)
  then have "case read_values ts (make_data_input order buf pos) of
      Inl e \<Rightarrow> e = IO \<or> e = HazelcastSerialization
    | Inr (vs, inp) \<Rightarrow> moved (make_data_input order buf pos) inp"
    using safe_values [of ts] by (simp add: safe_def)
  then show ?thesis
    by (auto simp: moved_def in_bounds_def make_data_input_def split: sum.splits)
qed

theorem data_input_stays_in_bounds_witness:
  "case read_values [T_vector T_string] (make_data_input Big_Endian [0, 0, 0, 9] 0) of
      Inl e \<Rightarrow> e = IO \<or> e = HazelcastSerialization
    | Inr (vs, inp) \<Rightarrow> di_buffer inp = [0, 0, 0, 9] \<and> di_byte_order inp = Big_Endian \<and>
        0 \<le> sint (di_pos inp) \<and> unat (0 :: i32) \<le> unat (di_pos inp) \<and> unat (di_pos inp) \<le> length [0, 0, 0, 9 :: byte]"
  using data_input_stays_in_bounds [where buf = "[0, 0, 0, 9]" and pos = 0
      and ts = "[T_vector T_string]" and order = Big_Endian] by simp

section \<open>Writing into the stream\<close>

lemma check_available_out_at:
  assumes "length s < 2 ^ 31" "index < 2 ^ 31" "n < 2 ^ 31"
  shows "check_available_out index (of_nat n) (out_at order s) =
    (if index + n \<le> length s then Inr ((), out_at order s)
     else if index \<le> length s \<or> 0 < n then Inl IllegalArgument else check_available_out index 0 (out_at order s))"
proof (cases "index \<le> length s")
  case True
  then have u: "usize_sub (length s) index = length s - index"
    using assms by (intro usize_sub_le) (simp_all add: usize_max_def)
  have "sint (of_nat (length s - index) :: i32) = int (length s - index)"
    using assms by (intro sint_of_nat) simp
  then show ?thesis
    using True assms sint_of_nat [of n] by (auto simp: check_available_out_def Let_def out_at_def u)
next
  case False
  define d where "d = index - length s"
  have d: "0 < d" "d < 2 ^ 31" "index = length s + d"
    using False assms by (simp_all add: d_def)
  have "usize_sub (length s) index = usize_max - d"
    using d usize_sub_wraps [of "length s" index] assms by (simp add: usize_max_def)
  moreover have "(of_nat (usize_max - d) :: i32) = - of_nat d"
    using d by (simp add: usize_max_def of_nat_diff)
  moreover have "sint (- (of_nat d :: i32)) = - int d"
    using d sint_word_of_int_id [of "- int d", where 'a = 32] by simp
  ultimately show ?thesis
    using False assms sint_of_nat [of n] d by (auto simp: check_available_out_def Let_def out_at_def)
qed



end
