(* ===== verification/Big_Decimal.thy ===== *)
theory Big_Decimal
  imports Data_IO
begin

text \<open>
  Arbitrary precision integers and decimals on the wire: \<open>twos_complement\<close>, \<open>from_bytes\<close> and
  \<open>to_bytes\<close> (\<open>client_impl.cpp\<close>) and the codecs of \<open>serialization_util\<close> (\<open>serialization.h\<close>).

  \<open>export_bits\<close> and \<open>import_bits\<close> of Boost.Multiprecision are fields of the record \<open>cpp_int_lib\<close> that
  every operation takes; \<open>lib_ok\<close> states what is documented of them: the bytes of the magnitude, the
  most significant first and without leading zeros, and the unsigned number that bytes denote.

  The conversion is exact except for negative numbers whose magnitude starts with the byte \<open>0xff\<close> and
  goes on with anything but zeros, which lose their sign.
\<close>

section \<open>Model\<close>

record cpp_int_lib =
  export_bits :: "int \<Rightarrow> byte list"
  import_bits :: "byte list \<Rightarrow> int"

text \<open>The loop that adds one, over the bytes from the last to the first.\<close>

fun add_one :: "byte list \<Rightarrow> byte list" where
  "add_one [] = []"
| "add_one (b # bs) = (let b' = b + 1 in if b' = 0 then b' # add_one bs else b' # bs)"

definition twos_complement :: "byte list \<Rightarrow> byte list" where
  "twos_complement a = rev (add_one (rev (map (\<lambda>item. NOT item) a)))"

text \<open>The first element of an empty vector is undefined.\<close>

definition from_bytes :: "cpp_int_lib \<Rightarrow> byte list \<Rightarrow> int res" where
  "from_bytes L v = (if v = [] then Inl UndefinedBehaviour
    else let is_negative = sint (hd v) < 0;
             v' = (if is_negative then twos_complement v else v);
             i = import_bits L v'
         in Inr (if is_negative then - i else i))"

definition to_bytes :: "cpp_int_lib \<Rightarrow> int \<Rightarrow> byte list res" where
  "to_bytes L i =
    (let v = export_bits L i in
     if v = [] then Inl UndefinedBehaviour
     else if i < 0
     then let v' = twos_complement v in Inr (if 0 < sint (hd v') then - 1 # v' else v')
     else Inr (if sint (hd v) < 0 then 0 # v else v))"

record big_decimal =
  unscaled :: int
  dec_scale :: i32

definition write_cpp_int :: "cpp_int_lib \<Rightarrow> int \<Rightarrow> unit dout" where
  "write_cpp_int L i = (\<lambda>out. case to_bytes L i of Inl e \<Rightarrow> Inl e | Inr v \<Rightarrow> write_vector write_int8 v out)"

text \<open>A vector of a negative size cannot be constructed.\<close>

definition read_cpp_int :: "cpp_int_lib \<Rightarrow> int din" where
  "read_cpp_int L = sbind read_int32 (\<lambda>sz. if sint sz < 0 then sfail LengthError
    else sbind (read_fully (unat sz)) (\<lambda>bs inp. case from_bytes L bs of Inl e \<Rightarrow> Inl e | Inr i \<Rightarrow> Inr (i, inp)))"

definition write_big_decimal :: "cpp_int_lib \<Rightarrow> big_decimal \<Rightarrow> unit dout" where
  "write_big_decimal L d = sthen (write_cpp_int L (unscaled d)) (write_int32 (dec_scale d))"

definition read_big_decimal :: "cpp_int_lib \<Rightarrow> big_decimal din" where
  "read_big_decimal L = sbind (read_cpp_int L) (\<lambda>i. sbind read_int32 (\<lambda>s.
    sreturn \<lparr>unscaled = i, dec_scale = s\<rparr>))"

section \<open>The library\<close>

fun be_value :: "byte list \<Rightarrow> nat" where
  "be_value [] = 0"
| "be_value (b # bs) = unat b * 256 ^ length bs + be_value bs"

definition lib_ok :: "cpp_int_lib \<Rightarrow> bool" where
  "lib_ok L \<longleftrightarrow>
    (\<forall>i. int (be_value (export_bits L i)) = \<bar>i\<bar> \<and> export_bits L i \<noteq> [] \<and>
       (hd (export_bits L i) = 0 \<longrightarrow> export_bits L i = [0])) \<and>
    (\<forall>bs. import_bits L bs = int (be_value bs))"

fun magnitude :: "nat \<Rightarrow> byte list" where
  "magnitude n = (if n < 256 then [of_nat n] else magnitude (n div 256) @ [of_nat (n mod 256)])"

declare magnitude.simps [simp del]

definition sample_lib :: cpp_int_lib where
  "sample_lib = \<lparr>export_bits = \<lambda>i. magnitude (nat \<bar>i\<bar>), import_bits = \<lambda>bs. int (be_value bs)\<rparr>"

lemma be_value_append: "be_value (xs @ ys) = be_value xs * 256 ^ length ys + be_value ys"
  by (induction xs) (simp_all add: power_add algebra_simps)

lemma be_value_bound: "be_value bs < 256 ^ length bs"
proof (induction bs)
  case (Cons b bs)
  have "unat b + 1 \<le> 256"
    using unat_less_pow [of b] by simp
  then have "unat b * 256 ^ length bs + 256 ^ length bs \<le> 256 * 256 ^ length bs"
    using mult_right_mono [of "unat b + 1" 256 "256 ^ length bs"] by (simp only: add_mult_distrib mult_1 le0)
  then have "unat b * 256 ^ length bs + be_value bs < 256 * 256 ^ length bs"
    using Cons by linarith
  then show ?case
    by simp
qed simp

lemma magnitude_ok:
  "be_value (magnitude n) = n \<and> magnitude n \<noteq> [] \<and> (hd (magnitude n) = 0 \<longrightarrow> magnitude n = [0])"
proof (induction n rule: magnitude.induct)
  case (1 n)
  show ?case
  proof (cases "n < 256")
    case True
    then have "unat (of_nat n :: byte) = n"
      by (simp add: unsigned_of_nat take_bit_nat_eq_self)
    moreover have "magnitude n = [of_nat n]"
      using True by (simp add: magnitude.simps [of n])
    ultimately show ?thesis
      by simp
  next
    case False
    have m: "magnitude n = magnitude (n div 256) @ [of_nat (n mod 256)]"
      using False by (simp add: magnitude.simps [of n])
    have ih: "be_value (magnitude (n div 256)) = n div 256" "magnitude (n div 256) \<noteq> []"
      "hd (magnitude (n div 256)) = 0 \<longrightarrow> magnitude (n div 256) = [0]"
      using 1 [OF False] by simp_all
    have "0 < n div 256"
      using False by (simp add: div_greater_zero_iff)
    then have "hd (magnitude (n div 256)) \<noteq> 0"
      using ih by auto
    moreover have "be_value (magnitude n) = n"
      unfolding m be_value_append ih(1) by (simp add: unsigned_of_nat take_bit_eq_mod)
    ultimately show ?thesis
      using m ih(2) by simp
  qed
qed

lemma sample_lib_ok: "lib_ok sample_lib"
  using magnitude_ok by (simp add: lib_ok_def sample_lib_def)

section \<open>Two's complement\<close>

lemma be_value_add_one: "be_value (rev (add_one bs)) = (be_value (rev bs) + 1) mod 256 ^ length bs"
proof (induction bs)
  case (Cons b bs)
  have u: "unat (b + 1) = (unat b + 1) mod 256"
    by (simp add: unat_word_ariths)
  have lb: "be_value (rev bs) < 256 ^ length bs"
    using be_value_bound [of "rev bs"] by simp
  show ?case
  proof (cases "b + 1 = 0")
    case True
    then have b: "unat b = 255"
      using u unat_less_pow [of b] by (cases "unat b = 255") auto
    have "(be_value (rev bs) * 256 + 256) mod (256 * 256 ^ length bs) =
        256 * ((be_value (rev bs) + 1) mod 256 ^ length bs)"
      by (simp add: mult_mod_right algebra_simps)
    then show ?thesis
      using Cons True b by (simp add: be_value_append Let_def algebra_simps)
  next
    case False
    have "unat b + 1 < 256"
    proof (rule ccontr)
      assume "\<not> unat b + 1 < 256"
      then have "unat b + 1 = 256"
        using unat_less_pow [of b] by simp
      then have "unat (b + 1) = 0"
        using u by simp
      with False show False
        by (simp add: unat_eq_zero)
    qed
    then have "unat (b + 1) = unat b + 1"
      using u by simp
    moreover have "be_value (rev bs) * 256 + (unat b + 1) < 256 * 256 ^ length bs"
      using lb \<open>unat b + 1 < 256\<close> by simp
    ultimately show ?thesis
      using False by (simp add: be_value_append Let_def)
  qed
qed simp

lemma length_add_one [simp]: "length (add_one bs) = length bs"
  by (induction bs) (simp_all add: Let_def)

lemma unat_not: "unat (NOT (b :: byte)) = 255 - unat b"
proof -
  have "NOT b = - 1 - b"
    by (simp add: not_eq_complement)
  moreover have "b \<le> - 1"
    by simp
  ultimately have "unat (NOT b) = unat (- 1 :: byte) - unat b"
    by (simp only: unat_sub)
  then show ?thesis
    by (simp add: unsigned_minus_1_eq_mask mask_eq_exp_minus_1)
qed

lemma be_value_not: "be_value (map (\<lambda>b. NOT b) bs) = 256 ^ length bs - 1 - be_value bs"
proof (induction bs)
  case (Cons b bs)
  have "unat b \<le> 255"
    using unat_less_pow [of b] by simp
  then have "(255 - unat b) * 256 ^ length bs = 255 * 256 ^ length bs - unat b * 256 ^ length bs"
    "unat b * 256 ^ length bs \<le> 255 * 256 ^ length bs"
    by (simp_all add: diff_mult_distrib)
  moreover have "be_value bs < 256 ^ length bs"
    by (rule be_value_bound)
  ultimately show ?case
    using Cons by (simp add: unat_not)
qed simp

lemma length_twos_complement [simp]: "length (twos_complement bs) = length bs"
  by (simp add: twos_complement_def)

lemma be_value_twos_complement:
  assumes "0 < be_value bs"
  shows "be_value (twos_complement bs) = 256 ^ length bs - be_value bs"
proof -
  have "be_value (twos_complement bs) = (256 ^ length bs - 1 - be_value bs + 1) mod 256 ^ length bs"
    using be_value_add_one [of "rev (map (\<lambda>b. NOT b) bs)"]
    by (simp add: twos_complement_def be_value_not)
  then show ?thesis
    using assms be_value_bound [of bs] by simp
qed

lemma sint_byte:
  fixes b :: byte
  shows "sint b < 0 \<longleftrightarrow> 128 \<le> unat b" "0 < sint b \<longleftrightarrow> 0 < unat b \<and> unat b < 128"
proof -
  have "unat b < 128 \<longleftrightarrow> 0 \<le> sint b"
    using sint_unat [of b] sint_nonneg_unat(2) [of b] by auto
  moreover have "unat b < 128 \<Longrightarrow> sint b = int (unat b)"
    using sint_unat [of b] by simp
  ultimately show "sint b < 0 \<longleftrightarrow> 128 \<le> unat b" "0 < sint b \<longleftrightarrow> 0 < unat b \<and> unat b < 128"
    by linarith+
qed

lemma hd_value: "bs \<noteq> [] \<Longrightarrow> unat (hd bs) = be_value bs div 256 ^ (length bs - 1)"
  using be_value_bound [of "tl bs"] by (cases bs) simp_all

lemma from_bytes_value:
  assumes "lib_ok L" "v \<noteq> []"
  shows "from_bytes L v = Inr (if 128 \<le> unat (hd v) then int (be_value v) - 256 ^ length v
    else int (be_value v))"
proof (cases "128 \<le> unat (hd v)")
  case True
  then have "0 < be_value v"
    using assms(2) by (cases v) simp_all
  then have "int (be_value (twos_complement v)) = 256 ^ length v - int (be_value v)"
    using be_value_twos_complement [of v] be_value_bound [of v] by (simp add: of_nat_diff)
  then show ?thesis
    using True assms by (simp add: from_bytes_def lib_ok_def sint_byte)
next
  case False
  then show ?thesis
    using assms by (simp add: from_bytes_def lib_ok_def sint_byte)
qed

definition sign_lost :: "int \<Rightarrow> bool" where
  "sign_lost i \<longleftrightarrow> i < 0 \<and> (\<exists>k. 255 * 256 ^ k < - i \<and> - i < 256 ^ (k + 1))"

lemma power_interval_unique:
  assumes "255 * 256 ^ k < m" "m < 256 ^ (k + 1)" "256 ^ n \<le> m" "m < (256 :: int) ^ (n + 1)"
  shows "k = n"
proof (rule ccontr)
  assume "k \<noteq> n"
  then consider "k + 1 \<le> n" | "n + 1 \<le> k" by linarith
  then show False
  proof cases
    case 1
    then have "(256 :: int) ^ (k + 1) \<le> 256 ^ n" by (intro power_increasing) simp_all
    then show False using assms by linarith
  next
    case 2
    then have "(256 :: int) ^ (n + 1) \<le> 256 ^ k" by (intro power_increasing) simp_all
    then show False using assms by simp
  qed
qed

lemma be_value_lower: "bs \<noteq> [] \<Longrightarrow> hd bs \<noteq> 0 \<Longrightarrow> 256 ^ (length bs - 1) \<le> be_value bs"
proof (cases bs)
  case (Cons b rest)
  assume "hd bs \<noteq> 0"
  then have "1 \<le> unat b"
    using Cons by (simp add: Suc_le_eq unat_gt_0)
  then have "1 * 256 ^ length rest \<le> unat b * 256 ^ length rest"
    by (rule mult_right_mono) simp
  then have "256 ^ length rest \<le> unat b * 256 ^ length rest + be_value rest"
    by linarith
  then show ?thesis
    using Cons by simp
qed simp

lemma negative_bytes:
  assumes L: "lib_ok L" and i: "i < 0"
  defines "n \<equiv> length (export_bits L i)"
  shows "\<exists>v. to_bytes L i = Inr v \<and>
    from_bytes L v = Inr (if 255 * 256 ^ (n - 1) < - i then 256 ^ n + i else i)"
    and "256 ^ (n - 1) \<le> - i" "- i < 256 ^ n" "0 < n"
proof -
  let ?e = "export_bits L i" and ?t = "twos_complement (export_bits L i)"
  have e: "int (be_value ?e) = - i" "?e \<noteq> []" "hd ?e \<noteq> 0"
    using L i by (auto simp: lib_ok_def dest: spec [of _ i])
  show n: "0 < n"
    using e(2) by (simp add: n_def)
  have up: "be_value ?e < 256 ^ n"
    by (simp add: n_def be_value_bound)
  then have "int (be_value ?e) < int (256 ^ n)"
    by (simp only: of_nat_less_iff)
  then show hi: "- i < 256 ^ n"
    using e(1) by simp
  have "int (256 ^ (n - 1)) \<le> int (be_value ?e)"
    using be_value_lower [OF e(2,3)] unfolding n_def by (simp only: of_nat_le_iff)
  then show lo: "256 ^ (n - 1) \<le> - i"
    using e(1) by simp
  have t: "int (be_value ?t) = 256 ^ n + i" and tn: "?t \<noteq> []" "length ?t = n"
    using be_value_twos_complement [of ?e] e up i
    by (simp_all add: n_def of_nat_diff flip: length_greater_0_conv)
  have p: "(256 :: int) ^ n = 256 * 256 ^ (n - 1)"
    using n by (simp flip: power_Suc)
  have h: "int (unat (hd ?t)) = (256 ^ n + i) div 256 ^ (n - 1)"
    using hd_value [OF tn(1)] tn(2) t by (simp add: zdiv_int)
  define q :: int where "q = 256 ^ (n - 1)"
  have q: "0 < q" "int (unat (hd ?t)) = (256 * q + i) div q" "q \<le> - i" "- i < 256 * q"
    using h lo hi p by (simp_all add: q_def)
  show "\<exists>v. to_bytes L i = Inr v \<and>
    from_bytes L v = Inr (if 255 * 256 ^ (n - 1) < - i then 256 ^ n + i else i)"
  proof (cases "255 * q < - i")
    case True
    then have "(256 * q + i) div q = 0"
      using q by (intro div_pos_pos_trivial) simp_all
    then have "unat (hd ?t) = 0"
      using q(2) by linarith
    then show ?thesis
      using True from_bytes_value [OF L tn(1)] t i e(2) sint_byte [of "hd ?t"]
      by (simp add: to_bytes_def q_def Let_def)
  next
    case False
    then have pos: "1 \<le> (256 * q + i) div q"
      using q zdiv_mono1 [of q "256 * q + i" q] by simp
    have lost: "\<not> 255 * 256 ^ (n - 1) < - i"
      using False by (simp add: q_def)
    show ?thesis
    proof (cases "unat (hd ?t) < 128")
      case True
      have "0 < unat (hd ?t)"
        using pos q(2) by linarith
      then have tb: "to_bytes L i = Inr (- 1 # ?t)"
        using True i e(2) sint_byte(2) [of "hd ?t"] by (simp add: to_bytes_def Let_def)
      have "from_bytes L (- 1 # ?t) = Inr i"
        using from_bytes_value [OF L, of "- 1 # ?t"] t tn(2)
        by (simp add: unsigned_minus_1_eq_mask mask_eq_exp_minus_1)
      then show ?thesis
        using tb lost by simp
    next
      case False
      then have "from_bytes L ?t = Inr i" "to_bytes L i = Inr ?t"
        using from_bytes_value [OF L tn(1)] t tn(2) i e(2) sint_byte(2) [of "hd ?t"]
        by (simp_all add: to_bytes_def Let_def)
      then show ?thesis
        using lost by simp
    qed
  qed
qed

lemma nonnegative_bytes:
  assumes L: "lib_ok L" and i: "0 \<le> i"
  shows "\<exists>v. to_bytes L i = Inr v \<and> from_bytes L v = Inr i"
proof -
  let ?e = "export_bits L i"
  have e: "int (be_value ?e) = i" "?e \<noteq> []"
    using L i by (auto simp: lib_ok_def)
  show ?thesis
  proof (cases "128 \<le> unat (hd ?e)")
    case True
    then show ?thesis
      using from_bytes_value [OF L, of "0 # ?e"] e i sint_byte(1) [of "hd ?e"] by (simp add: to_bytes_def Let_def)
  next
    case False
    then show ?thesis
      using from_bytes_value [OF L e(2)] e i sint_byte(1) [of "hd ?e"] by (simp add: to_bytes_def Let_def)
  qed
qed

lemma sign_lost_iff:
  assumes "i < 0" "256 ^ (n - 1) \<le> - i" "- i < 256 ^ n" "0 < n"
  shows "sign_lost i \<longleftrightarrow> 255 * 256 ^ (n - 1) < - i"
proof
  assume "sign_lost i"
  then obtain k where k: "255 * 256 ^ k < - i" "- i < 256 ^ (k + 1)"
    by (auto simp: sign_lost_def)
  then have "k = n - 1"
    using assms by (intro power_interval_unique [of k "- i"]) simp_all
  then show "255 * 256 ^ (n - 1) < - i"
    using k by simp
next
  assume "255 * 256 ^ (n - 1) < - i"
  then show "sign_lost i"
    using assms unfolding sign_lost_def by (intro conjI exI [of _ "n - 1"]) simp_all
qed

lemma cpp_int_bytes:
  assumes "lib_ok L"
  shows "\<exists>v. to_bytes L i = Inr v \<and> (\<not> sign_lost i \<longrightarrow> from_bytes L v = Inr i) \<and>
    (sign_lost i \<longrightarrow> (\<exists>j>0. from_bytes L v = Inr j))"
proof (cases "i < 0")
  case True
  note n = negative_bytes [OF assms True]
  note lost = sign_lost_iff [OF True n(2-4)]
  from n(1) obtain v where "to_bytes L i = Inr v" "from_bytes L v =
      Inr (if sign_lost i then 256 ^ length (export_bits L i) + i else i)"
    unfolding lost by blast
  then show ?thesis
    using n(3) by auto
next
  case False
  then show ?thesis
    using nonnegative_bytes [OF assms, of i] by (auto simp: sign_lost_def)
qed

text \<open>
  C34. Converting an integer of any size to bytes and back is the identity for all but the negative
  numbers whose magnitude lies strictly between 255 * 256^k and 256^(k+1), such as -65281: there the
  test for a missing sign byte overlooks a leading zero byte, and a positive number is read back.
\<close>

theorem cpp_int_roundtrip:
  assumes "lib_ok L"
  shows "\<exists>v j. to_bytes L i = Inr v \<and> from_bytes L v = Inr j \<and>
    (j = i \<longleftrightarrow> \<not> sign_lost i) \<and> (sign_lost i \<longrightarrow> 0 < j)"
proof -
  obtain v where v: "to_bytes L i = Inr v" "\<not> sign_lost i \<longrightarrow> from_bytes L v = Inr i"
    "sign_lost i \<longrightarrow> (\<exists>j>0. from_bytes L v = Inr j)"
    using cpp_int_bytes [OF assms, of i] by blast
  show ?thesis
  proof (cases "sign_lost i")
    case True
    moreover from this have "i < 0" by (simp add: sign_lost_def)
    ultimately show ?thesis using v by fastforce
  next
    case False
    then show ?thesis using v by auto
  qed
qed

theorem cpp_int_roundtrip_witness:
  "\<exists>v j. to_bytes sample_lib (- 65281) = Inr v \<and> from_bytes sample_lib v = Inr j \<and> j \<noteq> - 65281 \<and> 0 < j"
proof -
  have "sign_lost (- 65281)"
    unfolding sign_lost_def by (intro conjI exI [of _ 1]) simp_all
  then show ?thesis
    using cpp_int_roundtrip [OF sample_lib_ok, of "- 65281"] by auto
qed

section \<open>Decimals\<close>

definition cpp_int_bytes_of :: "cpp_int_lib \<Rightarrow> int \<Rightarrow> byte list" where
  "cpp_int_bytes_of L i = (case to_bytes L i of Inl _ \<Rightarrow> [] | Inr v \<Rightarrow> v)"

definition decimal_bytes :: "cpp_int_lib \<Rightarrow> byte_order \<Rightarrow> big_decimal \<Rightarrow> byte list" where
  "decimal_bytes L order d =
    vector_bytes (\<lambda>_ b. [b]) order (cpp_int_bytes_of L (unscaled d)) @ order_bytes order 4 (dec_scale d)"

definition decimal_ok :: "cpp_int_lib \<Rightarrow> big_decimal \<Rightarrow> bool" where
  "decimal_ok L d \<longleftrightarrow> lib_ok L \<and> \<not> sign_lost (unscaled d)"

lemma appends_small:
  assumes "length bs < 2 ^ 31 \<Longrightarrow> appends order f bs"
  shows "appends order f bs"
proof (cases "length bs < 2 ^ 31")
  case True
  then show ?thesis by (rule assms)
next
  case False
  then show ?thesis by (simp add: appends_def)
qed

lemma vector_bytes_octets: "vector_bytes (\<lambda>_ b. [b]) order v = order_bytes order 4 (of_nat (length v) :: i32) @ v"
  by (simp add: vector_bytes_def)

lemma appends_cpp_int:
  assumes "to_bytes L i = Inr v"
  shows "appends order (write_cpp_int L i) (vector_bytes (\<lambda>_ b. [b]) order v)"
proof (rule appends_small)
  assume "length (vector_bytes (\<lambda>_ b. [b]) order v) < 2 ^ 31"
  then have "vec_ok (\<lambda>_. True) v"
    by (simp add: vec_ok_def vector_bytes_octets list_all_iff)
  moreover have "write_cpp_int L i = write_vector write_int8 v"
    by (simp add: write_cpp_int_def assms)
  ultimately show "appends order (write_cpp_int L i) (vector_bytes (\<lambda>_ b. [b]) order v)"
    using int8.appends_vector by simp
qed

lemma decodes_cpp_int:
  assumes "from_bytes L v = Inr i"
  shows "decodes order (read_cpp_int L) (vector_bytes (\<lambda>_ b. [b]) order v) i"
proof (rule decodes_small)
  assume "length (vector_bytes (\<lambda>_ b. [b]) order v) < 2 ^ 31"
  then have l: "length v < 2 ^ 31"
    by (simp add: vector_bytes_octets)
  have "decodes order (\<lambda>inp. case from_bytes L v of Inl e \<Rightarrow> Inl e | Inr i \<Rightarrow> Inr (i, inp)) [] i"
    by (simp add: assms decodes_def)
  from decodes_bind [where k = "\<lambda>bs inp. case from_bytes L bs of Inl e \<Rightarrow> Inl e | Inr i \<Rightarrow> Inr (i, inp)",
      OF decodes_chars this]
  have "decodes order (sbind (read_fully (length v)) (\<lambda>bs inp. case from_bytes L bs of
      Inl e \<Rightarrow> Inl e | Inr i \<Rightarrow> Inr (i, inp))) v i"
    by (simp add: read_fully_chars)
  then show "decodes order (read_cpp_int L) (vector_bytes (\<lambda>_ b. [b]) order v) i"
    unfolding read_cpp_int_def vector_bytes_octets
    by (intro decodes_bind [OF int32.decodes_fetch [OF TrueI]])
      (simp add: sint_of_nat [OF l] unat_of_nat_small [OF l])
qed

interpretation decimal: io_codec "write_big_decimal L" "read_big_decimal L" "decimal_bytes L" "\<lambda>v. v" "decimal_ok L"
proof unfold_locales
  fix order d
  assume ok: "decimal_ok L d"
  then obtain v where v: "to_bytes L (unscaled d) = Inr v" "from_bytes L v = Inr (unscaled d)"
    using cpp_int_bytes [of L "unscaled d"] by (auto simp: decimal_ok_def)
  have e: "decimal_bytes L order d = vector_bytes (\<lambda>_ b. [b]) order v @ order_bytes order 4 (dec_scale d)"
    by (simp add: decimal_bytes_def cpp_int_bytes_of_def v)
  show "appends order (write_big_decimal L d) (decimal_bytes L order d)"
    unfolding e write_big_decimal_def by (intro appends_then appends_cpp_int v appends_int32)
  have "decodes order (read_big_decimal L) (decimal_bytes L order d)
      \<lparr>unscaled = unscaled d, dec_scale = dec_scale d\<rparr>"
    unfolding e read_big_decimal_def
    by (intro decodes_bind [OF decodes_cpp_int [OF v(2)]] decodes_map [OF int32.decodes_fetch [OF TrueI]])
  then show "decodes order (read_big_decimal L) (decimal_bytes L order d) d"
    by (cases d) simp
qed

end
