(* ===== verification/Compact_IO.thy ===== *)
theory Compact_IO
  imports Big_Decimal
begin

text \<open>
  The compact format: \<open>default_compact_writer\<close> and \<open>compact_reader\<close> (\<open>compact.cpp\<close>,
  \<open>compact_impl.h\<close>).

  A record on the wire is, when its schema has variable-size fields, the length of the data, then the
  fixed-size fields at the offsets of the schema, the variable-size fields in the order they were
  written, and the table of their offsets with one, two or four bytes per field.

  The member templates over the type \<open>T\<close> of a field are functions of a tag \<open>item_type\<close>; a value of such
  a type is an \<open>item\<close>.  \<open>I_compact\<close> is a nested record; its writer and reader are arguments, as
  \<open>compact_stream_serializer\<close> is a member of the source's classes.  The four shapes of a field are
  \<open>field_value\<close>: a fixed-size value, a value that may be absent, an array of values and an array of
  values that may be absent.
\<close>

section \<open>Values\<close>

datatype item_type = IT_bool | IT_int8 | IT_int16 | IT_int32 | IT_int64 | IT_float32 | IT_float64
  | IT_string | IT_decimal | IT_time | IT_date | IT_timestamp | IT_timestamp_tz | IT_compact

datatype 'r item = I_bool bool | I_int8 i8 | I_int16 i16 | I_int32 i32 | I_int64 i64 | I_float32 i32
  | I_float64 i64 | I_string hz_string | I_decimal big_decimal | I_time local_time | I_date local_date
  | I_timestamp "local_date \<times> local_time" | I_timestamp_tz "(local_date \<times> local_time) \<times> i32"
  | I_compact 'r

fun item_type_of :: "'r item \<Rightarrow> item_type" where
  "item_type_of (I_bool _) = IT_bool"
| "item_type_of (I_int8 _) = IT_int8"
| "item_type_of (I_int16 _) = IT_int16"
| "item_type_of (I_int32 _) = IT_int32"
| "item_type_of (I_int64 _) = IT_int64"
| "item_type_of (I_float32 _) = IT_float32"
| "item_type_of (I_float64 _) = IT_float64"
| "item_type_of (I_string _) = IT_string"
| "item_type_of (I_decimal _) = IT_decimal"
| "item_type_of (I_time _) = IT_time"
| "item_type_of (I_date _) = IT_date"
| "item_type_of (I_timestamp _) = IT_timestamp"
| "item_type_of (I_timestamp_tz _) = IT_timestamp_tz"
| "item_type_of (I_compact _) = IT_compact"

fun is_primitive :: "item_type \<Rightarrow> bool" where
  "is_primitive t \<longleftrightarrow> t \<in> {IT_bool, IT_int8, IT_int16, IT_int32, IT_int64, IT_float32, IT_float64}"

fun primitive_kind :: "item_type \<Rightarrow> field_kind" where
  "primitive_kind IT_bool = FK_BOOLEAN"
| "primitive_kind IT_int8 = FK_INT8"
| "primitive_kind IT_int16 = FK_INT16"
| "primitive_kind IT_int32 = FK_INT32"
| "primitive_kind IT_int64 = FK_INT64"
| "primitive_kind IT_float32 = FK_FLOAT32"
| "primitive_kind IT_float64 = FK_FLOAT64"
| "primitive_kind _ = FK_NOT_AVAILABLE"

fun nullable_kind :: "item_type \<Rightarrow> field_kind" where
  "nullable_kind IT_bool = FK_NULLABLE_BOOLEAN"
| "nullable_kind IT_int8 = FK_NULLABLE_INT8"
| "nullable_kind IT_int16 = FK_NULLABLE_INT16"
| "nullable_kind IT_int32 = FK_NULLABLE_INT32"
| "nullable_kind IT_int64 = FK_NULLABLE_INT64"
| "nullable_kind IT_float32 = FK_NULLABLE_FLOAT32"
| "nullable_kind IT_float64 = FK_NULLABLE_FLOAT64"
| "nullable_kind IT_string = FK_STRING"
| "nullable_kind IT_decimal = FK_DECIMAL"
| "nullable_kind IT_time = FK_TIME"
| "nullable_kind IT_date = FK_DATE"
| "nullable_kind IT_timestamp = FK_TIMESTAMP"
| "nullable_kind IT_timestamp_tz = FK_TIMESTAMP_WITH_TIMEZONE"
| "nullable_kind IT_compact = FK_COMPACT"

fun array_kind :: "item_type \<Rightarrow> field_kind" where
  "array_kind IT_bool = FK_ARRAY_OF_BOOLEAN"
| "array_kind IT_int8 = FK_ARRAY_OF_INT8"
| "array_kind IT_int16 = FK_ARRAY_OF_INT16"
| "array_kind IT_int32 = FK_ARRAY_OF_INT32"
| "array_kind IT_int64 = FK_ARRAY_OF_INT64"
| "array_kind IT_float32 = FK_ARRAY_OF_FLOAT32"
| "array_kind IT_float64 = FK_ARRAY_OF_FLOAT64"
| "array_kind _ = FK_NOT_AVAILABLE"

fun nullable_array_kind :: "item_type \<Rightarrow> field_kind" where
  "nullable_array_kind IT_bool = FK_ARRAY_OF_NULLABLE_BOOLEAN"
| "nullable_array_kind IT_int8 = FK_ARRAY_OF_NULLABLE_INT8"
| "nullable_array_kind IT_int16 = FK_ARRAY_OF_NULLABLE_INT16"
| "nullable_array_kind IT_int32 = FK_ARRAY_OF_NULLABLE_INT32"
| "nullable_array_kind IT_int64 = FK_ARRAY_OF_NULLABLE_INT64"
| "nullable_array_kind IT_float32 = FK_ARRAY_OF_NULLABLE_FLOAT32"
| "nullable_array_kind IT_float64 = FK_ARRAY_OF_NULLABLE_FLOAT64"
| "nullable_array_kind IT_string = FK_ARRAY_OF_STRING"
| "nullable_array_kind IT_decimal = FK_ARRAY_OF_DECIMAL"
| "nullable_array_kind IT_time = FK_ARRAY_OF_TIME"
| "nullable_array_kind IT_date = FK_ARRAY_OF_DATE"
| "nullable_array_kind IT_timestamp = FK_ARRAY_OF_TIMESTAMP"
| "nullable_array_kind IT_timestamp_tz = FK_ARRAY_OF_TIMESTAMP_WITH_TIMEZONE"
| "nullable_array_kind IT_compact = FK_ARRAY_OF_COMPACT"

datatype 'r field_value =
    F_primitive "'r item"
  | F_nullable item_type "'r item option"
  | F_array item_type "'r item list option"
  | F_nullable_array item_type "'r item option list option"

fun kind_of_value :: "'r field_value \<Rightarrow> field_kind" where
  "kind_of_value (F_primitive v) = primitive_kind (item_type_of v)"
| "kind_of_value (F_nullable t _) = nullable_kind t"
| "kind_of_value (F_array t _) = array_kind t"
| "kind_of_value (F_nullable_array t _) = nullable_array_kind t"

section \<open>The writer\<close>

record compact_writer =
  cw_out :: data_output
  cw_data_start :: nat
  cw_field_offsets :: "i32 list"

type_synonym 'a cwm = "(compact_writer, 'a) sm"

definition make_compact_writer :: "schema \<Rightarrow> data_output \<Rightarrow> hz_error + compact_writer" where
  "make_compact_writer s out =
    (if number_of_var_size_fields s \<noteq> 0
     then case write_zero_bytes (usize_add (fixed_size_fields_length s) 4) out of
            Inl e \<Rightarrow> Inl e
          | Inr (_, out') \<Rightarrow> Inr \<lparr>cw_out = out',
              cw_data_start = usize_add (length (output_stream out)) 4,
              cw_field_offsets = replicate (number_of_var_size_fields s) 0\<rparr>
     else case write_zero_bytes (fixed_size_fields_length s) out of
            Inl e \<Rightarrow> Inl e
          | Inr (_, out') \<Rightarrow> Inr \<lparr>cw_out = out', cw_data_start = length (output_stream out),
              cw_field_offsets = []\<rparr>)"

definition on_out :: "'a dout \<Rightarrow> 'a cwm" where
  "on_out f = (\<lambda>w. case f (cw_out w) of Inl e \<Rightarrow> Inl e | Inr (x, out) \<Rightarrow> Inr (x, w\<lparr>cw_out := out\<rparr>))"

definition check_field_definition :: "schema \<Rightarrow> hz_string \<Rightarrow> field_kind \<Rightarrow> field_descriptor cwm" where
  "check_field_definition s name kind =
    (case map_of (field_definition_map s) name of
       None \<Rightarrow> sfail HazelcastSerialization
     | Some d \<Rightarrow> if fd_kind d \<noteq> kind then sfail HazelcastSerialization else sreturn d)"

text \<open>A signed offset added to a \<open>size_t\<close>.\<close>

definition offset_from :: "nat \<Rightarrow> int \<Rightarrow> nat" where
  "offset_from start off = nat ((off + int start) mod int usize_max)"

definition get_fixed_size_field_position :: "schema \<Rightarrow> hz_string \<Rightarrow> field_kind \<Rightarrow> nat cwm" where
  "get_fixed_size_field_position s name kind = sbind (check_field_definition s name kind) (\<lambda>d w.
    Inr (offset_from (cw_data_start w) (fd_offset d), w))"

definition write_boolean :: "schema \<Rightarrow> hz_string \<Rightarrow> bool \<Rightarrow> unit cwm" where
  "write_boolean s name v = sbind (check_field_definition s name FK_BOOLEAN) (\<lambda>d w.
    on_out (write_boolean_bit_at (offset_from (cw_data_start w) (fd_offset d))
      (nat (fd_bit_offset d mod int usize_max)) v) w)"

definition write_fixed :: "schema \<Rightarrow> hz_string \<Rightarrow> field_kind \<Rightarrow> nat \<Rightarrow> 'a::len word \<Rightarrow> unit cwm" where
  "write_fixed s name kind sz v = sbind (get_fixed_size_field_position s name kind) (\<lambda>p.
    on_out (write_at sz p v))"

fun write_primitive :: "schema \<Rightarrow> hz_string \<Rightarrow> 'r item \<Rightarrow> unit cwm" where
  "write_primitive s name (I_bool v) = write_boolean s name v"
| "write_primitive s name (I_int8 v) = write_fixed s name FK_INT8 1 v"
| "write_primitive s name (I_int16 v) = write_fixed s name FK_INT16 2 v"
| "write_primitive s name (I_int32 v) = write_fixed s name FK_INT32 4 v"
| "write_primitive s name (I_int64 v) = write_fixed s name FK_INT64 8 v"
| "write_primitive s name (I_float32 v) = write_fixed s name FK_FLOAT32 4 v"
| "write_primitive s name (I_float64 v) = write_fixed s name FK_FLOAT64 8 v"
| "write_primitive s name _ = sfail AssertFailure"

fun write_item :: "cpp_int_lib \<Rightarrow> ('r \<Rightarrow> unit dout) \<Rightarrow> 'r item \<Rightarrow> unit dout" where
  "write_item L wr (I_bool v) = write_bool v"
| "write_item L wr (I_int8 v) = write_int8 v"
| "write_item L wr (I_int16 v) = write_int16 v"
| "write_item L wr (I_int32 v) = write_int32 v"
| "write_item L wr (I_int64 v) = write_int64 v"
| "write_item L wr (I_float32 v) = write_float v"
| "write_item L wr (I_float64 v) = write_double v"
| "write_item L wr (I_string v) = write_string v"
| "write_item L wr (I_decimal v) = write_big_decimal L v"
| "write_item L wr (I_time v) = write_local_time v"
| "write_item L wr (I_date v) = write_local_date v"
| "write_item L wr (I_timestamp v) = write_local_date_time v"
| "write_item L wr (I_timestamp_tz v) = write_offset_date_time v"
| "write_item L wr (I_compact r) = wr r"

text \<open>An array of truth values is packed, eight to a byte.\<close>

fun write_bits :: "nat \<Rightarrow> nat \<Rightarrow> bool list \<Rightarrow> unit dout" where
  "write_bits position index [] = sreturn ()"
| "write_bits position index (v # vs) =
    (if index = 8
     then sthen (write_zero_bytes 1)
            (sthen (write_boolean_bit_at (usize_add position 1) 0 v) (write_bits (usize_add position 1) 1 vs))
     else sthen (write_boolean_bit_at position index v) (write_bits position (index + 1) vs))"

definition write_bool_vector :: "bool list \<Rightarrow> unit dout" where
  "write_bool_vector vs = sthen (write_int32 (of_nat (length vs))) (sbind out_position (\<lambda>position.
    if 0 < length vs then sthen (write_zero_bytes 1) (write_bits position 0 vs) else sreturn ()))"

fun item_bool :: "'r item \<Rightarrow> bool" where
  "item_bool (I_bool v) = v"
| "item_bool _ = False"

definition write_array_value :: "cpp_int_lib \<Rightarrow> ('r \<Rightarrow> unit dout) \<Rightarrow> item_type \<Rightarrow> 'r item list \<Rightarrow> unit dout" where
  "write_array_value L wr t vs =
    (if t = IT_bool then write_bool_vector (map item_bool vs) else write_vector (write_item L wr) vs)"

definition set_field_offset :: "int \<Rightarrow> i32 \<Rightarrow> unit cwm" where
  "set_field_offset index v = (\<lambda>w.
    if 0 \<le> index \<and> nat index < length (cw_field_offsets w)
    then Inr ((), w\<lparr>cw_field_offsets := (cw_field_offsets w)[nat index := v]\<rparr>) else Inl UndefinedBehaviour)"

definition set_position :: "schema \<Rightarrow> hz_string \<Rightarrow> field_kind \<Rightarrow> unit cwm" where
  "set_position s name kind = sbind (check_field_definition s name kind) (\<lambda>d.
    sbind (on_out out_position) (\<lambda>pos w.
      set_field_offset (fd_index d) (of_nat (usize_sub pos (cw_data_start w))) w))"

definition set_position_as_null :: "schema \<Rightarrow> hz_string \<Rightarrow> field_kind \<Rightarrow> unit cwm" where
  "set_position_as_null s name kind = sbind (check_field_definition s name kind) (\<lambda>d.
    set_field_offset (fd_index d) (- 1))"

definition write_variable_size_field ::
  "schema \<Rightarrow> hz_string \<Rightarrow> field_kind \<Rightarrow> ('a \<Rightarrow> unit dout) \<Rightarrow> 'a option \<Rightarrow> unit cwm" where
  "write_variable_size_field s name kind put_value value =
    (case value of
       None \<Rightarrow> set_position_as_null s name kind
     | Some v \<Rightarrow> sthen (set_position s name kind) (on_out (put_value v)))"

text \<open>The width of an offset depends on the length of the data; the value with all bits set stands for
  an absent field.\<close>

definition offset_width :: "int \<Rightarrow> nat" where
  "offset_width data_length = (if data_length < 255 then 1 else if data_length < 65535 then 2 else 4)"

definition write_offsets :: "nat \<Rightarrow> i32 list \<Rightarrow> unit dout" where
  "write_offsets data_length offsets =
    (if offset_width (int data_length) = 1 then siter (\<lambda>off. write_int8 (ucast off)) offsets
     else if offset_width (int data_length) = 2 then siter (\<lambda>off. write_int16 (ucast off)) offsets
     else siter write_int32 offsets)"

fun write_items :: "('a \<Rightarrow> unit dout) \<Rightarrow> nat \<Rightarrow> 'a option list \<Rightarrow> i32 list dout" where
  "write_items put_value offset [] = sreturn []"
| "write_items put_value offset (None # vs) =
    sbind (write_items put_value offset vs) (\<lambda>offs. sreturn (- 1 # offs))"
| "write_items put_value offset (Some v # vs) =
    sbind out_position (\<lambda>pos. sthen (put_value v)
      (sbind (write_items put_value offset vs) (\<lambda>offs. sreturn (of_nat (usize_sub pos offset) # offs))))"

definition write_item_array :: "('a \<Rightarrow> unit dout) \<Rightarrow> 'a option list \<Rightarrow> unit dout" where
  "write_item_array put_value v =
    sbind out_position (\<lambda>data_length_offset.
    sthen (write_zero_bytes 4)
    (sthen (write_int32 (of_nat (length v)))
    (sbind out_position (\<lambda>offset.
     sbind (write_items put_value offset v) (\<lambda>offsets.
     sbind out_position (\<lambda>pos.
       let data_length = (of_nat (usize_sub pos offset) :: i32)
       in sthen (write_at 4 data_length_offset data_length)
            (write_offsets (i32_to_usize data_length) offsets)))))))"

definition write_array_of_variable_size ::
  "schema \<Rightarrow> hz_string \<Rightarrow> field_kind \<Rightarrow> ('a \<Rightarrow> unit dout) \<Rightarrow> 'a option list option \<Rightarrow> unit cwm" where
  "write_array_of_variable_size s name kind put_value value =
    (case value of
       None \<Rightarrow> set_position_as_null s name kind
     | Some v \<Rightarrow> sthen (set_position s name kind) (on_out (write_item_array put_value v)))"

definition write_reference :: "cpp_int_lib \<Rightarrow> ('r \<Rightarrow> unit dout) \<Rightarrow> schema \<Rightarrow> hz_string \<Rightarrow> item_type \<Rightarrow>
    'r item option \<Rightarrow> unit cwm" where
  "write_reference L wr s name t v = write_variable_size_field s name (nullable_kind t) (write_item L wr) v"

definition write_nullable :: "cpp_int_lib \<Rightarrow> ('r \<Rightarrow> unit dout) \<Rightarrow> schema \<Rightarrow> hz_string \<Rightarrow> item_type \<Rightarrow>
    'r item option \<Rightarrow> unit cwm" where
  "write_nullable L wr s name t v = write_variable_size_field s name (nullable_kind t) (write_item L wr) v"

definition write_array :: "cpp_int_lib \<Rightarrow> ('r \<Rightarrow> unit dout) \<Rightarrow> schema \<Rightarrow> hz_string \<Rightarrow> item_type \<Rightarrow>
    'r item list option \<Rightarrow> unit cwm" where
  "write_array L wr s name t v = write_variable_size_field s name (array_kind t) (write_array_value L wr t) v"

definition write_array_of_reference :: "cpp_int_lib \<Rightarrow> ('r \<Rightarrow> unit dout) \<Rightarrow> schema \<Rightarrow> hz_string \<Rightarrow> item_type \<Rightarrow>
    'r item option list option \<Rightarrow> unit cwm" where
  "write_array_of_reference L wr s name t v =
    write_array_of_variable_size s name (nullable_array_kind t) (write_item L wr) v"

definition write_nullable_array :: "cpp_int_lib \<Rightarrow> ('r \<Rightarrow> unit dout) \<Rightarrow> schema \<Rightarrow> hz_string \<Rightarrow> item_type \<Rightarrow>
    'r item option list option \<Rightarrow> unit cwm" where
  "write_nullable_array L wr s name t v =
    write_array_of_variable_size s name (nullable_array_kind t) (write_item L wr) v"

fun write_field :: "cpp_int_lib \<Rightarrow> ('r \<Rightarrow> unit dout) \<Rightarrow> schema \<Rightarrow> hz_string \<Rightarrow> 'r field_value \<Rightarrow> unit cwm" where
  "write_field L wr s name (F_primitive v) = write_primitive s name v"
| "write_field L wr s name (F_nullable t v) =
    (if is_primitive t then write_nullable L wr s name t v else write_reference L wr s name t v)"
| "write_field L wr s name (F_array t v) = write_array L wr s name t v"
| "write_field L wr s name (F_nullable_array t v) =
    (if is_primitive t then write_nullable_array L wr s name t v else write_array_of_reference L wr s name t v)"

definition compact_writer_end :: "schema \<Rightarrow> unit cwm" where
  "compact_writer_end s = (\<lambda>w.
    if number_of_var_size_fields s = 0 then Inr ((), w)
    else let position = length (output_stream (cw_out w));
             data_length = usize_sub position (cw_data_start w)
         in on_out (sthen (write_offsets data_length (cw_field_offsets w))
              (write_at 4 (usize_sub (cw_data_start w) 4) (of_nat data_length :: i32))) w)"

text \<open>What \<open>compact_stream_serializer::write\<close> and \<open>write_generic_record\<close> have in common: the id of the
  schema, the writer around the calls that write the fields, and its end.\<close>

definition write_with_schema :: "schema \<Rightarrow> unit cwm \<Rightarrow> unit dout" where
  "write_with_schema s write_fields = sthen (write_int64 (schema_id s)) (\<lambda>out.
    case make_compact_writer s out of
      Inl e \<Rightarrow> Inl e
    | Inr w \<Rightarrow> (case sthen write_fields (compact_writer_end s) w of
        Inl e \<Rightarrow> Inl e
      | Inr (_, w') \<Rightarrow> Inr ((), cw_out w')))"

section \<open>The reader\<close>

record compact_reader =
  cr_data_start :: i32
  cr_variable_offsets :: nat
  cr_offset_width :: nat

definition make_compact_reader :: "schema \<Rightarrow> compact_reader din" where
  "make_compact_reader s =
    (if number_of_var_size_fields s \<noteq> 0
     then sbind read_int32 (\<lambda>data_length. sbind in_position (\<lambda>start.
       let offsets = unat (start + data_length);
           width = offset_width (uint data_length);
           final = usize_add offsets (number_of_var_size_fields s * width)
       in sthen (set_in_position (of_nat final))
            (sreturn \<lparr>cr_data_start = start, cr_variable_offsets = offsets, cr_offset_width = width\<rparr>)))
     else sbind in_position (\<lambda>start.
       sthen (set_in_position (of_nat (usize_add (i32_to_usize start) (fixed_size_fields_length s))))
         (sreturn \<lparr>cr_data_start = start, cr_variable_offsets = 0, cr_offset_width = 4\<rparr>)))"

definition is_field_exists :: "schema \<Rightarrow> hz_string \<Rightarrow> field_kind \<Rightarrow> bool" where
  "is_field_exists s name kind \<longleftrightarrow>
    (case map_of (field_definition_map s) name of None \<Rightarrow> False | Some d \<Rightarrow> fd_kind d = kind)"

definition get_field_descriptor :: "schema \<Rightarrow> hz_string \<Rightarrow> field_descriptor din" where
  "get_field_descriptor s name =
    (case map_of (field_definition_map s) name of None \<Rightarrow> sfail HazelcastSerialization | Some d \<Rightarrow> sreturn d)"

definition get_field_descriptor_of :: "schema \<Rightarrow> hz_string \<Rightarrow> field_kind \<Rightarrow> field_descriptor din" where
  "get_field_descriptor_of s name kind = sbind (get_field_descriptor s name) (\<lambda>d.
    if fd_kind d \<noteq> kind then sfail HazelcastSerialization else sreturn d)"

definition get_offset :: "nat \<Rightarrow> i32 \<Rightarrow> i32 \<Rightarrow> i32 din" where
  "get_offset width variable_offsets_pos index =
    (let pos = of_nat (usize_add (unat variable_offsets_pos) (unat index * width)) in
     if width = 1 then sbind (read_u8_at pos) (\<lambda>v. sreturn (if v = - 1 then - 1 else ucast v))
     else if width = 2 then sbind (read_word_at 2 pos) (\<lambda>v :: i16. sreturn (if v = - 1 then - 1 else ucast v))
     else read_word_at 4 pos)"

text \<open>A sum of two \<open>int\<close> that overflows is undefined.\<close>

definition add_int :: "i32 \<Rightarrow> i32 \<Rightarrow> i32 din" where
  "add_int a b = (if sint (a + b) = sint a + sint b then sreturn (a + b) else sfail UndefinedBehaviour)"

definition read_var_size_position :: "compact_reader \<Rightarrow> field_descriptor \<Rightarrow> i32 din" where
  "read_var_size_position r d =
    sbind (get_offset (cr_offset_width r) (of_nat (cr_variable_offsets r)) (word_of_int (fd_index d)))
      (\<lambda>offset. if offset = - 1 then sreturn (- 1) else add_int offset (cr_data_start r))"

definition read_fixed_position :: "compact_reader \<Rightarrow> field_descriptor \<Rightarrow> i32 din" where
  "read_fixed_position r d = add_int (word_of_int (fd_offset d)) (cr_data_start r)"

definition read_fixed_bool :: "compact_reader \<Rightarrow> field_descriptor \<Rightarrow> bool din" where
  "read_fixed_bool r d = sbind (read_fixed_position r d) (\<lambda>offset. sbind (read_u8_at offset) (\<lambda>last_byte.
    if 0 \<le> fd_bit_offset d \<and> fd_bit_offset d < 32
    then sreturn (bit (ucast last_byte :: i32) (nat (fd_bit_offset d))) else sfail UndefinedBehaviour))"

fun read_fixed :: "compact_reader \<Rightarrow> item_type \<Rightarrow> field_descriptor \<Rightarrow> 'r item din" where
  "read_fixed r IT_bool d = sbind (read_fixed_bool r d) (\<lambda>v. sreturn (I_bool v))"
| "read_fixed r IT_int8 d = sbind (sbind (read_fixed_position r d) read_u8_at) (\<lambda>v. sreturn (I_int8 v))"
| "read_fixed r IT_int16 d = sbind (sbind (read_fixed_position r d) (read_word_at 2)) (\<lambda>v. sreturn (I_int16 v))"
| "read_fixed r IT_int32 d = sbind (sbind (read_fixed_position r d) (read_word_at 4)) (\<lambda>v. sreturn (I_int32 v))"
| "read_fixed r IT_int64 d = sbind (sbind (read_fixed_position r d) (read_word_at 8)) (\<lambda>v. sreturn (I_int64 v))"
| "read_fixed r IT_float32 d = sbind (sbind (read_fixed_position r d) (read_word_at 4)) (\<lambda>v. sreturn (I_float32 v))"
| "read_fixed r IT_float64 d = sbind (sbind (read_fixed_position r d) (read_word_at 8)) (\<lambda>v. sreturn (I_float64 v))"
| "read_fixed r _ d = sfail AssertFailure"

fun read_item :: "cpp_int_lib \<Rightarrow> 'r din \<Rightarrow> item_type \<Rightarrow> 'r item din" where
  "read_item L rd IT_bool = sbind read_bool (\<lambda>v. sreturn (I_bool v))"
| "read_item L rd IT_int8 = sbind read_int8 (\<lambda>v. sreturn (I_int8 v))"
| "read_item L rd IT_int16 = sbind read_int16 (\<lambda>v. sreturn (I_int16 v))"
| "read_item L rd IT_int32 = sbind read_int32 (\<lambda>v. sreturn (I_int32 v))"
| "read_item L rd IT_int64 = sbind read_int64 (\<lambda>v. sreturn (I_int64 v))"
| "read_item L rd IT_float32 = sbind read_float (\<lambda>v. sreturn (I_float32 v))"
| "read_item L rd IT_float64 = sbind read_double (\<lambda>v. sreturn (I_float64 v))"
| "read_item L rd IT_string = sbind read_string (\<lambda>v. sreturn (I_string v))"
| "read_item L rd IT_decimal = sbind (read_big_decimal L) (\<lambda>v. sreturn (I_decimal v))"
| "read_item L rd IT_time = sbind read_local_time (\<lambda>v. sreturn (I_time v))"
| "read_item L rd IT_date = sbind read_local_date (\<lambda>v. sreturn (I_date v))"
| "read_item L rd IT_timestamp = sbind read_local_date_time (\<lambda>v. sreturn (I_timestamp v))"
| "read_item L rd IT_timestamp_tz = sbind read_offset_date_time (\<lambda>v. sreturn (I_timestamp_tz v))"
| "read_item L rd IT_compact = sbind rd (\<lambda>v. sreturn (I_compact v))"

fun read_bits :: "nat \<Rightarrow> nat \<Rightarrow> byte \<Rightarrow> bool list din" where
  "read_bits 0 index current_byte = sreturn []"
| "read_bits (Suc n) index current_byte =
    (if index = 8
     then sbind read_u8 (\<lambda>b. sbind (read_bits n 1 b) (\<lambda>vs. sreturn (bit b 0 # vs)))
     else sbind (read_bits n (index + 1) current_byte) (\<lambda>vs. sreturn (bit current_byte index # vs)))"

definition read_bool_vector :: "bool list din" where
  "read_bool_vector = sbind read_int32 (\<lambda>len.
    if len = 0 then sreturn []
    else if sint len < 0 then sfail LengthError
    else sbind read_u8 (read_bits (unat len) 0))"

definition read_array_value :: "cpp_int_lib \<Rightarrow> 'r din \<Rightarrow> item_type \<Rightarrow> 'r item list option din" where
  "read_array_value L rd t =
    (if t = IT_bool then sbind read_bool_vector (\<lambda>vs. sreturn (Some (map I_bool vs)))
     else read_vector (read_item L rd t))"

text \<open>A variable-size field is read at its own position, which is left for the former one at the end;
  what \<open>util::finally\<close> does on an exception is invisible, since the input is given up.\<close>

definition at_field :: "compact_reader \<Rightarrow> field_descriptor \<Rightarrow> 'a option din \<Rightarrow> 'a option din" where
  "at_field r d get_value =
    sbind in_position (\<lambda>current_pos. sbind (read_var_size_position r d) (\<lambda>pos.
      if pos = - 1 then sthen (set_in_position current_pos) (sreturn None)
      else sthen (set_in_position pos) (sbind get_value (\<lambda>v.
        sthen (set_in_position current_pos) (sreturn v)))))"

definition read_variable_size :: "compact_reader \<Rightarrow> field_descriptor \<Rightarrow> 'a din \<Rightarrow> 'a option din" where
  "read_variable_size r d get_value = at_field r d (sbind get_value (\<lambda>v. sreturn (Some v)))"

definition read_variable_size_as_non_null :: "compact_reader \<Rightarrow> field_descriptor \<Rightarrow> 'a din \<Rightarrow> 'a din" where
  "read_variable_size_as_non_null r d get_value = sbind (read_variable_size r d get_value) (\<lambda>v.
    case v of None \<Rightarrow> sfail HazelcastSerialization | Some x \<Rightarrow> sreturn x)"

fun read_items :: "'a din \<Rightarrow> nat \<Rightarrow> i32 \<Rightarrow> i32 \<Rightarrow> nat \<Rightarrow> nat \<Rightarrow> 'a option list din" where
  "read_items get_value width offsets_position data_start i 0 = sreturn []"
| "read_items get_value width offsets_position data_start i (Suc n) =
    sbind (get_offset width offsets_position (of_nat i)) (\<lambda>offset.
      sbind (if offset = - 1 then sreturn None
             else sbind (add_int offset data_start) (\<lambda>p.
               sthen (set_in_position p) (sbind get_value (\<lambda>v. sreturn (Some v))))) (\<lambda>v.
        sbind (read_items get_value width offsets_position data_start (i + 1) n) (\<lambda>vs. sreturn (v # vs))))"

definition read_item_array :: "'a din \<Rightarrow> 'a option list din" where
  "read_item_array get_value =
    sbind read_int32 (\<lambda>data_length. sbind read_int32 (\<lambda>item_count. sbind in_position (\<lambda>data_start.
      if sint item_count < 0 then sfail LengthError
      else sbind (add_int data_start data_length) (\<lambda>offsets_position.
        read_items get_value (offset_width (sint data_length)) offsets_position data_start 0 (unat item_count)))))"

definition read_array_of_variable_size :: "compact_reader \<Rightarrow> field_descriptor \<Rightarrow> 'a din \<Rightarrow> 'a option list option din" where
  "read_array_of_variable_size r d get_value =
    at_field r d (sbind (read_item_array get_value) (\<lambda>vs. sreturn (Some vs)))"

fun check_no_null :: "nat \<Rightarrow> i32 \<Rightarrow> nat \<Rightarrow> nat \<Rightarrow> unit din" where
  "check_no_null width offsets_position i 0 = sreturn ()"
| "check_no_null width offsets_position i (Suc n) =
    sbind (get_offset width offsets_position (of_nat i)) (\<lambda>offset.
      if offset = - 1 then sfail HazelcastSerialization else check_no_null width offsets_position (i + 1) n)"

text \<open>The items of an array of nullable values without an absent one are read as the array that starts
  at its number of items.\<close>

definition read_item_array_as_array :: "'a list option din \<Rightarrow> 'a list option din" where
  "read_item_array_as_array get_value =
    sbind read_int32 (\<lambda>data_length. sbind read_int32 (\<lambda>item_count. sbind in_position (\<lambda>data_start.
      sbind (add_int data_start data_length) (\<lambda>offsets_position.
        sthen (check_no_null (offset_width (sint data_length)) offsets_position 0 (nat (sint item_count)))
          (sthen (sbind (add_int data_start (- 4)) set_in_position) get_value)))))"

definition read_nullable_array_as_array ::
  "compact_reader \<Rightarrow> field_descriptor \<Rightarrow> 'a list option din \<Rightarrow> 'a list option din" where
  "read_nullable_array_as_array r d get_value = at_field r d (read_item_array_as_array get_value)"

definition read_array_as_nullable_array ::
  "cpp_int_lib \<Rightarrow> 'r din \<Rightarrow> compact_reader \<Rightarrow> item_type \<Rightarrow> field_descriptor \<Rightarrow> 'r item option list option din" where
  "read_array_as_nullable_array L rd r t d = at_field r d
    (if t = IT_bool then sbind read_bool_vector (\<lambda>vs. sreturn (Some (map (\<lambda>v. Some (I_bool v)) vs)))
     else sbind read_int32 (\<lambda>item_count. if sint item_count < 0 then sfail LengthError
       else sbind (srepeat (unat item_count) (read_item L rd t)) (\<lambda>vs. sreturn (Some (map Some vs)))))"

section \<open>The fields of a record\<close>

definition read_primitive :: "cpp_int_lib \<Rightarrow> 'r din \<Rightarrow> schema \<Rightarrow> compact_reader \<Rightarrow> item_type \<Rightarrow> hz_string \<Rightarrow> 'r item din" where
  "read_primitive L rd s r t name = sbind (get_field_descriptor s name) (\<lambda>d.
    if fd_kind d = primitive_kind t then read_fixed r t d
    else if fd_kind d = nullable_kind t then read_variable_size_as_non_null r d (read_item L rd t)
    else sfail HazelcastSerialization)"

definition read_nullable_primitive ::
  "cpp_int_lib \<Rightarrow> 'r din \<Rightarrow> schema \<Rightarrow> compact_reader \<Rightarrow> item_type \<Rightarrow> hz_string \<Rightarrow> 'r item option din" where
  "read_nullable_primitive L rd s r t name = sbind (get_field_descriptor s name) (\<lambda>d.
    if fd_kind d = primitive_kind t then sbind (read_fixed r t d) (\<lambda>v. sreturn (Some v))
    else if fd_kind d = nullable_kind t then read_variable_size r d (read_item L rd t)
    else sfail HazelcastSerialization)"

definition read_reference ::
  "cpp_int_lib \<Rightarrow> 'r din \<Rightarrow> schema \<Rightarrow> compact_reader \<Rightarrow> item_type \<Rightarrow> hz_string \<Rightarrow> 'r item option din" where
  "read_reference L rd s r t name = sbind (get_field_descriptor_of s name (nullable_kind t)) (\<lambda>d.
    read_variable_size r d (read_item L rd t))"

definition read_array_of_primitive ::
  "cpp_int_lib \<Rightarrow> 'r din \<Rightarrow> schema \<Rightarrow> compact_reader \<Rightarrow> item_type \<Rightarrow> hz_string \<Rightarrow> 'r item list option din" where
  "read_array_of_primitive L rd s r t name = sbind (get_field_descriptor s name) (\<lambda>d.
    if fd_kind d = array_kind t then at_field r d (read_array_value L rd t)
    else if fd_kind d = nullable_array_kind t then read_nullable_array_as_array r d (read_array_value L rd t)
    else sfail HazelcastSerialization)"

definition read_array_of_nullable ::
  "cpp_int_lib \<Rightarrow> 'r din \<Rightarrow> schema \<Rightarrow> compact_reader \<Rightarrow> item_type \<Rightarrow> hz_string \<Rightarrow> 'r item option list option din" where
  "read_array_of_nullable L rd s r t name = sbind (get_field_descriptor s name) (\<lambda>d.
    if fd_kind d = array_kind t then read_array_as_nullable_array L rd r t d
    else if fd_kind d = nullable_array_kind t then read_array_of_variable_size r d (read_item L rd t)
    else sfail HazelcastSerialization)"

definition read_array_of_reference ::
  "cpp_int_lib \<Rightarrow> 'r din \<Rightarrow> schema \<Rightarrow> compact_reader \<Rightarrow> item_type \<Rightarrow> hz_string \<Rightarrow> 'r item option list option din" where
  "read_array_of_reference L rd s r t name = sbind (get_field_descriptor_of s name (nullable_array_kind t)) (\<lambda>d.
    read_array_of_variable_size r d (read_item L rd t))"

text \<open>The read methods, by what they return: a value, a value that may be absent, an array of values, an
  array of values that may be absent.\<close>

datatype field_shape =
    S_primitive item_type
  | S_nullable item_type
  | S_array item_type
  | S_nullable_array item_type

fun shape_of :: "'r field_value \<Rightarrow> field_shape" where
  "shape_of (F_primitive v) = S_primitive (item_type_of v)"
| "shape_of (F_nullable t _) = S_nullable t"
| "shape_of (F_array t _) = S_array t"
| "shape_of (F_nullable_array t _) = S_nullable_array t"

fun read_field :: "cpp_int_lib \<Rightarrow> 'r din \<Rightarrow> schema \<Rightarrow> compact_reader \<Rightarrow> field_shape \<Rightarrow> hz_string \<Rightarrow> 'r field_value din" where
  "read_field L rd s r (S_primitive t) name = sbind (read_primitive L rd s r t name) (\<lambda>v. sreturn (F_primitive v))"
| "read_field L rd s r (S_nullable t) name =
    sbind (if is_primitive t then read_nullable_primitive L rd s r t name else read_reference L rd s r t name)
      (\<lambda>v. sreturn (F_nullable t v))"
| "read_field L rd s r (S_array t) name = sbind (read_array_of_primitive L rd s r t name) (\<lambda>v. sreturn (F_array t v))"
| "read_field L rd s r (S_nullable_array t) name =
    sbind (if is_primitive t then read_array_of_nullable L rd s r t name else read_array_of_reference L rd s r t name)
      (\<lambda>v. sreturn (F_nullable_array t v))"

end
