(* ===== verification/Compact_Roundtrip.thy ===== *)
theory Compact_Roundtrip
  imports Compact_IO
begin

text \<open>
  What the parts of a compact record look like on the wire, and that they are read as they were written:
  packed truth values, the table of offsets, arrays of items, and the values of every type.

  \<open>loads\<close> is the weaker form of \<open>decodes\<close> for readers that jump about in the input and leave it
  anywhere.  \<open>item_codes\<close>, \<open>array_codes\<close> and \<open>nullable_array_codes\<close> give the bytes of a value of every
  type, with a bound of their number; \<open>nested_codes\<close> is the assumption on nested records.
\<close>

section \<open>Values read somewhere in a buffer\<close>

definition loads :: "byte_order \<Rightarrow> 'a din \<Rightarrow> byte list \<Rightarrow> 'a \<Rightarrow> bool" where
  "loads order r bs v \<longleftrightarrow> (\<forall>xs ys. length xs + length bs + length ys < 2 ^ 31 \<longrightarrow>
    (\<exists>p \<le> length xs + length bs + length ys.
      r (in_at order (xs @ bs @ ys) (length xs)) = Inr (v, in_at order (xs @ bs @ ys) p)))"

lemma decodes_loads: "decodes order r bs v \<Longrightarrow> loads order r bs v"
  unfolding decodes_def loads_def by (metis le_add1)

lemma loadsD:
  assumes "loads order r bs v" "length xs + length bs + length ys < 2 ^ 31"
  obtains p where "p \<le> length xs + length bs + length ys"
    "r (in_at order (xs @ bs @ ys) (length xs)) = Inr (v, in_at order (xs @ bs @ ys) p)"
  using assms unfolding loads_def by blast

lemma loads_map:
  assumes "loads order r bs v"
  shows "loads order (sbind r (\<lambda>v. sreturn (f v))) bs (f v)"
  unfolding loads_def
proof (intro allI impI)
  fix xs ys :: "byte list"
  assume "length xs + length bs + length ys < 2 ^ 31"
  from loadsD [OF assms this] obtain p where "p \<le> length xs + length bs + length ys"
    "r (in_at order (xs @ bs @ ys) (length xs)) = Inr (v, in_at order (xs @ bs @ ys) p)" .
  then show "\<exists>p\<le>length xs + length bs + length ys. sbind r (\<lambda>v. sreturn (f v))
      (in_at order (xs @ bs @ ys) (length xs)) = Inr (f v, in_at order (xs @ bs @ ys) p)"
    by auto
qed

lemma set_in_position_in:
  assumes "p \<le> length buf" "q \<le> length buf" "length buf < 2 ^ 31"
  shows "set_in_position (of_nat p) (in_at order buf q) = Inr ((), in_at order buf p)"
proof (cases "q < p")
  case True
  have s: "sint (of_nat p :: i32) = int p" "sint (of_nat q :: i32) = int q"
    using assms by (simp_all add: sint_of_nat)
  have d: "(of_nat p - of_nat q :: i32) = of_nat (p - q)"
    using True by (simp add: of_nat_diff)
  have sd: "sint (of_nat (p - q) :: i32) = int p - int q"
    using True assms sint_of_nat [of "p - q"] by simp
  have c: "check_available (p - q) (in_at order buf q) = Inr ((), in_at order buf q)"
    using assms True by (intro check_available_in) simp_all
  have u: "i32_to_usize (of_nat (p - q)) = p - q"
    using assms by (intro i32_to_usize_of_nat) simp
  have "di_pos (in_at order buf q) = of_nat q"
    by (simp add: in_at_def)
  then have "set_in_position (of_nat p) (in_at order buf q) =
      sthen (check_available (p - q)) (\<lambda>inp. Inr ((), inp\<lparr>di_pos := of_nat p\<rparr>)) (in_at order buf q)"
    unfolding set_in_position_def using True by (simp only: s d sd u of_nat_less_iff if_True refl)
  also have "\<dots> = Inr ((), in_at order buf p)"
    using c by (simp only: sthen_Inr) (simp add: in_at_def)
  finally show ?thesis .
next
  case False
  then show ?thesis
    using assms sint_of_nat [of p] sint_of_nat [of q] by (simp add: set_in_position_def in_at_def)
qed

lemma add_int_in:
  assumes "a + b < 2 ^ 31"
  shows "add_int (of_nat a) (of_nat b) inp = Inr (of_nat (a + b), inp)"
  using assms sint_of_nat [of "a + b"] sint_of_nat [of a] sint_of_nat [of b] by (simp add: add_int_def)

lemma in_position_in: "in_position (in_at order buf p) = Inr (of_nat p, in_at order buf p)"
  by (simp add: in_position_def in_at_def)

lemma out_position_at: "out_position (out_at order s) = Inr (length s, out_at order s)"
  by (simp add: out_position_def out_at_def)

section \<open>Packed truth values\<close>

fun pack :: "nat \<Rightarrow> byte \<Rightarrow> bool list \<Rightarrow> byte list" where
  "pack i c [] = [c]"
| "pack i c (v # vs) = (if i = 8 then c # pack 1 (set_bit_of 0 0 v) vs else pack (i + 1) (set_bit_of c i v) vs)"

lemma pack_not_Nil: "pack i c vs \<noteq> []"
  by (induction i c vs rule: pack.induct) simp_all

lemma pack_pos: "0 < length (pack i c vs)"
  by (simp add: pack_not_Nil)

lemma bit_set_bit_of: "i < 8 \<Longrightarrow> j < 8 \<Longrightarrow> bit (set_bit_of c i v) j = (if j = i then v else bit c j)"
  by (auto simp: set_bit_of_def bit_simps)

lemma write_bit_last:
  assumes "i < 8" "length s + 1 < 2 ^ 31"
  shows "write_boolean_bit_at (length s) i v (out_at order (s @ [c])) = Inr ((), out_at order (s @ [set_bit_of c i v]))"
proof -
  have "check_available_out (length s) 1 (out_at order (s @ [c])) = Inr ((), out_at order (s @ [c]))"
    using check_available_out_at [of "s @ [c]" "length s" 1 order] assms by simp
  then show ?thesis
    using assms by (simp add: write_boolean_bit_at_def unless_no_write_def store_at_def out_at_def overwrite_def)
qed

lemma write_zero_one: "write_zero_bytes 1 (out_at order s) = Inr ((), out_at order (s @ [0]))"
  by (simp add: write_zero_bytes_def out_at_def)

lemma write_bits_pack:
  assumes "i \<le> 8" "length s + length (pack i c vs) < 2 ^ 31"
  shows "write_bits (length s) i vs (out_at order (s @ [c])) = Inr ((), out_at order (s @ pack i c vs))"
  using assms
proof (induction i c vs arbitrary: s rule: pack.induct)
  case (1 i c)
  then show ?case by simp
next
  case (2 i c v vs)
  show ?case
  proof (cases "i = 8")
    case True
    have l: "length s + 1 + length (pack 1 (set_bit_of 0 0 v) vs) < 2 ^ 31"
      using 2(4) True by simp
    then have u: "usize_add (length s) 1 = length (s @ [c])"
      by (simp add: usize_add_exact usize_max_def)
    have "write_boolean_bit_at (length (s @ [c])) 0 v (out_at order ((s @ [c]) @ [0])) =
        Inr ((), out_at order ((s @ [c]) @ [set_bit_of 0 0 v]))"
      using l pack_pos [of 1 "set_bit_of 0 0 v" vs] by (intro write_bit_last) (simp_all del: length_greater_0_conv)
    moreover have "write_bits (length (s @ [c])) 1 vs (out_at order ((s @ [c]) @ [set_bit_of 0 0 v])) =
        Inr ((), out_at order ((s @ [c]) @ pack 1 (set_bit_of 0 0 v) vs))"
      using 2(1) [OF True, of "s @ [c]"] l by simp
    ultimately show ?thesis
      using True u write_zero_one [of order "s @ [c]"] by simp
  next
    case False
    have "write_boolean_bit_at (length s) i v (out_at order (s @ [c])) =
        Inr ((), out_at order (s @ [set_bit_of c i v]))"
      using 2(3,4) False pack_pos [of "i + 1" "set_bit_of c i v" vs] by (intro write_bit_last) (simp_all del: length_greater_0_conv)
    moreover have "write_bits (length s) (i + 1) vs (out_at order (s @ [set_bit_of c i v])) =
        Inr ((), out_at order (s @ pack (i + 1) (set_bit_of c i v) vs))"
      using 2(2) [OF False, of s] 2(3,4) False by simp
    ultimately show ?thesis
      using False by simp
  qed
qed

lemma decodes_bits:
  assumes "i \<le> 8" "pack i c vs = b # bs1"
  shows "(\<forall>j<i. bit b j = bit c j) \<and> decodes order (read_bits (length vs) i b) bs1 vs"
  using assms
proof (induction i c vs arbitrary: b bs1 rule: pack.induct)
  case (1 i c)
  then show ?case using decodes_return by (simp del: sreturn_apply)
next
  case (2 i c v vs)
  show ?case
  proof (cases "i = 8")
    case True
    obtain b' bs1' where p: "pack 1 (set_bit_of 0 0 v) vs = b' # bs1'"
      by (metis pack_not_Nil list.exhaust)
    then have b: "b = c" "bs1 = b' # bs1'"
      using 2(4) True by simp_all
    have ih: "\<forall>j<1. bit b' j = bit (set_bit_of 0 0 v) j" "decodes order (read_bits (length vs) 1 b') bs1' vs"
      using 2(1) [OF True _ p] by simp_all
    then have "bit b' 0 = v"
      by (simp add: bit_set_bit_of)
    then have "decodes order (sbind (read_bits (length vs) 1 b') (\<lambda>vs. sreturn (bit b' 0 # vs))) bs1' (v # vs)"
      using decodes_map [OF ih(2), of "\<lambda>vs. bit b' 0 # vs"] by simp
    from decodes_bind [where k = "\<lambda>b. sbind (read_bits (length vs) 1 b) (\<lambda>vs. sreturn (bit b 0 # vs))",
        OF decodes_u8 this]
    show ?thesis
      using True b by simp
  next
    case False
    then have p: "pack (i + 1) (set_bit_of c i v) vs = b # bs1" and i: "i < 8"
      using 2(3,4) by simp_all
    have ih: "\<forall>j<i + 1. bit b j = bit (set_bit_of c i v) j" "decodes order (read_bits (length vs) (i + 1) b) bs1 vs"
      using 2(2) [OF False _ p] i by simp_all
    then have v: "bit b i = v" and low: "\<forall>j<i. bit b j = bit c j"
      using i by (auto simp: bit_set_bit_of)
    have "decodes order (sbind (read_bits (length vs) (i + 1) b) (\<lambda>vs. sreturn (bit b i # vs))) bs1 (bit b i # vs)"
      by (rule decodes_map [OF ih(2)])
    then have "decodes order (read_bits (length (v # vs)) i b) bs1 (v # vs)"
      unfolding list.size(4) add_Suc_right add_0_right read_bits.simps(2) v using False by (simp only: if_False)
    then show ?thesis
      using low by blast
  qed
qed

definition bool_vector_bytes :: "byte_order \<Rightarrow> bool list \<Rightarrow> byte list" where
  "bool_vector_bytes order vs =
    order_bytes order 4 (of_nat (length vs) :: i32) @ (if vs = [] then [] else pack 0 0 vs)"

lemma length_pack: "i \<le> 8 \<Longrightarrow> length vs + i \<le> 8 * length (pack i c vs)"
  by (induction i c vs rule: pack.induct) auto

lemma appends_bool_vector: "appends order (write_bool_vector vs) (bool_vector_bytes order vs)"
  unfolding appends_def
proof (intro allI impI)
  fix s :: "byte list"
  assume l: "length s + length (bool_vector_bytes order vs) < 2 ^ 31"
  let ?h = "order_bytes order 4 (of_nat (length vs) :: i32)"
  have h: "write_int32 (of_nat (length vs)) (out_at order s) = Inr ((), out_at order (s @ ?h))"
    using l by (intro appendsD [OF appends_int32]) (simp add: bool_vector_bytes_def)
  show "write_bool_vector vs (out_at order s) = Inr ((), out_at order (s @ bool_vector_bytes order vs))"
  proof (cases "vs = []")
    case True
    then show ?thesis
      using h by (simp add: write_bool_vector_def out_position_at bool_vector_bytes_def)
  next
    case False
    then have "write_bits (length (s @ ?h)) 0 vs (out_at order ((s @ ?h) @ [0])) =
        Inr ((), out_at order ((s @ ?h) @ pack 0 0 vs))"
      using l by (intro write_bits_pack) (simp_all add: bool_vector_bytes_def)
    then show ?thesis
      using h False write_zero_one [of order "s @ ?h"]
      by (simp add: write_bool_vector_def out_position_at bool_vector_bytes_def)
  qed
qed

lemma decodes_bool_vector: 
  assumes "length vs < 2 ^ 31"
  shows "decodes order read_bool_vector (bool_vector_bytes order vs) vs"
  unfolding read_bool_vector_def bool_vector_bytes_def
proof (rule decodes_bind [OF int32.decodes_fetch [OF TrueI]], cases "vs = []")
  case True
  then show "decodes order (if of_nat (length vs) = (0 :: i32) then sreturn []
      else if sint (of_nat (length vs) :: i32) < 0 then sfail LengthError
      else sbind read_u8 (read_bits (unat (of_nat (length vs) :: i32)) 0)) (if vs = [] then [] else pack 0 0 vs) vs"
    using decodes_return by (simp del: sreturn_apply)
next
  case False
  obtain b bs1 where p: "pack 0 0 vs = b # bs1"
    by (metis pack_not_Nil list.exhaust)
  have "decodes order (sbind read_u8 (read_bits (length vs) 0)) ([b] @ bs1) vs"
    using decodes_bits [OF _ p, of order] by (intro decodes_bind [OF decodes_u8]) simp
  then show "decodes order (if of_nat (length vs) = (0 :: i32) then sreturn []
      else if sint (of_nat (length vs) :: i32) < 0 then sfail LengthError
      else sbind read_u8 (read_bits (unat (of_nat (length vs) :: i32)) 0)) (if vs = [] then [] else pack 0 0 vs) vs"
    using False p assms of_nat_zero_iff [OF assms] by (simp add: sint_of_nat unat_of_nat_small)
qed

section \<open>The table of offsets\<close>

definition offset_bytes :: "byte_order \<Rightarrow> nat \<Rightarrow> i32 \<Rightarrow> byte list" where
  "offset_bytes order w off =
    (if w = 1 then [ucast off] else if w = 2 then order_bytes order 2 (ucast off :: i16) else order_bytes order 4 off)"

definition table_bytes :: "byte_order \<Rightarrow> nat \<Rightarrow> i32 list \<Rightarrow> byte list" where
  "table_bytes order n offs = concat (map (offset_bytes order (offset_width (int n))) offs)"

lemma offset_width_cases: "offset_width n = 1 \<or> offset_width n = 2 \<or> offset_width n = 4"
  by (simp add: offset_width_def)

lemma length_offset_bytes: "length (offset_bytes order (offset_width n) off) = offset_width n"
  by (auto simp: offset_bytes_def offset_width_def)

lemma appends_offsets: "appends order (write_offsets n offs) (table_bytes order n offs)"
proof -
  let ?w = "offset_width (int n)"
  have "appends order (siter f offs) (table_bytes order n offs)"
    if "\<And>off. appends order (f off) (offset_bytes order ?w off)" for f
    unfolding table_bytes_def using that by (intro appends_iter)
  then show ?thesis
    using offset_width_cases [of "int n"]
    by (auto simp: write_offsets_def offset_bytes_def int8.appends_put int16.appends_put appends_int32)
qed

text \<open>An offset fits when it is the mark of an absent field or smaller than the length of the data.\<close>

definition offset_fits :: "nat \<Rightarrow> i32 \<Rightarrow> bool" where
  "offset_fits n off \<longleftrightarrow> off = - 1 \<or> unat off < n"

lemma ucast_small:
  assumes "unat (off :: i32) < 2 ^ LENGTH('a) - 1" "LENGTH('a) < 32"
  shows "(ucast (ucast off :: 'a::len word) :: i32) = off" "(ucast off :: 'a word) \<noteq> - 1"
proof -
  have u: "unat (ucast off :: 'a word) = unat off"
    using assms(1) by (simp add: unsigned_ucast_eq unsigned_take_bit_eq take_bit_nat_eq_self)
  have "unat (ucast (ucast off :: 'a word) :: i32) = unat off"
    using assms u unat_less_pow [of off]
    by (simp add: unsigned_ucast_eq unsigned_take_bit_eq take_bit_nat_eq_self)
  then show "(ucast (ucast off :: 'a word) :: i32) = off"
    by (simp add: word_unat_eq_iff)
  show "(ucast off :: 'a word) \<noteq> - 1"
  proof
    assume "(ucast off :: 'a word) = - 1"
    then have "unat off = 2 ^ LENGTH('a) - 1"
      using u by (simp add: unsigned_minus_1_eq_mask mask_eq_exp_minus_1)
    then show False using assms(1) by simp
  qed
qed

lemma ucast_minus_one: "(ucast (- 1 :: i32) :: byte) = - 1" "(ucast (- 1 :: i32) :: i16) = - 1"
  by (rule bit_word_eqI, simp add: bit_simps)+

lemma concat_fixed_width:
  assumes "\<And>x. x \<in> set xs \<Longrightarrow> length (f x) = w"
  shows "length (concat (map f xs)) = w * length xs"
    and "i < length xs \<Longrightarrow> concat (map f xs) =
      concat (map f (take i xs)) @ f (xs ! i) @ concat (map f (drop (Suc i) xs))"
proof -
  show "length (concat (map f xs)) = w * length xs"
    using assms by (induction xs) simp_all
  assume "i < length xs"
  then have "xs = take i xs @ xs ! i # drop (Suc i) xs"
    by (rule id_take_nth_drop)
  then show "concat (map f xs) = concat (map f (take i xs)) @ f (xs ! i) @ concat (map f (drop (Suc i) xs))"
    by (metis concat.simps(2) concat_append list.simps(9) map_append)
qed

lemma length_table: "length (table_bytes order n offs) = offset_width (int n) * length offs"
  unfolding table_bytes_def by (rule concat_fixed_width) (rule length_offset_bytes)

lemma read_word_at_mid:
  assumes "LENGTH('a) = 8 * n" "length (xs @ order_bytes order n (w :: 'a::len word) @ ys) < 2 ^ 31"
  shows "read_word_at n (of_nat (length xs)) (in_at order (xs @ order_bytes order n w @ ys) q) =
    Inr (w, in_at order (xs @ order_bytes order n w @ ys) q)"
proof -
  let ?b = "xs @ order_bytes order n w @ ys"
  have b: "length xs + n \<le> length ?b" by simp
  show ?thesis
    using assms in_defs(2,3) [OF b assms(2), of order q]
    by (simp add: read_word_at_def read_word_as_def slice_mid) (simp add: in_at_def)
qed

lemma read_u8_at_mid:
  assumes "length (xs @ [b] @ ys) < 2 ^ 31"
  shows "read_u8_at (of_nat (length xs)) (in_at order (xs @ [b] @ ys) q) = Inr (b, in_at order (xs @ [b] @ ys) q)"
proof -
  have b: "length xs + 1 \<le> length (xs @ [b] @ ys)" by simp
  show ?thesis
    using in_defs(2,3) [OF b assms, of order q] slice_mid [of 1 "[b]" xs ys] by (simp add: read_u8_at_def)
qed

lemma get_offset_table:
  assumes fits: "offset_fits n (offs ! i)" and i: "i < length offs"
    and len: "length (xs @ table_bytes order n offs @ ys) < 2 ^ 31"
  shows "get_offset (offset_width (int n)) (of_nat (length xs)) (of_nat i)
      (in_at order (xs @ table_bytes order n offs @ ys) q) =
    Inr (offs ! i, in_at order (xs @ table_bytes order n offs @ ys) q)"
proof -
  let ?w = "offset_width (int n)" and ?o = "offs ! i"
  let ?f = "offset_bytes order ?w"
  define pre where "pre = xs @ concat (map ?f (take i offs))"
  define post where "post = concat (map ?f (drop (Suc i) offs)) @ ys"
  have split: "xs @ table_bytes order n offs @ ys = pre @ ?f ?o @ post"
    unfolding pre_def post_def table_bytes_def
    by (subst concat_fixed_width(2) [where w = ?w and i = i, OF length_offset_bytes i]) simp
  have lp: "length pre = length xs + i * ?w"
    unfolding pre_def using concat_fixed_width(1) [of "take i offs" ?f ?w, OF length_offset_bytes] i by simp
  have lb: "length xs + i * ?w + ?w + length post < 2 ^ 31"
    using len unfolding split by (simp add: lp length_offset_bytes)
  then have "length xs < 2 ^ 31" "i < 2 ^ 31"
    using len i length_table [of order n offs] offset_width_cases [of "int n"] by auto
  then have u: "usize_add (unat (of_nat (length xs) :: i32)) (unat (of_nat i :: i32) * ?w) = length pre"
    using lb by (simp only: unat_of_nat_small lp) (rule usize_add_exact, simp add: usize_max_def)
  have l2: "length (pre @ ?f ?o @ post) < 2 ^ 31"
    using len split by simp
  consider (a) "?w = 1" "n < 255" | (b) "?w = 2" "n < 65535" | (c) "?w = 4"
    by (cases "n < 255"; cases "n < 65535") (simp_all add: offset_width_def)
  then show ?thesis
  proof cases
    case a
    then have "(if (ucast ?o :: byte) = - 1 then - 1 else ucast (ucast ?o :: byte)) = ?o"
      using fits ucast_small [where 'a = 8, of ?o] by (auto simp: offset_fits_def ucast_minus_one)
    moreover have "read_u8_at (of_nat (length pre)) (in_at order (pre @ [ucast ?o] @ post) q) =
        Inr (ucast ?o, in_at order (pre @ [ucast ?o] @ post) q)"
      using l2 a by (intro read_u8_at_mid) (simp add: offset_bytes_def)
    ultimately show ?thesis
      unfolding split get_offset_def u Let_def using a by (simp add: offset_bytes_def)
  next
    case b
    then have "(if (ucast ?o :: i16) = - 1 then - 1 else ucast (ucast ?o :: i16)) = ?o"
      using fits ucast_small [where 'a = 16, of ?o] by (auto simp: offset_fits_def ucast_minus_one)
    moreover have "read_word_at 2 (of_nat (length pre)) (in_at order (pre @ order_bytes order 2 (ucast ?o :: i16) @ post) q) =
        Inr (ucast ?o :: i16, in_at order (pre @ order_bytes order 2 (ucast ?o :: i16) @ post) q)"
      using l2 b by (intro read_word_at_mid) (simp_all add: offset_bytes_def)
    ultimately show ?thesis
      unfolding split get_offset_def u Let_def using b by (simp add: offset_bytes_def)
  next
    case c
    have "read_word_at 4 (of_nat (length pre)) (in_at order (pre @ order_bytes order 4 ?o @ post) q) =
        Inr (?o, in_at order (pre @ order_bytes order 4 ?o @ post) q)"
      using l2 c by (intro read_word_at_mid) (simp_all add: offset_bytes_def)
    then show ?thesis
      unfolding split get_offset_def u Let_def using c by (simp add: offset_bytes_def)
  qed
qed

section \<open>Arrays of items\<close>

fun chunk :: "byte list option \<Rightarrow> byte list" where
  "chunk None = []"
| "chunk (Some b) = b"

definition chunks :: "byte list option list \<Rightarrow> byte list" where
  "chunks bss = concat (map chunk bss)"

fun chunk_offsets :: "nat \<Rightarrow> byte list option list \<Rightarrow> i32 list" where
  "chunk_offsets p [] = []"
| "chunk_offsets p (None # bss) = - 1 # chunk_offsets p bss"
| "chunk_offsets p (Some b # bss) = of_nat p # chunk_offsets (p + length b) bss"

lemma length_chunk_offsets [simp]: "length (chunk_offsets p bss) = length bss"
  by (induction p bss rule: chunk_offsets.induct) simp_all

lemma chunk_offsets_append: "chunk_offsets p (as @ bs) = chunk_offsets p as @ chunk_offsets (p + length (chunks as)) bs"
  by (induction p as rule: chunk_offsets.induct) (simp_all add: chunks_def add.assoc)

fun chunk_of :: "byte_order \<Rightarrow> ('a \<Rightarrow> unit dout) \<Rightarrow> 'a option \<Rightarrow> byte list option \<Rightarrow> bool" where
  "chunk_of order f None None \<longleftrightarrow> True"
| "chunk_of order f (Some v) (Some b) \<longleftrightarrow> b \<noteq> [] \<and> appends order (f v) b"
| "chunk_of order f _ _ \<longleftrightarrow> False"

lemma write_items_chunks:
  assumes "list_all2 (chunk_of order f) vs bss" "length s + length (chunks bss) < 2 ^ 31" "offset \<le> length s"
  shows "write_items f offset vs (out_at order s) =
    Inr (chunk_offsets (length s - offset) bss, out_at order (s @ chunks bss))"
  using assms
proof (induction vs bss arbitrary: s rule: list_all2_induct)
  case Nil
  then show ?case by (simp add: chunks_def)
next
  case (Cons v vs b bss)
  show ?case
  proof (cases v)
    case None
    then have "b = None"
      using Cons(1) by (cases b) simp_all
    then show ?thesis
      using None Cons(3) [of s] Cons(4,5) by (simp add: chunks_def)
  next
    case (Some x)
    then obtain c where b: "b = Some c" "c \<noteq> []" "appends order (f x) c"
      using Cons(1) by (cases b) simp_all
    have l: "length s + length c + length (chunks bss) < 2 ^ 31"
      using Cons(4) b by (simp add: chunks_def)
    then have "f x (out_at order s) = Inr ((), out_at order (s @ c))"
      by (intro appendsD [OF b(3)]) simp
    moreover have "write_items f offset vs (out_at order (s @ c)) =
        Inr (chunk_offsets (length (s @ c) - offset) bss, out_at order ((s @ c) @ chunks bss))"
      using l Cons(5) by (intro Cons(3)) simp_all
    moreover have "usize_sub (length s) offset = length s - offset"
      using l Cons(5) by (intro usize_sub_le) (simp_all add: usize_max_def)
    ultimately show ?thesis
      using Some b Cons(5) by (simp add: out_position_at chunks_def)
  qed
qed

lemma write_at_mid:
  assumes "n = length bs" "0 < n" "length (s @ bs @ t) < 2 ^ 31"
  shows "write_at n (length s) v (out_at order (s @ bs @ t)) = Inr ((), out_at order (s @ order_bytes order n v @ t))"
proof -
  have "check_available_out (length s) (of_nat n) (out_at order (s @ bs @ t)) = Inr ((), out_at order (s @ bs @ t))"
    using check_available_out_at [of "s @ bs @ t" "length s" n order] assms by simp
  then show ?thesis
    using assms by (simp add: write_at_def unless_no_write_def store_at_def out_at_def overwrite_def)
qed

definition item_array_bytes :: "byte_order \<Rightarrow> byte list option list \<Rightarrow> byte list" where
  "item_array_bytes order bss = order_bytes order 4 (of_nat (length (chunks bss)) :: i32) @
    order_bytes order 4 (of_nat (length bss) :: i32) @ chunks bss @
    table_bytes order (length (chunks bss)) (chunk_offsets 0 bss)"

lemma appends_item_array:
  assumes "list_all2 (chunk_of order f) vs bss"
  shows "appends order (write_item_array f vs) (item_array_bytes order bss)"
  unfolding appends_def
proof (intro allI impI)
  fix s :: "byte list"
  let ?n = "length (chunks bss)" and ?c = "order_bytes order 4 (of_nat (length bss) :: i32)"
  let ?t = "table_bytes order (length (chunks bss)) (chunk_offsets 0 bss)"
  let ?z = "s @ replicate 4 0 @ ?c"
  assume "length s + length (item_array_bytes order bss) < 2 ^ 31"
  then have l: "length s + 8 + ?n + length ?t < 2 ^ 31"
    by (simp add: item_array_bytes_def)
  have lv: "length vs = length bss"
    using assms by (rule list_all2_lengthD)
  have "write_zero_bytes 4 (out_at order s) = Inr ((), out_at order (s @ replicate 4 0))"
    by (simp add: write_zero_bytes_def out_at_def)
  moreover have "write_int32 (of_nat (length bss)) (out_at order (s @ replicate 4 0)) = Inr ((), out_at order ?z)"
    using appendsD [OF appends_int32, of "s @ replicate 4 0"] l by simp
  moreover have "write_items f (length ?z) vs (out_at order ?z) =
      Inr (chunk_offsets 0 bss, out_at order (?z @ chunks bss))"
    using write_items_chunks [OF assms, of ?z "length ?z"] l by simp
  moreover have "usize_sub (length (?z @ chunks bss)) (length ?z) = ?n"
    using l usize_sub_le [of "length (?z @ chunks bss)" "length ?z"] by (simp add: usize_max_def)
  moreover have "write_at 4 (length s) (of_nat ?n :: i32) (out_at order (s @ replicate 4 0 @ ?c @ chunks bss)) =
      Inr ((), out_at order (s @ order_bytes order 4 (of_nat ?n :: i32) @ ?c @ chunks bss))"
    using l by (intro write_at_mid) simp_all
  moreover have "write_offsets ?n (chunk_offsets 0 bss) (out_at order (s @ order_bytes order 4 (of_nat ?n :: i32) @ ?c @ chunks bss)) =
      Inr ((), out_at order ((s @ order_bytes order 4 (of_nat ?n :: i32) @ ?c @ chunks bss) @ ?t))"
    using l by (intro appendsD [OF appends_offsets]) simp
  moreover have "i32_to_usize (of_nat ?n) = ?n"
    using l by (intro i32_to_usize_of_nat) simp
  ultimately show "write_item_array f vs (out_at order s) = Inr ((), out_at order (s @ item_array_bytes order bss))"
    by (simp add: write_item_array_def out_position_at lv item_array_bytes_def)
qed

lemma loads_bind:
  assumes r: "decodes order r bs v" and k: "loads order (k v) cs u"
  shows "loads order (sbind r k) (bs @ cs) u"
  unfolding loads_def
proof (intro allI impI)
  fix xs ys :: "byte list"
  assume "length xs + length (bs @ cs) + length ys < 2 ^ 31"
  then have b: "length xs + length bs + length (cs @ ys) < 2 ^ 31"
    and c: "length (xs @ bs) + length cs + length ys < 2 ^ 31"
    by simp_all
  obtain p where "p \<le> length (xs @ bs) + length cs + length ys"
    "k v (in_at order ((xs @ bs) @ cs @ ys) (length (xs @ bs))) = Inr (u, in_at order ((xs @ bs) @ cs @ ys) p)"
    by (rule loadsD [OF k c])
  then show "\<exists>p\<le>length xs + length (bs @ cs) + length ys.
      sbind r k (in_at order (xs @ (bs @ cs) @ ys) (length xs)) = Inr (u, in_at order (xs @ (bs @ cs) @ ys) p)"
    using decodesD [OF r b] by (auto simp: add.assoc)
qed

fun chunk_view :: "byte_order \<Rightarrow> 'a din \<Rightarrow> byte list option \<Rightarrow> 'a option \<Rightarrow> bool" where
  "chunk_view order r None None \<longleftrightarrow> True"
| "chunk_view order r (Some b) (Some v) \<longleftrightarrow> b \<noteq> [] \<and> loads order r b v"
| "chunk_view order r _ _ \<longleftrightarrow> False"

lemma read_items_chunks:
  assumes buf: "buf = xs @ chunks (as @ bs) @ table_bytes order (length (chunks (as @ bs))) (chunk_offsets 0 (as @ bs)) @ ys"
    and len: "length buf < 2 ^ 31" and q: "q \<le> length buf"
    and all: "list_all2 (chunk_view order r) bs vs"
  shows "\<exists>q' \<le> length buf. read_items r (offset_width (int (length (chunks (as @ bs)))))
      (of_nat (length xs + length (chunks (as @ bs)))) (of_nat (length xs)) (length as) (length bs) (in_at order buf q) =
    Inr (vs, in_at order buf q')"
  using assms
proof (induction bs arbitrary: as vs q)
  case Nil
  then show ?case by auto
next
  case (Cons b bs)
  let ?n = "length (chunks (as @ b # bs))" and ?offs = "chunk_offsets 0 (as @ b # bs)"
  obtain v vs' where vs: "vs = v # vs'" "chunk_view order r b v" "list_all2 (chunk_view order r) bs vs'"
    using Cons.prems(4) by (auto simp: list_all2_Cons1)
  have rest: "\<exists>q''\<le>length buf. read_items r (offset_width (int ?n)) (of_nat (length xs + ?n)) (of_nat (length xs))
      (length as + 1) (length bs) (in_at order buf q') = Inr (vs', in_at order buf q'')" if "q' \<le> length buf" for q'
    using Cons.IH [of "as @ [b]" q' vs'] Cons.prems(1,2) that vs(3) by simp
  have get: "get_offset (offset_width (int ?n)) (of_nat (length xs + ?n)) (of_nat (length as)) (in_at order buf q) =
      Inr (?offs ! length as, in_at order buf q)" if "offset_fits ?n (?offs ! length as)"
    using get_offset_table [OF that, of "xs @ chunks (as @ b # bs)" order ys q] Cons.prems(1,2) by simp
  have off: "?offs ! length as = hd (chunk_offsets (length (chunks as)) (b # bs))"
    by (simp add: chunk_offsets_append nth_append) (cases b; simp)
  show ?case
  proof (cases b)
    case None
    then have "?offs ! length as = - 1" "v = None"
      using off vs(2) by (cases v; simp)+
    moreover from this have "offset_fits ?n (?offs ! length as)"
      by (simp add: offset_fits_def)
    ultimately show ?thesis
      using get rest [OF Cons.prems(3)] vs(1) by auto
  next
    case (Some c)
    then obtain x where v: "v = Some x" "c \<noteq> []" "loads order r c x"
      using vs(2) by (cases v) simp_all
    define p where "p = length (chunks as)"
    have n: "?n = p + length c + length (chunks bs)"
      using Some by (simp add: p_def chunks_def)
    have lb: "length xs + ?n \<le> length buf"
      using Cons.prems(1) by simp
    have p: "p < ?n" "p < 2 ^ 31" "length xs + p < 2 ^ 31" "length xs + p \<le> length buf"
      using n v(2) lb Cons.prems(2) by (simp_all flip: length_greater_0_conv)
    have o: "?offs ! length as = of_nat p"
      using off Some by (simp add: p_def)
    have "offset_fits ?n (?offs ! length as)"
      using o p by (simp add: offset_fits_def unat_of_nat_small)
    note g = get [OF this]
    have nn: "(of_nat p :: i32) \<noteq> - 1"
      using of_nat_not_null [OF p(2)] by (simp add: NULL_ARRAY_def)
    have bb: "buf = (xs @ chunks as) @ c @ (chunks bs @ table_bytes order ?n ?offs @ ys)"
      using Cons.prems(1) Some by (simp add: chunks_def)
    then have "length (xs @ chunks as) + length c + length (chunks bs @ table_bytes order ?n ?offs @ ys) = length buf"
      by simp
    then obtain q1 where q1: "q1 \<le> length buf" "r (in_at order buf (length xs + p)) = Inr (x, in_at order buf q1)"
      using loadsD [OF v(3), of "xs @ chunks as" "chunks bs @ table_bytes order ?n ?offs @ ys"] Cons.prems(2) bb
      by (metis length_append p_def)
    have "set_in_position (of_nat (length xs + p)) (in_at order buf q) = Inr ((), in_at order buf (length xs + p))"
      using p Cons.prems by (intro set_in_position_in)
    moreover have "add_int (of_nat p) (of_nat (length xs)) (in_at order buf q) =
        Inr (of_nat (length xs + p), in_at order buf q)"
      using add_int_in [of p "length xs" "in_at order buf q"] p(3) by (simp add: add.commute)
    moreover obtain q2 where "q2 \<le> length buf" "read_items r (offset_width (int ?n)) (of_nat (length xs + ?n))
        (of_nat (length xs)) (length as + 1) (length bs) (in_at order buf q1) = Inr (vs', in_at order buf q2)"
      using rest [OF q1(1)] by blast
    ultimately show ?thesis
      using g o nn q1 vs(1) v(1) by (intro exI [of _ q2]) (simp add: list.size)
  qed
qed

lemma loads_item_array:
  assumes "list_all2 (chunk_view order r) bss vs"
  shows "loads order (read_item_array r) (item_array_bytes order bss) vs"
proof -
  let ?n = "length (chunks bss)"
  let ?t = "table_bytes order ?n (chunk_offsets 0 bss)"
  have tail: "loads order (sbind in_position (\<lambda>data_start.
      if sint (of_nat (length bss) :: i32) < 0 then sfail LengthError
      else sbind (add_int data_start (of_nat ?n)) (\<lambda>offsets_position.
        read_items r (offset_width (sint (of_nat ?n :: i32))) offsets_position data_start 0
          (unat (of_nat (length bss) :: i32))))) (chunks bss @ ?t) vs"
    unfolding loads_def
  proof (intro allI impI)
    fix xs ys :: "byte list"
    let ?buf = "xs @ (chunks bss @ ?t) @ ys"
    assume l: "length xs + length (chunks bss @ ?t) + length ys < 2 ^ 31"
    have "length bss \<le> length ?t"
      using offset_width_cases [of "int ?n"] by (auto simp: length_table)
    then have s: "?n < 2 ^ 31" "length bss < 2 ^ 31" "length xs + ?n < 2 ^ 31" "length ?buf < 2 ^ 31"
      using l by simp_all
    obtain q where q: "q \<le> length ?buf" "read_items r (offset_width (int ?n)) (of_nat (length xs + ?n))
        (of_nat (length xs)) 0 (length bss) (in_at order ?buf (length xs)) = Inr (vs, in_at order ?buf q)"
      using read_items_chunks [of ?buf xs "[]" bss order ys "length xs" r vs] assms s by auto
    show "\<exists>p\<le>length xs + length (chunks bss @ ?t) + length ys. sbind in_position (\<lambda>data_start.
      if sint (of_nat (length bss) :: i32) < 0 then sfail LengthError
      else sbind (add_int data_start (of_nat ?n)) (\<lambda>offsets_position.
        read_items r (offset_width (sint (of_nat ?n :: i32))) offsets_position data_start 0
          (unat (of_nat (length bss) :: i32)))) (in_at order ?buf (length xs)) = Inr (vs, in_at order ?buf p)"
      using q s add_int_in [OF s(3)]
      by (intro exI [of _ q]) (simp add: in_position_in sint_of_nat unat_of_nat_small)
  qed
  show ?thesis
    unfolding read_item_array_def item_array_bytes_def
    by (intro loads_bind [OF int32.decodes_fetch [OF TrueI]] tail)
qed

section \<open>Items\<close>

text \<open>An upper bound of the bytes a value takes; a nested record is given by its own bound.\<close>

fun item_size :: "cpp_int_lib \<Rightarrow> nat item \<Rightarrow> nat" where
  "item_size L (I_bool v) = 1"
| "item_size L (I_int8 v) = 1"
| "item_size L (I_int16 v) = 2"
| "item_size L (I_int32 v) = 4"
| "item_size L (I_int64 v) = 8"
| "item_size L (I_float32 v) = 4"
| "item_size L (I_float64 v) = 8"
| "item_size L (I_string v) = 4 + length v"
| "item_size L (I_decimal v) = 8 + length (cpp_int_bytes_of L (unscaled v))"
| "item_size L (I_time v) = 7"
| "item_size L (I_date v) = 6"
| "item_size L (I_timestamp v) = 13"
| "item_size L (I_timestamp_tz v) = 17"
| "item_size L (I_compact n) = n"

fun item_ok :: "cpp_int_lib \<Rightarrow> ('r \<Rightarrow> bool) \<Rightarrow> 'r item \<Rightarrow> bool" where
  "item_ok L nested (I_decimal v) \<longleftrightarrow> decimal_ok L v"
| "item_ok L nested (I_compact r) \<longleftrightarrow> nested r"
| "item_ok L nested _ \<longleftrightarrow> True"

definition nested_codes ::
  "byte_order \<Rightarrow> ('r \<Rightarrow> unit dout) \<Rightarrow> 's din \<Rightarrow> ('r \<Rightarrow> 's) \<Rightarrow> ('r \<Rightarrow> nat) \<Rightarrow> 'r \<Rightarrow> bool" where
  "nested_codes order wr rd view sz r \<longleftrightarrow>
    (\<exists>bs. bs \<noteq> [] \<and> length bs \<le> sz r \<and> appends order (wr r) bs \<and> decodes order rd bs (view r))"

lemma length_value_bytes:
  "length (string_bytes order v) = 4 + length v"
  "length (decimal_bytes L order d) = 8 + length (cpp_int_bytes_of L (unscaled d))"
  "length (local_time_bytes order t) = 7" "length (local_date_bytes order u) = 6"
  "length (local_date_time_bytes order w) = 13" "length (offset_date_time_bytes order z) = 17"
  by (simp_all add: string_bytes_def decimal_bytes_def vector_bytes_octets local_time_bytes_def
      local_date_bytes_def local_date_time_bytes_def offset_date_time_bytes_def)

lemma codes_intro:
  assumes "appends order f bs" "decodes order r bs v" "0 < length bs" "length bs \<le> n"
  shows "\<exists>bs. bs \<noteq> [] \<and> length bs \<le> n \<and> appends order f bs \<and> decodes order (sbind r (\<lambda>v. sreturn (g v))) bs (g v)"
  using assms decodes_map [OF assms(2), of g] by auto

lemma item_codes:
  assumes "item_ok L (nested_codes order wr rd view sz) v"
  shows "\<exists>bs. bs \<noteq> [] \<and> length bs \<le> item_size L (map_item sz v) \<and>
    appends order (write_item L wr v) bs \<and> decodes order (read_item L rd (item_type_of v)) bs (map_item view v)"
proof (cases v)
  case (I_bool x)
  then show ?thesis
    using codes_intro [OF bool8.appends_put [OF TrueI, where v = x and order = order]
        bool8.decodes_fetch [OF TrueI, where v = x and order = order], where n = 1 and g = I_bool] by simp
next
  case (I_int8 x)
  then show ?thesis
    using codes_intro [OF int8.appends_put [OF TrueI, where v = x and order = order]
        int8.decodes_fetch [OF TrueI, where v = x and order = order], where n = 1 and g = I_int8] by simp
next
  case (I_int16 x)
  then show ?thesis
    using codes_intro [OF int16.appends_put [OF TrueI, where v = x and order = order]
        int16.decodes_fetch [OF TrueI, where v = x and order = order], where n = 2 and g = I_int16] by simp
next
  case (I_int32 x)
  then show ?thesis
    using codes_intro [OF int32.appends_put [OF TrueI, where v = x and order = order]
        int32.decodes_fetch [OF TrueI, where v = x and order = order], where n = 4 and g = I_int32] by simp
next
  case (I_int64 x)
  then show ?thesis
    using codes_intro [OF int64.appends_put [OF TrueI, where v = x and order = order]
        int64.decodes_fetch [OF TrueI, where v = x and order = order], where n = 8 and g = I_int64] by simp
next
  case (I_float32 x)
  then show ?thesis
    using codes_intro [OF float.appends_put [OF TrueI, where v = x and order = order]
        float.decodes_fetch [OF TrueI, where v = x and order = order], where n = 4 and g = I_float32] by simp
next
  case (I_float64 x)
  then show ?thesis
    using codes_intro [OF double.appends_put [OF TrueI, where v = x and order = order]
        double.decodes_fetch [OF TrueI, where v = x and order = order], where n = 8 and g = I_float64] by simp
next
  case (I_string x)
  then show ?thesis
    using codes_intro [OF str.appends_put [OF TrueI, where v = x and order = order]
        str.decodes_fetch [OF TrueI, where v = x and order = order], where n = "4 + length x" and g = I_string]
    by (simp add: length_value_bytes)
next
  case (I_decimal x)
  then show ?thesis
    using codes_intro [OF decimal.appends_put [where L = L and v = x and order = order]
        decimal.decodes_fetch [where L = L and v = x and order = order],
        where n = "8 + length (cpp_int_bytes_of L (unscaled x))" and g = I_decimal] assms
    by (simp add: length_value_bytes)
next
  case (I_time x)
  then show ?thesis
    using codes_intro [OF local_time.appends_put [OF TrueI, where v = x and order = order]
        local_time.decodes_fetch [OF TrueI, where v = x and order = order], where n = 7 and g = I_time]
    by (simp add: length_value_bytes)
next
  case (I_date x)
  then show ?thesis
    using codes_intro [OF local_date.appends_put [OF TrueI, where v = x and order = order]
        local_date.decodes_fetch [OF TrueI, where v = x and order = order], where n = 6 and g = I_date]
    by (simp add: length_value_bytes)
next
  case (I_timestamp x)
  then show ?thesis
    using codes_intro [OF local_date_time.appends_put [OF TrueI, where v = x and order = order]
        local_date_time.decodes_fetch [OF TrueI, where v = x and order = order], where n = 13 and g = I_timestamp]
    by (simp add: length_value_bytes)
next
  case (I_timestamp_tz x)
  then show ?thesis
    using codes_intro [OF offset_date_time.appends_put [OF TrueI, where v = x and order = order]
        offset_date_time.decodes_fetch [OF TrueI, where v = x and order = order], where n = 17 and g = I_timestamp_tz]
    by (simp add: length_value_bytes)
next
  case (I_compact r)
  then obtain bs where "bs \<noteq> []" "length bs \<le> sz r" "appends order (wr r) bs" "decodes order rd bs (view r)"
    using assms by (auto simp: nested_codes_def)
  then show ?thesis
    using I_compact decodes_map [of order rd bs "view r" I_compact] by auto
qed

section \<open>Arrays as values\<close>

text \<open>What an array is read back as: one without elements is lost, unless it is of truth values.\<close>

definition array_view :: "item_type \<Rightarrow> 'a list \<Rightarrow> 'a list option" where
  "array_view t vs = (if t \<noteq> IT_bool \<and> vs = [] then None else Some vs)"

lemma length_pack_le: "i \<le> 8 \<Longrightarrow> length (pack i c vs) \<le> length vs + 1"
  by (induction i c vs rule: pack.induct) auto

lemma length_bool_vector: "length (bool_vector_bytes order vs) \<le> 4 + length vs"
  using length_pack_le [of 1 "set_bit_of 0 0 (hd vs)" "tl vs"] by (cases vs) (simp_all add: bool_vector_bytes_def)

lemma items_of_bool:
  assumes "\<And>v. v \<in> set vs \<Longrightarrow> item_type_of v = IT_bool"
  shows "map (map_item f) vs = map I_bool (map item_bool vs)"
  using assms
proof (induction vs)
  case (Cons v vs)
  have "item_type_of v = IT_bool"
    using Cons.prems by simp
  then have "map_item f v = I_bool (item_bool v)"
    by (cases v) simp_all
  then show ?case
    using Cons by simp
qed simp

lemma choose_codes: "(\<And>v. v \<in> set vs \<Longrightarrow> \<exists>bs. P v bs) \<Longrightarrow> \<exists>enc. \<forall>v \<in> set vs. P v (enc v)"
  by metis

lemma length_concat_le:
  assumes "\<And>v. v \<in> set vs \<Longrightarrow> length (enc v) \<le> f v"
  shows "length (concat (map enc vs)) \<le> sum_list (map f vs)"
  using assms by (induction vs) (simp_all add: add_le_mono)

lemma array_codes:
  assumes "list_all (\<lambda>v. item_ok L (nested_codes order wr rd view sz) v \<and> item_type_of v = t) vs" "length vs < 2 ^ 31"
  shows "\<exists>bs. bs \<noteq> [] \<and> length bs \<le> 4 + sum_list (map (\<lambda>v. item_size L (map_item sz v)) vs) \<and>
    appends order (write_array_value L wr t vs) bs \<and>
    decodes order (read_array_value L rd t) bs (array_view t (map (map_item view) vs))"
proof (cases "t = IT_bool")
  case True
  then have b: "map (map_item f) vs = map I_bool (map item_bool vs)" for f
    using assms(1) by (intro items_of_bool) (simp add: list_all_iff)
  let ?bs = "bool_vector_bytes order (map item_bool vs)"
  have "sum_list (map (\<lambda>v. item_size L (map_item sz v)) vs) = sum_list (map (item_size L) (map (map_item sz) vs))"
    by (simp add: comp_def)
  also have "\<dots> = length vs"
    unfolding b by (simp add: comp_def sum_list_triv)
  finally have "length ?bs \<le> 4 + sum_list (map (\<lambda>v. item_size L (map_item sz v)) vs)"
    using length_bool_vector [of order "map item_bool vs"] by simp
  moreover have "decodes order (read_array_value L rd t) ?bs (array_view t (map (map_item view) vs))"
    using True decodes_map [OF decodes_bool_vector [of "map item_bool vs" order], of "\<lambda>vs. Some (map I_bool vs)"] assms(2)
    unfolding b by (simp add: read_array_value_def array_view_def)
  moreover have "?bs \<noteq> []"
    by (simp add: bool_vector_bytes_def flip: length_greater_0_conv)
  ultimately show ?thesis
    using True appends_bool_vector by (auto simp: write_array_value_def)
next
  case False
  have h: "\<exists>bs. bs \<noteq> [] \<and> length bs \<le> item_size L (map_item sz v) \<and> appends order (write_item L wr v) bs \<and>
      decodes order (read_item L rd t) bs (map_item view v)" if "v \<in> set vs" for v
    using item_codes [of L order wr rd view sz v] assms(1) that by (auto simp: list_all_iff)
  obtain enc where e: "\<forall>v \<in> set vs. enc v \<noteq> [] \<and> length (enc v) \<le> item_size L (map_item sz v) \<and>
      appends order (write_item L wr v) (enc v) \<and> decodes order (read_item L rd t) (enc v) (map_item view v)"
    by (rule exE [OF choose_codes [OF h]])
  let ?bs = "order_bytes order 4 (of_nat (length vs) :: i32) @ concat (map enc vs)"
  have "appends order (write_vector (write_item L wr) vs) ?bs"
    using e by (intro appends_vector_of appends_iter assms(2)) auto
  moreover have "decodes order (read_vector (read_item L rd t)) ?bs
      (if vs = [] then None else Some (map (map_item view) vs))"
    using e by (intro decodes_vector_of decodes_repeat assms(2)) auto
  moreover have "length ?bs \<le> 4 + sum_list (map (\<lambda>v. item_size L (map_item sz v)) vs)"
    using length_concat_le [of vs enc "\<lambda>v. item_size L (map_item sz v)"] e by simp
  moreover have "?bs \<noteq> []"
    by (simp flip: length_greater_0_conv)
  ultimately show ?thesis
    using False by (intro exI [of _ ?bs]) (simp add: write_array_value_def read_array_value_def array_view_def)
qed

fun option_size :: "cpp_int_lib \<Rightarrow> nat item option \<Rightarrow> nat" where
  "option_size L None = 0"
| "option_size L (Some v) = item_size L v"

lemma nullable_array_codes:
  assumes "list_all (pred_option (\<lambda>v. item_ok L (nested_codes order wr rd view sz) v \<and> item_type_of v = t)) vs"
  shows "\<exists>bs. bs \<noteq> [] \<and>
    length bs \<le> 8 + sum_list (map (\<lambda>v. option_size L (map_option (map_item sz) v)) vs) + 4 * length vs \<and>
    appends order (write_item_array (write_item L wr) vs) bs \<and>
    loads order (read_item_array (read_item L rd t)) bs (map (map_option (map_item view)) vs)"
proof -
  have h: "\<exists>b. chunk_of order (write_item L wr) v b \<and> chunk_view order (read_item L rd t) b (map_option (map_item view) v) \<and>
      length (chunk b) \<le> option_size L (map_option (map_item sz) v)" if v: "v \<in> set vs" for v
  proof (cases v)
    case None
    then show ?thesis by (intro exI [of _ None]) simp
  next
    case (Some x)
    have "pred_option (\<lambda>v. item_ok L (nested_codes order wr rd view sz) v \<and> item_type_of v = t) v"
      using assms v unfolding list_all_iff by (rule bspec)
    then have "item_ok L (nested_codes order wr rd view sz) x \<and> item_type_of x = t"
      unfolding Some option.pred_inject .
    then obtain bs where "bs \<noteq> []" "length bs \<le> item_size L (map_item sz x)" "appends order (write_item L wr x) bs"
      "decodes order (read_item L rd t) bs (map_item view x)"
      using item_codes [of L order wr rd view sz x] by auto
    then show ?thesis
      using Some decodes_loads by (intro exI [of _ "Some bs"]) simp
  qed
  obtain enc where e: "\<forall>v \<in> set vs. chunk_of order (write_item L wr) v (enc v) \<and>
      chunk_view order (read_item L rd t) (enc v) (map_option (map_item view) v) \<and>
      length (chunk (enc v)) \<le> option_size L (map_option (map_item sz) v)"
    by (rule exE [OF choose_codes [OF h]])
  let ?bss = "map enc vs"
  have w: "list_all2 (chunk_of order (write_item L wr)) vs ?bss"
    using e by (simp add: list_all2_conv_all_nth)
  have r: "list_all2 (chunk_view order (read_item L rd t)) ?bss (map (map_option (map_item view)) vs)"
    using e by (simp add: list_all2_conv_all_nth)
  have "length (chunks ?bss) \<le> sum_list (map (\<lambda>v. option_size L (map_option (map_item sz) v)) vs)"
    using length_concat_le [of vs "\<lambda>v. chunk (enc v)" "\<lambda>v. option_size L (map_option (map_item sz) v)"] e
    by (simp add: chunks_def comp_def)
  moreover have "offset_width n * length vs \<le> 4 * length vs" for n
    using offset_width_cases [of n] by auto
  ultimately have "length (item_array_bytes order ?bss) \<le>
      8 + sum_list (map (\<lambda>v. option_size L (map_option (map_item sz) v)) vs) + 4 * length vs"
    by (simp add: item_array_bytes_def length_table add_le_mono)
  moreover have "item_array_bytes order ?bss \<noteq> []"
    by (simp add: item_array_bytes_def flip: length_greater_0_conv)
  ultimately show ?thesis
    using appends_item_array [OF w] loads_item_array [OF r] by blast
qed

section \<open>The width of an offset\<close>

text \<open>
  C38. The table of offsets has one, two or four bytes per entry, by the length of the data it points
  into.  Every entry that is smaller than that length, or stands for an absent field, is read back as
  it was written: no offset is taken for the mark of an absent field.
\<close>

theorem offset_table_roundtrip:
  assumes "i < length offs" "offset_fits n (offs ! i)" "length p + 4 * length offs + length ys < 2 ^ 31"
  shows "\<exists>bs. write_offsets n offs (out_at order p) = Inr ((), out_at order (p @ bs)) \<and>
    length bs = offset_width (int n) * length offs \<and>
    get_offset (offset_width (int n)) (of_nat (length p)) (of_nat i) (in_at order (p @ bs @ ys) q) =
      Inr (offs ! i, in_at order (p @ bs @ ys) q)"
proof -
  let ?t = "table_bytes order n offs"
  have "length ?t \<le> 4 * length offs"
    using length_table [of order n offs] offset_width_cases [of "int n"] by auto
  then have l: "length (p @ ?t @ ys) < 2 ^ 31"
    using assms(3) by simp
  then have "write_offsets n offs (out_at order p) = Inr ((), out_at order (p @ ?t))"
    by (intro appendsD [OF appends_offsets]) simp
  then show ?thesis
    using get_offset_table [OF assms(2,1) l, of q] length_table [of order n offs] by (intro exI [of _ ?t]) simp
qed

theorem offset_table_roundtrip_witness:
  "\<exists>bs. write_offsets 255 [254, - 1, 7] (out_at Big_Endian [9]) = Inr ((), out_at Big_Endian ([9] @ bs)) \<and>
    length bs = offset_width (int 255) * length [254 :: i32, - 1, 7] \<and>
    get_offset (offset_width (int 255)) (of_nat (length [9 :: byte])) (of_nat 0) (in_at Big_Endian ([9] @ bs @ []) 1) =
      Inr ([254, - 1, 7] ! 0, in_at Big_Endian ([9] @ bs @ []) 1)"
  by (rule offset_table_roundtrip) (simp_all add: offset_fits_def)

section \<open>Arrays of truth values that may be absent\<close>

lemma read_bits_byte: "i + n \<le> 8 \<Longrightarrow> read_bits n i c inp = Inr (map (bit c) [i..<i + n], inp)"
proof (induction n arbitrary: i)
  case (Suc n)
  have "[i..<i + Suc n] = i # [Suc i..<Suc i + n]"
    by (simp add: upt_conv_Cons del: upt_Suc)
  then show ?case
    using Suc.IH [of "Suc i"] Suc.prems by simp
qed simp

lemma check_no_null_table:
  assumes "\<And>j. j < length offs \<Longrightarrow> offset_fits n (offs ! j) \<and> offs ! j \<noteq> - 1" "i + k \<le> length offs"
    "length (xs @ table_bytes order n offs @ ys) < 2 ^ 31"
  shows "check_no_null (offset_width (int n)) (of_nat (length xs)) i k (in_at order (xs @ table_bytes order n offs @ ys) q) =
    Inr ((), in_at order (xs @ table_bytes order n offs @ ys) q)"
  using assms(2)
proof (induction k arbitrary: i)
  case (Suc k)
  then have i: "i < length offs"
    by simp
  show ?case
    using get_offset_table [OF conjunct1 [OF assms(1) [OF i]] i assms(3), of q] assms(1) [OF i] Suc.IH [of "Suc i"] Suc.prems
    by simp
qed simp

lemma chunk_offsets_present:
  "j < length bss \<Longrightarrow> chunk_offsets p (map (\<lambda>b. Some [f b]) bss) ! j = of_nat (p + j)"
  by (induction bss arbitrary: p j) (auto simp: nth_Cons' gr0_conv_Suc)

definition flag_bytes :: "byte_order \<Rightarrow> bool list \<Rightarrow> byte list" where
  "flag_bytes order bs = item_array_bytes order (map (\<lambda>b. Some [of_bool b]) bs)"

lemma appends_flags:
  "appends order (write_item_array (write_item L wr) (map (\<lambda>b. Some (I_bool b)) bs)) (flag_bytes order bs)"
proof -
  have "chunk_of order (write_item L wr) (Some (I_bool b)) (Some [of_bool b])" for b
    using bool8.appends_put [OF TrueI, of order b] by simp
  then show ?thesis
    unfolding flag_bytes_def by (intro appends_item_array) (simp add: list_all2_conv_all_nth)
qed

lemma loads_flags:
  "loads order (read_item_array (read_item L rd IT_bool)) (flag_bytes order bs) (map (\<lambda>b. Some (I_bool b)) bs)"
proof -
  have "chunk_view order (read_item L rd IT_bool) (Some [of_bool b]) (Some (I_bool b))" for b
    using decodes_loads [OF decodes_map [OF bool8.decodes_fetch [OF TrueI, of order b], of I_bool]]
    by (simp del: of_bool_eq_iff)
  then show ?thesis
    unfolding flag_bytes_def by (intro loads_item_array) (simp add: list_all2_conv_all_nth)
qed

lemma flag_offsets_fit:
  assumes "length bs \<le> 8" "j < length bs"
  shows "offset_fits (length bs) (chunk_offsets 0 (map (\<lambda>b. Some [of_bool b :: byte]) bs) ! j) \<and>
    chunk_offsets 0 (map (\<lambda>b. Some [of_bool b :: byte]) bs) ! j \<noteq> - 1"
proof -
  have u: "unat (of_nat j :: i32) = j" "sint (of_nat j :: i32) = int j"
    using assms by (simp_all add: unat_of_nat_small sint_of_nat)
  then have "(of_nat j :: i32) \<noteq> - 1"
    by (metis of_nat_less_0_iff sint_n1 neg_less_0_iff_less zero_less_one)
  then show ?thesis
    using u assms chunk_offsets_present [of j bs 0 of_bool] by (simp add: offset_fits_def)
qed

lemma flag_bytes_parts:
  "flag_bytes order bs = order_bytes order 4 (of_nat (length bs) :: i32) @ order_bytes order 4 (of_nat (length bs) :: i32) @
    map of_bool bs @ table_bytes order (length bs) (chunk_offsets 0 (map (\<lambda>b. Some [of_bool b :: byte]) bs))"
proof -
  have "concat (map (\<lambda>b. [of_bool b :: byte]) cs) = map of_bool cs" for cs
    by (induction cs) simp_all
  then have "chunks (map (\<lambda>b. Some [of_bool b :: byte]) bs) = map of_bool bs"
    by (simp add: chunks_def comp_def)
  then show ?thesis
    by (simp add: flag_bytes_def item_array_bytes_def)
qed

text \<open>Read as an array of truth values, the bytes of the items are taken for packed bits.\<close>

lemma read_flags_as_bits:
  assumes "length bs < 8" "buf = xs @ order_bytes order 4 (of_nat (length (b # bs)) :: i32) @ (of_bool b # ys)"
    "length buf < 2 ^ 31"
  shows "read_array_value L rd IT_bool (in_at order buf (length xs)) =
    Inr (Some (I_bool b # replicate (length bs) (I_bool False)), in_at order buf (length xs + 5))"
proof -
  define n where "n = length (b # bs)"
  define k where "k = order_bytes order 4 (of_nat n :: i32)"
  have len: "length k = 4" "0 < n" "n \<le> 8"
    using assms(1) by (simp_all add: k_def n_def)
  have buf: "buf = xs @ k @ (of_bool b # ys)"
    by (simp add: assms(2) k_def n_def)
  have n: "sint (of_nat n :: i32) = int n" "unat (of_nat n :: i32) = n" "(of_nat n :: i32) \<noteq> 0"
    using len sint_of_nat [of n] unat_of_nat_small [of n] of_nat_zero_iff [of n] by simp_all
  have r1: "read_int32 (in_at order buf (length xs)) = Inr (of_nat n, in_at order buf (length xs + 4))"
    using decodesD [OF int32.decodes_fetch [OF TrueI, of order "of_nat n"], of xs "of_bool b # ys"] assms(3) len(1)
    by (simp add: buf k_def)
  have r2: "read_u8 (in_at order buf (length xs + 4)) = Inr (of_bool b, in_at order buf (length xs + 5))"
    using decodesD [OF decodes_u8 [of order "of_bool b"], of "xs @ k" ys] assms(3) len(1) by (simp add: buf add.commute)
  have bits: "map (bit (of_bool b :: byte)) [0..<n] = b # replicate (length bs) False"
  proof (rule nth_equalityI)
    fix j
    assume "j < length (map (bit (of_bool b :: byte)) [0..<n])"
    then show "map (bit (of_bool b :: byte)) [0..<n] ! j = (b # replicate (length bs) False) ! j"
      by (cases j) (auto simp: bit_simps n_def simp del: upt_Suc)
  qed (simp add: n_def)
  show ?thesis
    using r1 r2 n read_bits_byte [of 0 n "of_bool b"] len(3) bits
    by (simp add: read_array_value_def read_bool_vector_def)
qed

lemma loads_flags_as_array:
  assumes "length bs < 8"
  shows "loads order (read_item_array_as_array (read_array_value L rd IT_bool))
    (flag_bytes order (b # bs)) (Some (I_bool b # replicate (length bs) (I_bool False)))"
  unfolding loads_def
proof (intro allI impI)
  fix xs ys :: "byte list"
  define n where "n = length (b # bs)"
  define k where "k = order_bytes order 4 (of_nat n :: i32)"
  define offs where "offs = chunk_offsets 0 (map (\<lambda>b. Some [of_bool b :: byte]) (b # bs))"
  define t where "t = table_bytes order n offs"
  define c where "c = (map of_bool bs :: byte list)"
  define buf where "buf = xs @ flag_bytes order (b # bs) @ ys"
  have fb: "flag_bytes order (b # bs) = k @ k @ (of_bool b # c) @ t"
    unfolding flag_bytes_parts by (simp only: k_def t_def offs_def n_def c_def list.map)
  have len: "length k = 4" "length c + 1 = n" "length offs = n" "n \<le> 8"
    using assms by (simp_all add: k_def c_def offs_def n_def)
  have buf: "buf = xs @ k @ k @ (of_bool b # c) @ t @ ys"
    by (simp add: buf_def fb)
  assume "length xs + length (flag_bytes order (b # bs)) + length ys < 2 ^ 31"
  then have lb: "length buf < 2 ^ 31" "length xs + 9 \<le> length buf" "length xs + 8 + n < 2 ^ 31"
    using len by (simp_all add: buf fb)
  have n: "sint (of_nat n :: i32) = int n"
    using len sint_of_nat [of n] by simp
  have r: "read_int32 (in_at order buf (length xs)) = Inr (of_nat n, in_at order buf (length xs + 4))"
    "read_int32 (in_at order buf (length xs + 4)) = Inr (of_nat n, in_at order buf (length xs + 8))"
    using decodesD [OF int32.decodes_fetch [OF TrueI, of order "of_nat n"], of xs "k @ (of_bool b # c) @ t @ ys"]
      decodesD [OF int32.decodes_fetch [OF TrueI, of order "of_nat n"], of "xs @ k" "(of_bool b # c) @ t @ ys"] lb(1) len(1)
    by (simp_all add: buf k_def add.commute)
  have x: "length (xs @ k @ k @ (of_bool b # c)) = length xs + 8 + n"
    using len by simp
  have fits: "offset_fits n (offs ! j) \<and> offs ! j \<noteq> - 1" if "j < length offs" for j
    using flag_offsets_fit [of "b # bs" j] that len unfolding offs_def n_def by simp
  have nn: "check_no_null (offset_width (int n)) (of_nat (length xs + 8 + n)) 0 n (in_at order buf (length xs + 8)) =
      Inr ((), in_at order buf (length xs + 8))"
    using check_no_null_table [OF fits, of 0 n "xs @ k @ k @ (of_bool b # c)" order ys "length xs + 8"] lb(1) len(3)
    unfolding x t_def [symmetric] by (simp add: buf del: of_nat_add)
  have p: "add_int (of_nat (length xs + 8)) (- 4) i = Inr (of_nat (length xs + 4), i)" for i
    using lb sint_of_nat [of "length xs + 4"] sint_of_nat [of "length xs + 8"]
    by (simp add: add_int_def algebra_simps)
  have sp: "set_in_position (of_nat (length xs + 4)) (in_at order buf (length xs + 8)) = Inr ((), in_at order buf (length xs + 4))"
    using lb by (intro set_in_position_in) simp_all
  have "read_array_value L rd IT_bool (in_at order buf (length (xs @ k))) =
      Inr (Some (I_bool b # replicate (length bs) (I_bool False)), in_at order buf (length (xs @ k) + 5))"
    by (rule read_flags_as_bits [OF assms _ lb(1), where ys = "c @ t @ ys"]) (simp add: buf k_def n_def)
  then have "read_item_array_as_array (read_array_value L rd IT_bool) (in_at order buf (length xs)) =
      Inr (Some (I_bool b # replicate (length bs) (I_bool False)), in_at order buf (length (xs @ k) + 5))"
    using r add_int_in [OF lb(3)] nn p sp n len(1)
    by (simp add: read_item_array_as_array_def in_position_in del: of_nat_add)
  moreover have "length (xs @ k) + 5 \<le> length xs + length (flag_bytes order (b # bs)) + length ys"
    using lb(2) len(1) by (simp add: buf_def)
  ultimately show "\<exists>q\<le>length xs + length (flag_bytes order (b # bs)) + length ys.
      read_item_array_as_array (read_array_value L rd IT_bool)
        (in_at order (xs @ flag_bytes order (b # bs) @ ys) (length xs)) =
      Inr (Some (I_bool b # replicate (length bs) (I_bool False)), in_at order (xs @ flag_bytes order (b # bs) @ ys) q)"
    unfolding buf_def by blast
qed

section \<open>Reading at the position of a field\<close>

lemma at_field_loads:
  assumes "loads order g bs v" "length (xs @ bs @ ys) < 2 ^ 31" "q \<le> length (xs @ bs @ ys)"
    "read_var_size_position r d (in_at order (xs @ bs @ ys) q) = Inr (of_nat (length xs), in_at order (xs @ bs @ ys) q)"
  shows "at_field r d g (in_at order (xs @ bs @ ys) q) = Inr (v, in_at order (xs @ bs @ ys) q)"
proof -
  let ?buf = "xs @ bs @ ys"
  have "length xs + length bs + length ys < 2 ^ 31"
    using assms(2) by simp
  from loadsD [OF assms(1) this] obtain p where p: "p \<le> length xs + length bs + length ys"
    "g (in_at order ?buf (length xs)) = Inr (v, in_at order ?buf p)" .
  have "sint (of_nat (length xs) :: i32) = int (length xs)"
    using assms(2) by (intro sint_of_nat) simp
  then have "(of_nat (length xs) :: i32) \<noteq> - 1"
    by (metis of_nat_less_0_iff sint_n1 neg_less_0_iff_less zero_less_one)
  moreover have "set_in_position (of_nat (length xs)) (in_at order ?buf q) = Inr ((), in_at order ?buf (length xs))"
    using assms(2,3) by (intro set_in_position_in) simp_all
  moreover have "set_in_position (of_nat q) (in_at order ?buf p) = Inr ((), in_at order ?buf q)"
    using assms(2,3) p(1) by (intro set_in_position_in) simp_all
  ultimately show ?thesis
    using assms(4) p(2) by (simp add: at_field_def in_position_in)
qed


definition flags_reader :: compact_reader where
  "flags_reader = \<lparr>cr_data_start = 0, cr_variable_offsets = 14, cr_offset_width = 1\<rparr>"

definition flags_descriptor :: field_descriptor where
  "flags_descriptor = \<lparr>fd_kind = FK_ARRAY_OF_NULLABLE_BOOLEAN, fd_index = 0, fd_offset = - 1, fd_bit_offset = - 1\<rparr>"

lemma flags_position:
  "read_var_size_position flags_reader flags_descriptor (in_at Big_Endian (flag_bytes Big_Endian [True, False, True] @ [0]) 0) =
    Inr (0, in_at Big_Endian (flag_bytes Big_Endian [True, False, True] @ [0]) 0)"
proof -
  let ?f = "flag_bytes Big_Endian [True, False, True]"
  have l: "length ?f = 14"
    by (simp add: flag_bytes_parts length_table offset_width_def)
  have "read_u8_at 14 (in_at Big_Endian (?f @ [0] @ []) 0) = Inr (0, in_at Big_Endian (?f @ [0] @ []) 0)"
    using read_u8_at_mid [of ?f 0 "[]" Big_Endian 0] l by simp
  then show ?thesis
    by (simp add: read_var_size_position_def get_offset_def flags_reader_def flags_descriptor_def add_int_def
        usize_add_def usize_max_def Let_def)
qed


end
