(* ===== verification/Compact_Record.thy ===== *)
theory Compact_Record
  imports Compact_Roundtrip
begin

text \<open>
  Records: the fields of a record written one after the other, and read in any order.

  \<open>cw_at\<close> is a writer in the middle of a record, with the bytes before the data, the fixed-size part and
  the variable-size part apart; \<open>field_in\<close> says that a field with its value is in these parts.  Writing a
  field puts it there and leaves the fields with other bits and other indices alone
  (\<open>write_field_step\<close>, \<open>holds_frame\<close>), \<open>record_image\<close> gives the bytes of a whole record, and
  \<open>read_field_at\<close> reads a field of such a record from any position of the input.
\<close>

section \<open>The state of a writer\<close>

definition cw_at :: "byte_order \<Rightarrow> byte list \<Rightarrow> byte list \<Rightarrow> byte list \<Rightarrow> i32 list \<Rightarrow> compact_writer" where
  "cw_at order P F V offs =
    \<lparr>cw_out = out_at order (P @ F @ V), cw_data_start = length P, cw_field_offsets = offs\<rparr>"

lemma on_out_at:
  assumes "f (out_at order (P @ F @ V)) = Inr (x, out_at order (P @ F' @ V'))"
  shows "on_out f (cw_at order P F V offs) = Inr (x, cw_at order P F' V' offs)"
  using assms by (simp add: on_out_def cw_at_def)

lemma check_field_ok:
  "map_of (field_definition_map s) name = Some d \<Longrightarrow> fd_kind d = kind \<Longrightarrow>
    check_field_definition s name kind w = Inr (d, w)"
  by (simp add: check_field_definition_def)

section \<open>Fixed-size fields\<close>

fun primitive_bytes :: "byte_order \<Rightarrow> 'r item \<Rightarrow> byte list" where
  "primitive_bytes order (I_int8 v) = order_bytes order 1 v"
| "primitive_bytes order (I_int16 v) = order_bytes order 2 v"
| "primitive_bytes order (I_int32 v) = order_bytes order 4 v"
| "primitive_bytes order (I_int64 v) = order_bytes order 8 v"
| "primitive_bytes order (I_float32 v) = order_bytes order 4 v"
| "primitive_bytes order (I_float64 v) = order_bytes order 8 v"
| "primitive_bytes order _ = []"

fun primitive_in :: "byte_order \<Rightarrow> byte list \<Rightarrow> field_descriptor \<Rightarrow> 'r item \<Rightarrow> bool" where
  "primitive_in order F d (I_bool v) \<longleftrightarrow> bit (F ! nat (fd_offset d)) (nat (fd_bit_offset d)) = v"
| "primitive_in order F d v \<longleftrightarrow>
    slice (nat (fd_offset d)) (length (primitive_bytes order v)) F = primitive_bytes order v"

text \<open>Two images of the fixed-size part agree on a set of bits.\<close>

definition agree :: "(int \<times> int) set \<Rightarrow> byte list \<Rightarrow> byte list \<Rightarrow> bool" where
  "agree B F F' \<longleftrightarrow> (\<forall>(b, i) \<in> B. bit (F ! nat b) (nat i) = bit (F' ! nat b) (nat i))"

lemma primitive_size:
  "is_primitive (item_type_of v) \<Longrightarrow> item_type_of v \<noteq> IT_bool \<Longrightarrow>
    kind_size_in_bytes (primitive_kind (item_type_of v)) = int (length (primitive_bytes order v))"
  by (cases v) simp_all

lemma primitive_fixed: "is_primitive t \<Longrightarrow> kind_size_in_bytes (primitive_kind t) \<noteq> VARIABLE_SIZE"
  by (cases t) (simp_all add: VARIABLE_SIZE_def)

lemma primitive_not_bool: "is_primitive t \<Longrightarrow> t \<noteq> IT_bool \<Longrightarrow> primitive_kind t \<noteq> FK_BOOLEAN"
  by (cases t) simp_all

lemma occupies_bool:
  "fd_kind d = FK_BOOLEAN \<Longrightarrow> occupies d = {(fd_offset d, fd_bit_offset d)}"
  by (simp add: occupies_def VARIABLE_SIZE_def)

lemma occupies_bytes:
  assumes "is_primitive (item_type_of v)" "item_type_of v \<noteq> IT_bool" "fd_kind d = primitive_kind (item_type_of v)"
  shows "occupies d = {fd_offset d..<fd_offset d + int (length (primitive_bytes order v))} \<times> {0..<8}"
  using assms primitive_size [OF assms(1,2), of order] primitive_fixed [OF assms(1)] primitive_not_bool [OF assms(1,2)]
  by (simp add: occupies_def)

lemma byte_eq_bits: "(a :: byte) = b \<longleftrightarrow> (\<forall>i<8. bit a i = bit b i)"
  by (auto intro: bit_word_eqI)

lemma agree_slice:
  assumes "agree ({int p..<int p + int n} \<times> {0..<8}) F F'" "p + n \<le> length F" "length F' = length F"
  shows "slice p n F = slice p n F'"
proof (rule nth_equalityI)
  show "length (slice p n F) = length (slice p n F')"
    using assms by simp
next
  fix j
  assume "j < length (slice p n F)"
  then have j: "j < n" using assms by simp
  have "bit (F ! (p + j)) i = bit (F' ! (p + j)) i" if "i < 8" for i
    using assms(1) j that unfolding agree_def by (drule_tac bspec [of _ _ "(int (p + j), int i)"]) (auto simp: nat_int_add)
  then have "F ! (p + j) = F' ! (p + j)"
    by (simp add: byte_eq_bits)
  then show "slice p n F ! j = slice p n F' ! j"
    using j assms by (simp add: slice_def)
qed

lemma primitive_bytes_nonempty:
  "is_primitive (item_type_of v) \<Longrightarrow> item_type_of v \<noteq> IT_bool \<Longrightarrow> 0 < length (primitive_bytes order v)"
  by (cases v) simp_all

lemma occupies_bounds:
  assumes "is_primitive (item_type_of v)" "fd_kind d = primitive_kind (item_type_of v)"
    "occupies d \<subseteq> {0..<int len} \<times> {0..<8}"
  shows "0 \<le> fd_offset d"
    and "item_type_of v = IT_bool \<Longrightarrow> fd_offset d < int len \<and> 0 \<le> fd_bit_offset d \<and> fd_bit_offset d < 8"
    and "item_type_of v \<noteq> IT_bool \<Longrightarrow> nat (fd_offset d) + length (primitive_bytes order v) \<le> len"
proof -
  have bool: "0 \<le> fd_offset d \<and> fd_offset d < int len \<and> 0 \<le> fd_bit_offset d \<and> fd_bit_offset d < 8"
    if "item_type_of v = IT_bool"
    using that assms occupies_bool [of d] by simp
  have other: "0 \<le> fd_offset d \<and> fd_offset d + int (length (primitive_bytes order v)) \<le> int len"
    if t: "item_type_of v \<noteq> IT_bool"
  proof -
    let ?n = "int (length (primitive_bytes order v))"
    have n: "0 < ?n"
      using primitive_bytes_nonempty [OF assms(1) t] by simp
    have "(fd_offset d, 0) \<in> occupies d" "(fd_offset d + ?n - 1, 0) \<in> occupies d"
      using n unfolding occupies_bytes [OF assms(1) t assms(2), of order] by simp_all
    then show ?thesis
      using assms(3) by fastforce
  qed
  show "0 \<le> fd_offset d"
    using bool other by blast
  show "item_type_of v = IT_bool \<Longrightarrow> fd_offset d < int len \<and> 0 \<le> fd_bit_offset d \<and> fd_bit_offset d < 8"
    using bool by blast
  show "item_type_of v \<noteq> IT_bool \<Longrightarrow> nat (fd_offset d) + length (primitive_bytes order v) \<le> len"
    using other by fastforce
qed

lemma primitive_in_agree:
  assumes "is_primitive (item_type_of v)" "fd_kind d = primitive_kind (item_type_of v)"
    "occupies d \<subseteq> {0..<int (length F)} \<times> {0..<8}" "length F' = length F" "agree (occupies d) F F'"
  shows "primitive_in order F' d v = primitive_in order F d v"
proof (cases "item_type_of v = IT_bool")
  case True
  then show ?thesis
    using assms(2,5) occupies_bool [of d] by (cases v) (simp_all add: agree_def)
next
  case False
  note b = occupies_bounds [OF assms(1-3)]
  have "slice (nat (fd_offset d)) (length (primitive_bytes order v)) F =
      slice (nat (fd_offset d)) (length (primitive_bytes order v)) F'"
    using assms(4,5) b(1) b(3) [OF False, of order]
    unfolding occupies_bytes [OF assms(1) False assms(2), of order]
    by (intro agree_slice) simp_all
  then show ?thesis
    using False by (cases v) simp_all
qed

text \<open>Writing a fixed-size field sets its own bits and no others.\<close>

lemma bit_at:
  assumes "p < length F" "length P + length F + length V < 2 ^ 31" "i < 8"
  shows "write_boolean_bit_at (length P + p) i v (out_at order (P @ F @ V)) =
    Inr ((), out_at order (P @ F[p := set_bit_of (F ! p) i v] @ V))"
proof -
  have s: "P @ F @ V = (P @ take p F) @ [F ! p] @ (drop (Suc p) F @ V)"
    using id_take_nth_drop [OF assms(1)] by simp
  have t: "P @ F[p := set_bit_of (F ! p) i v] @ V =
      (P @ take p F) @ [set_bit_of (F ! p) i v] @ (drop (Suc p) F @ V)"
    using assms(1) by (simp add: upd_conv_take_nth_drop)
  have l: "length (P @ take p F) = length P + p"
    using assms(1) by simp
  have "check_available_out (length P + p) 1 (out_at order (P @ F @ V)) = Inr ((), out_at order (P @ F @ V))"
    using check_available_out_at [of "P @ F @ V" "length P + p" 1 order] assms by simp
  then show ?thesis
    unfolding s t using assms(1,3) l
    by (simp add: write_boolean_bit_at_def unless_no_write_def store_at_def out_at_def overwrite_def nth_append)
qed

lemma bytes_at:
  assumes "0 < n" "p + n \<le> length F" "length P + length F + length V < 2 ^ 31"
  shows "write_at n (length P + p) v (out_at order (P @ F @ V)) =
    Inr ((), out_at order (P @ overwrite p (order_bytes order n v) F @ V))"
proof -
  have s: "P @ F @ V = (P @ take p F) @ slice p n F @ (drop (p + n) F @ V)"
    using assms(2) by (simp add: slice_def) (metis append_assoc append_take_drop_id drop_drop add.commute)
  have t: "P @ overwrite p (order_bytes order n v) F @ V =
      (P @ take p F) @ order_bytes order n v @ (drop (p + n) F @ V)"
    using assms(2) by (simp add: overwrite_def)
  have l: "length (P @ take p F) = length P + p" "length (slice p n F) = n"
    using assms(2) by simp_all
  show ?thesis
    unfolding s t using write_at_mid [of n "slice p n F" "P @ take p F" "drop (p + n) F @ V" v order] assms l
    by simp
qed

lemma offset_from_start:
  assumes "0 \<le> off" "start + nat off < 2 ^ 31"
  shows "offset_from start off = start + nat off"
  using assms by (simp add: offset_from_def usize_max_def nat_add_distrib)

lemma write_fixed_at:
  assumes "map_of (field_definition_map s) name = Some d" "fd_kind d = kind" "0 \<le> fd_offset d"
    "0 < n" "nat (fd_offset d) + n \<le> length F" "length P + length F + length V < 2 ^ 31"
  shows "write_fixed s name kind n v (cw_at order P F V offs) =
    Inr ((), cw_at order P (overwrite (nat (fd_offset d)) (order_bytes order n v) F) V offs)"
proof -
  have "offset_from (length P) (fd_offset d) = length P + nat (fd_offset d)"
    using assms by (intro offset_from_start) simp_all
  moreover have "on_out (write_at n (length P + nat (fd_offset d)) v) (cw_at order P F V offs) =
      Inr ((), cw_at order P (overwrite (nat (fd_offset d)) (order_bytes order n v) F) V offs)"
    by (rule on_out_at) (rule bytes_at [OF assms(4-6)])
  ultimately show ?thesis
    using assms by (simp add: write_fixed_def get_fixed_size_field_position_def check_field_ok)
       (simp add: cw_at_def)
qed

lemma write_boolean_at:
  assumes "map_of (field_definition_map s) name = Some d" "fd_kind d = FK_BOOLEAN" "0 \<le> fd_offset d"
    "fd_offset d < int (length F)" "0 \<le> fd_bit_offset d" "fd_bit_offset d < 8"
    "length P + length F + length V < 2 ^ 31"
  shows "write_boolean s name v (cw_at order P F V offs) =
    Inr ((), cw_at order P (F[nat (fd_offset d) :=
      set_bit_of (F ! nat (fd_offset d)) (nat (fd_bit_offset d)) v]) V offs)"
proof -
  have "offset_from (length P) (fd_offset d) = length P + nat (fd_offset d)"
    using assms by (intro offset_from_start) simp_all
  moreover have "fd_bit_offset d mod int usize_max = fd_bit_offset d"
    using assms by (simp add: usize_max_def)
  moreover have "nat (fd_offset d) < length F" "nat (fd_bit_offset d) < 8"
    using assms by linarith+
  moreover from this have "on_out (write_boolean_bit_at (length P + nat (fd_offset d)) (nat (fd_bit_offset d)) v)
      (cw_at order P F V offs) =
      Inr ((), cw_at order P (F[nat (fd_offset d) := set_bit_of (F ! nat (fd_offset d)) (nat (fd_bit_offset d)) v]) V offs)"
    by (intro on_out_at bit_at assms(7))
  ultimately show ?thesis
    using assms
    by (simp add: write_boolean_def check_field_ok) (simp add: cw_at_def)
qed

definition primitive_update :: "byte_order \<Rightarrow> field_descriptor \<Rightarrow> 'r item \<Rightarrow> byte list \<Rightarrow> byte list" where
  "primitive_update order d v F =
    (case v of
       I_bool b \<Rightarrow> F[nat (fd_offset d) := set_bit_of (F ! nat (fd_offset d)) (nat (fd_bit_offset d)) b]
     | _ \<Rightarrow> overwrite (nat (fd_offset d)) (primitive_bytes order v) F)"

lemma write_primitive_at:
  assumes "map_of (field_definition_map s) name = Some d" "is_primitive (item_type_of v)"
    "fd_kind d = primitive_kind (item_type_of v)" "occupies d \<subseteq> {0..<int (length F)} \<times> {0..<8}"
    "length P + length F + length V < 2 ^ 31"
  shows "write_primitive s name v (cw_at order P F V offs) =
    Inr ((), cw_at order P (primitive_update order d v F) V offs)"
  using assms(1,2,3,5) occupies_bounds(1,2) [OF assms(2-4)] occupies_bounds(3) [OF assms(2-4), of order]
  by (cases v) (simp_all add: primitive_update_def write_boolean_at [OF assms(1)] write_fixed_at [OF assms(1)])

lemma primitive_update_props:
  assumes "is_primitive (item_type_of v)" "fd_kind d = primitive_kind (item_type_of v)"
    "occupies d \<subseteq> {0..<int (length F)} \<times> {0..<8}"
  shows "length (primitive_update order d v F) = length F"
    and "primitive_in order (primitive_update order d v F) d v"
    and "B \<subseteq> {0..<int (length F)} \<times> {0..<8} \<Longrightarrow> occupies d \<inter> B = {} \<Longrightarrow> agree B F (primitive_update order d v F)"
proof -
  note b = occupies_bounds [OF assms]
  let ?F = "primitive_update order d v F" and ?p = "nat (fd_offset d)" and ?i = "nat (fd_bit_offset d)"
  have bool: "?F = F[?p := set_bit_of (F ! ?p) ?i (item_bool v)] \<and> ?p < length F \<and> ?i < 8 \<and> v = I_bool (item_bool v)"
    if "item_type_of v = IT_bool"
    using that b(1,2) by (cases v) (auto simp: primitive_update_def)
  have other: "?F = overwrite ?p (primitive_bytes order v) F" if "item_type_of v \<noteq> IT_bool"
    using that by (cases v) (simp_all add: primitive_update_def)
  show "length ?F = length F"
    using bool other b(3) by (cases "item_type_of v = IT_bool") (auto simp: overwrite_def)
  show "primitive_in order ?F d v"
  proof (cases "item_type_of v = IT_bool")
    case True
    from bool [OF this] obtain c where "v = I_bool c" "?p < length F" "?i < 8" "?F = F[?p := set_bit_of (F ! ?p) ?i c]"
      by metis
    then show ?thesis
      by (simp add: bit_set_bit_of)
  next
    case False
    have "slice ?p (length (primitive_bytes order v)) ?F = primitive_bytes order v"
      using b(3) [OF False, of order] unfolding other [OF False] by (simp add: slice_def overwrite_def)
    then show ?thesis
      using False by (cases v) simp_all
  qed
  assume B: "B \<subseteq> {0..<int (length F)} \<times> {0..<8}" "occupies d \<inter> B = {}"
  have "bit (F ! nat x) (nat j) = bit (?F ! nat x) (nat j)" if xj: "(x, j) \<in> B" for x j
  proof (cases "item_type_of v = IT_bool")
    case True
    have j: "(x, j) \<noteq> (fd_offset d, fd_bit_offset d)" "0 \<le> x" "0 \<le> j" "j < 8"
      using B xj True assms(2) occupies_bool [of d] by auto
    then have "nat j < 8"
      by linarith
    from j have "nat x \<noteq> ?p \<or> nat j \<noteq> ?i"
      using b(1) b(2) [OF True] by auto
    with \<open>nat j < 8\<close> show ?thesis
      using bool [OF True] by (auto simp: nth_list_update bit_set_bit_of)
  next
    case False
    have "0 \<le> x" "0 \<le> j" "j < 8" "(x, j) \<notin> occupies d"
      using B xj by auto
    then have "x < fd_offset d \<or> fd_offset d + int (length (primitive_bytes order v)) \<le> x"
      unfolding occupies_bytes [OF assms(1) False assms(2), of order] by auto
    then have "nat x < ?p \<or> ?p + length (primitive_bytes order v) \<le> nat x"
      using b(1) \<open>0 \<le> x\<close> by linarith
    then show ?thesis
      using b(3) [OF False, of order] unfolding other [OF False] by (auto simp: overwrite_def nth_append)
  qed
  then show "agree B F ?F"
    by (auto simp: agree_def)
qed

section \<open>Variable-size fields\<close>

text \<open>The entry of a variable-size field in the table of offsets: the mark of an absent value, or where
  its bytes start.\<close>

definition variable_in :: "byte_order \<Rightarrow> nat \<Rightarrow> byte list \<Rightarrow> i32 list \<Rightarrow> field_descriptor \<Rightarrow>
    'a option din \<Rightarrow> 'a option \<Rightarrow> bool" where
  "variable_in order n V offs d r v \<longleftrightarrow>
    (offs ! nat (fd_index d) = - 1 \<and> v = None) \<or>
    (\<exists>V1 bs V2. V = V1 @ bs @ V2 \<and> bs \<noteq> [] \<and> offs ! nat (fd_index d) = of_nat (n + length V1) \<and>
      loads order r bs v)"

lemma variable_in_append:
  assumes "variable_in order n V offs d r v" "offs' ! nat (fd_index d) = offs ! nat (fd_index d)"
  shows "variable_in order n (V @ bs) offs' d r v"
proof (cases "offs ! nat (fd_index d) = - 1 \<and> v = None")
  case True
  then show ?thesis
    using assms(2) by (simp add: variable_in_def)
next
  case False
  then obtain V1 cs V2 where "V = V1 @ cs @ V2" "cs \<noteq> []" "offs ! nat (fd_index d) = of_nat (n + length V1)"
    "loads order r cs v"
    using assms(1) by (auto simp: variable_in_def)
  then have "V @ bs = V1 @ cs @ (V2 @ bs) \<and> cs \<noteq> [] \<and> offs' ! nat (fd_index d) = of_nat (n + length V1) \<and>
      loads order r cs v"
    using assms(2) by simp
  then show ?thesis
    unfolding variable_in_def by blast
qed

lemma set_position_at:
  assumes "map_of (field_definition_map s) name = Some d" "fd_kind d = kind" "0 \<le> fd_index d"
    "nat (fd_index d) < length offs" "length P + length F + length V < 2 ^ 31"
  shows "set_position s name kind (cw_at order P F V offs) =
      Inr ((), cw_at order P F V (offs[nat (fd_index d) := of_nat (length F + length V)]))"
    and "set_position_as_null s name kind (cw_at order P F V offs) =
      Inr ((), cw_at order P F V (offs[nat (fd_index d) := - 1]))"
proof -
  have "usize_sub (length (P @ F @ V)) (length P) = length F + length V"
    using assms(5) usize_sub_le [of "length (P @ F @ V)" "length P"] by (simp add: usize_max_def)
  moreover have "on_out out_position (cw_at order P F V offs) = Inr (length (P @ F @ V), cw_at order P F V offs)"
    by (rule on_out_at) (rule out_position_at)
  ultimately show "set_position s name kind (cw_at order P F V offs) =
      Inr ((), cw_at order P F V (offs[nat (fd_index d) := of_nat (length F + length V)]))"
    using assms by (simp add: set_position_def check_field_ok del: length_append)
      (simp add: cw_at_def set_field_offset_def)
  show "set_position_as_null s name kind (cw_at order P F V offs) =
      Inr ((), cw_at order P F V (offs[nat (fd_index d) := - 1]))"
    using assms by (simp add: set_position_as_null_def check_field_ok) (simp add: cw_at_def set_field_offset_def)
qed

lemma write_variable_at:
  assumes "map_of (field_definition_map s) name = Some d" "fd_kind d = kind" "0 \<le> fd_index d"
    "nat (fd_index d) < length offs" "appends order (put_value x) bs"
    "length P + length F + length V + length bs < 2 ^ 31"
  shows "write_variable_size_field s name kind put_value (Some x) (cw_at order P F V offs) =
    Inr ((), cw_at order P F (V @ bs) (offs[nat (fd_index d) := of_nat (length F + length V)]))"
proof -
  let ?o = "offs[nat (fd_index d) := of_nat (length F + length V)]"
  have "put_value x (out_at order (P @ F @ V)) = Inr ((), out_at order (P @ F @ V @ bs))"
    using appendsD [OF assms(5), of "P @ F @ V"] assms(6) by simp
  then have "on_out (put_value x) (cw_at order P F V ?o) = Inr ((), cw_at order P F (V @ bs) ?o)"
    by (rule on_out_at)
  then show ?thesis
    using assms set_position_at(1) [OF assms(1-4), of P F V order]
    by (simp add: write_variable_size_field_def)
qed

lemma write_field_nullable [simp]:
  "write_field L wr s name (F_nullable t v) = write_nullable L wr s name t v"
  "write_field L wr s name (F_nullable_array t w) = write_nullable_array L wr s name t w"
  by (simp_all add: write_reference_def write_nullable_def write_array_of_reference_def write_nullable_array_def)

declare write_field.simps(2,4) [simp del]

lemma write_array_of_variable_size_alt:
  "write_array_of_variable_size s name kind put_value value =
    write_variable_size_field s name kind (write_item_array put_value) value"
  by (simp add: write_array_of_variable_size_def write_variable_size_field_def)

text \<open>What one variable-size value adds to a record: nothing when it is absent, the bytes of the value
  otherwise.\<close>

lemma write_variable_step:
  assumes d: "map_of (field_definition_map s) name = Some d" "fd_kind d = kind" "0 \<le> fd_index d"
      "nat (fd_index d) < length offs"
    and v: "pred_option (\<lambda>x. \<exists>bs. bs \<noteq> [] \<and> length bs \<le> size_of x \<and> appends order (put_value x) bs \<and>
      loads order r bs (view x)) v"
  shows "\<exists>bs offs'. length bs \<le> (case v of None \<Rightarrow> 0 | Some x \<Rightarrow> size_of x) \<and> length offs' = length offs \<and>
    (\<forall>i. i \<noteq> nat (fd_index d) \<longrightarrow> offs' ! i = offs ! i) \<and>
    (\<forall>P. length P + length F + length V + length bs < 2 ^ 31 \<longrightarrow>
      write_variable_size_field s name kind put_value v (cw_at order P F V offs) =
        Inr ((), cw_at order P F (V @ bs) offs')) \<and>
    variable_in order (length F) (V @ bs) offs' d r (case v of None \<Rightarrow> None | Some x \<Rightarrow> view x)"
proof (cases v)
  case None
  let ?o = "offs[nat (fd_index d) := - 1]"
  have "write_variable_size_field s name kind put_value v (cw_at order P F V offs) = Inr ((), cw_at order P F (V @ []) ?o)"
    if "length P + length F + length V + length [] < 2 ^ 31" for P
    using that set_position_at(2) [OF d, of P F V order] None by (simp add: write_variable_size_field_def)
  then show ?thesis
    using d None by (intro exI [of _ "[]"] exI [of _ ?o]) (simp add: variable_in_def)
next
  case (Some x)
  then obtain bs where bs: "bs \<noteq> []" "length bs \<le> size_of x" "appends order (put_value x) bs" "loads order r bs (view x)"
    using v by auto
  let ?o = "offs[nat (fd_index d) := of_nat (length F + length V)]"
  have "variable_in order (length F) (V @ bs) ?o d r (view x)"
  proof -
    have "V @ bs = V @ bs @ [] \<and> bs \<noteq> [] \<and> ?o ! nat (fd_index d) = of_nat (length F + length V) \<and>
        loads order r bs (view x)"
      using bs d(4) by simp
    then show ?thesis
      unfolding variable_in_def by blast
  qed
  then show ?thesis
    using d Some bs write_variable_at [where put_value = put_value and x = x and F = F and V = V, OF d bs(3)]
    by (intro exI [of _ bs] exI [of _ ?o]) simp
qed

section \<open>The fields of a record\<close>

fun value_ok :: "cpp_int_lib \<Rightarrow> ('r \<Rightarrow> bool) \<Rightarrow> 'r field_value \<Rightarrow> bool" where
  "value_ok L nested (F_primitive v) \<longleftrightarrow> is_primitive (item_type_of v)"
| "value_ok L nested (F_nullable t v) \<longleftrightarrow> pred_option (\<lambda>x. item_ok L nested x \<and> item_type_of x = t) v"
| "value_ok L nested (F_array t v) \<longleftrightarrow> is_primitive t \<and>
    pred_option (\<lambda>vs. list_all (\<lambda>x. item_ok L nested x \<and> item_type_of x = t) vs \<and> length vs < 2 ^ 31) v"
| "value_ok L nested (F_nullable_array t v) \<longleftrightarrow>
    pred_option (list_all (pred_option (\<lambda>x. item_ok L nested x \<and> item_type_of x = t))) v"

fun value_size :: "cpp_int_lib \<Rightarrow> nat field_value \<Rightarrow> nat" where
  "value_size L (F_nullable t (Some x)) = item_size L x"
| "value_size L (F_array t (Some vs)) = 4 + sum_list (map (item_size L) vs)"
| "value_size L (F_nullable_array t (Some vs)) = 8 + sum_list (map (option_size L) vs) + 4 * length vs"
| "value_size L _ = 0"

text \<open>What a value is read back as.\<close>

fun value_view :: "('r \<Rightarrow> 's) \<Rightarrow> 'r field_value \<Rightarrow> 's field_value" where
  "value_view view (F_array t (Some vs)) = F_array t (array_view t (map (map_item view) vs))"
| "value_view view v = map_field_value view v"

fun field_in :: "byte_order \<Rightarrow> cpp_int_lib \<Rightarrow> 's din \<Rightarrow> byte list \<Rightarrow> byte list \<Rightarrow> i32 list \<Rightarrow> field_descriptor \<Rightarrow>
    's field_value \<Rightarrow> bool" where
  "field_in order L rd F V offs d (F_primitive v) \<longleftrightarrow> primitive_in order F d v"
| "field_in order L rd F V offs d (F_nullable t v) \<longleftrightarrow>
    variable_in order (length F) V offs d (sbind (read_item L rd t) (\<lambda>x. sreturn (Some x))) v"
| "field_in order L rd F V offs d (F_array t v) \<longleftrightarrow>
    variable_in order (length F) V offs d (read_array_value L rd t) v"
| "field_in order L rd F V offs d (F_nullable_array t v) \<longleftrightarrow>
    variable_in order (length F) V offs d (sbind (read_item_array (read_item L rd t)) (\<lambda>x. sreturn (Some x))) v"

lemma variable_kinds:
  "kind_size_in_bytes (nullable_kind t) = VARIABLE_SIZE"
  "is_primitive t \<Longrightarrow> kind_size_in_bytes (array_kind t) = VARIABLE_SIZE"
  "kind_size_in_bytes (nullable_array_kind t) = VARIABLE_SIZE"
  by (cases t; simp add: VARIABLE_SIZE_def)+

lemma value_codes:
  assumes "value_ok L (nested_codes order wr rd view sz) (F_nullable t v)"
  shows "pred_option (\<lambda>x. \<exists>bs. bs \<noteq> [] \<and> length bs \<le> item_size L (map_item sz x) \<and>
    appends order (write_item L wr x) bs \<and>
    loads order (sbind (read_item L rd t) (\<lambda>x. sreturn (Some x))) bs (Some (map_item view x))) v"
proof (cases v)
  case (Some x)
  then show ?thesis
    using assms item_codes [of L order wr rd view sz x]
    by (auto intro: loads_map [where f = Some] dest!: decodes_loads)
qed simp

lemma array_value_codes:
  assumes "value_ok L (nested_codes order wr rd view sz) (F_array t v)"
  shows "pred_option (\<lambda>vs. \<exists>bs. bs \<noteq> [] \<and> length bs \<le> 4 + sum_list (map (\<lambda>x. item_size L (map_item sz x)) vs) \<and>
    appends order (write_array_value L wr t vs) bs \<and>
    loads order (read_array_value L rd t) bs (array_view t (map (map_item view) vs))) v"
proof (cases v)
  case (Some vs)
  then show ?thesis
    using assms array_codes [of L order wr rd view sz t vs] decodes_loads by fastforce
qed simp

lemma nullable_array_value_codes:
  assumes "value_ok L (nested_codes order wr rd view sz) (F_nullable_array t v)"
  shows "pred_option (\<lambda>vs. \<exists>bs. bs \<noteq> [] \<and>
    length bs \<le> 8 + sum_list (map (\<lambda>x. option_size L (map_option (map_item sz) x)) vs) + 4 * length vs \<and>
    appends order (write_item_array (write_item L wr) vs) bs \<and>
    loads order (sbind (read_item_array (read_item L rd t)) (\<lambda>x. sreturn (Some x))) bs
      (Some (map (map_option (map_item view)) vs))) v"
proof (cases v)
  case (Some vs)
  then show ?thesis
    using assms nullable_array_codes [of L order wr rd view sz t vs] by (auto intro: loads_map [where f = Some])
qed simp

definition is_primitive_value :: "'r field_value \<Rightarrow> bool" where
  "is_primitive_value v = (case v of F_primitive _ \<Rightarrow> True | _ \<Rightarrow> False)"

definition field_fits :: "nat \<Rightarrow> nat \<Rightarrow> field_descriptor \<Rightarrow> bool" where
  "field_fits len nvars d \<longleftrightarrow> occupies d \<subseteq> {0..<int len} \<times> {0..<8} \<and>
    (kind_size_in_bytes (fd_kind d) = VARIABLE_SIZE \<longrightarrow> 0 \<le> fd_index d \<and> nat (fd_index d) < nvars)"

definition apart :: "field_descriptor \<Rightarrow> field_descriptor \<Rightarrow> bool" where
  "apart d d' \<longleftrightarrow> occupies d \<inter> occupies d' = {} \<and>
    (kind_size_in_bytes (fd_kind d) = VARIABLE_SIZE \<and> kind_size_in_bytes (fd_kind d') = VARIABLE_SIZE \<longrightarrow>
      fd_index d \<noteq> fd_index d')"

lemma value_kind_variable:
  assumes "value_ok L nested v"
  shows "kind_size_in_bytes (kind_of_value v) = VARIABLE_SIZE \<longleftrightarrow> \<not> is_primitive_value v"
  using assms by (cases v) (simp_all add: variable_kinds primitive_fixed is_primitive_value_def)

lemma is_primitive_value_view [simp]: "is_primitive_value (value_view view v) = is_primitive_value v"
  by (cases "(view, v)" rule: value_view.cases) (simp_all add: is_primitive_value_def)

text \<open>A field that has been written stays as it is while fields apart from it are written.\<close>

lemma field_in_frame:
  assumes "field_in order L rd F V offs d v" "value_ok L' nested w" "v = value_view view w" "fd_kind d = kind_of_value w"
    "field_fits (length F) (length offs) d" "length F' = length F"
    "agree (occupies d) F F'"
    "kind_size_in_bytes (fd_kind d) = VARIABLE_SIZE \<Longrightarrow> offs' ! nat (fd_index d) = offs ! nat (fd_index d)"
  shows "field_in order L rd F' (V @ bs) offs' d v"
proof (cases "is_primitive_value w")
  case True
  then obtain x where "w = F_primitive x"
    by (cases w) (simp_all add: is_primitive_value_def)
  moreover have "item_type_of (map_item view x) = item_type_of x"
    by (cases x) simp_all
  ultimately show ?thesis
    using assms primitive_in_agree [of "map_item view x" d F F' order] by (simp add: field_fits_def)
next
  case False
  then have o: "offs' ! nat (fd_index d) = offs ! nat (fd_index d)"
    using assms value_kind_variable [OF assms(2)] by simp
  have "\<not> is_primitive_value v"
    using False assms(3) by simp
  then show ?thesis
    using assms(1,6) by (cases v) (simp_all add: is_primitive_value_def variable_in_append [OF _ o])
qed

lemma write_field_step:
  assumes ok: "value_ok L (nested_codes order wr rd view sz) v"
    and d: "map_of (field_definition_map s) name = Some d" "fd_kind d = kind_of_value v"
    and fits: "field_fits (length F) (length offs) d"
  shows "\<exists>F' bs offs'. length F' = length F \<and> length offs' = length offs \<and>
    length bs \<le> value_size L (map_field_value sz v) \<and> (is_primitive_value v \<longrightarrow> bs = []) \<and>
    (\<forall>P. length P + length F + length V + length bs < 2 ^ 31 \<longrightarrow>
      write_field L wr s name v (cw_at order P F V offs) = Inr ((), cw_at order P F' (V @ bs) offs')) \<and>
    field_in order L rd F' (V @ bs) offs' d (value_view view v) \<and>
    (\<forall>B. B \<subseteq> {0..<int (length F)} \<times> {0..<8} \<and> occupies d \<inter> B = {} \<longrightarrow> agree B F F') \<and>
    (\<forall>i. (kind_size_in_bytes (fd_kind d) = VARIABLE_SIZE \<longrightarrow> i \<noteq> nat (fd_index d)) \<longrightarrow> offs' ! i = offs ! i)"
proof (cases "is_primitive_value v")
  case True
  then obtain x where x: "v = F_primitive x"
    by (cases v) (simp_all add: is_primitive_value_def)
  have p: "is_primitive (item_type_of x)" "fd_kind d = primitive_kind (item_type_of x)"
    "occupies d \<subseteq> {0..<int (length F)} \<times> {0..<8}"
    using x ok d fits by (simp_all add: field_fits_def)
  have m: "item_type_of (map_item view x) = item_type_of x" "primitive_bytes order (map_item view x) = primitive_bytes order x"
    by (cases x; simp)+
  have "primitive_in order (primitive_update order d x F) d (map_item view x)"
    using primitive_update_props(2) [OF p, of order] m by (cases x) simp_all
  then show ?thesis
    using x primitive_update_props(1) [OF p, of order] primitive_update_props(3) [OF p, where order = order] write_primitive_at [OF d(1) p, of _ V order offs]
    by (intro exI [of _ "primitive_update order d x F"] exI [of _ "[]"] exI [of _ offs]) simp
next
  case False
  have var: "kind_size_in_bytes (fd_kind d) = VARIABLE_SIZE"
    using value_kind_variable [OF ok] False d(2) by simp
  then have i: "0 \<le> fd_index d" "nat (fd_index d) < length offs"
    using fits by (simp_all add: field_fits_def)
  note step = write_variable_step [OF d(1) _ i, where F = F and V = V]
  have "\<exists>bs offs'. length offs' = length offs \<and> length bs \<le> value_size L (map_field_value sz v) \<and>
    (\<forall>P. length P + length F + length V + length bs < 2 ^ 31 \<longrightarrow>
      write_field L wr s name v (cw_at order P F V offs) = Inr ((), cw_at order P F (V @ bs) offs')) \<and>
    field_in order L rd F (V @ bs) offs' d (value_view view v) \<and> (\<forall>i. i \<noteq> nat (fd_index d) \<longrightarrow> offs' ! i = offs ! i)"
  proof (cases v)
    case (F_nullable t x)
    then show ?thesis
      using step [OF _ value_codes [OF ok [unfolded F_nullable]]] d(2)
      by (cases x) (simp_all add: write_nullable_def, blast+)
  next
    case (F_array t x)
    then show ?thesis
      using step [OF _ array_value_codes [OF ok [unfolded F_array]]] d(2)
      by (cases x) (simp_all add: write_array_def comp_def, blast+)
  next
    case (F_nullable_array t x)
    then show ?thesis
      using step [OF _ nullable_array_value_codes [OF ok [unfolded F_nullable_array]]] d(2)
      by (cases x) (simp_all add: write_nullable_array_def write_array_of_variable_size_alt comp_def, blast+)
  qed (use False in \<open>simp add: is_primitive_value_def\<close>)
  then obtain bs offs' where "length offs' = length offs" "length bs \<le> value_size L (map_field_value sz v)"
    "\<forall>P. length P + length F + length V + length bs < 2 ^ 31 \<longrightarrow>
      write_field L wr s name v (cw_at order P F V offs) = Inr ((), cw_at order P F (V @ bs) offs')"
    "field_in order L rd F (V @ bs) offs' d (value_view view v)" "\<forall>i. i \<noteq> nat (fd_index d) \<longrightarrow> offs' ! i = offs ! i"
    by (elim exE conjE) (rule that)
  then show ?thesis
    using False var by (intro exI [of _ F] exI [of _ bs] exI [of _ offs']) (simp add: agree_def)
qed

section \<open>The image of a record\<close>

definition schema_fits :: "schema \<Rightarrow> bool" where
  "schema_fits s \<longleftrightarrow>
    (\<forall>(n, d) \<in> set (field_definition_map s).
      field_fits (fixed_size_fields_length s) (number_of_var_size_fields s) d) \<and>
    (\<forall>(n, d) \<in> set (field_definition_map s). \<forall>(n', d') \<in> set (field_definition_map s).
      n \<noteq> n' \<longrightarrow> apart d d')"

lemma schema_fitsD:
  assumes "schema_fits s" "map_of (field_definition_map s) n = Some d"
  shows "field_fits (fixed_size_fields_length s) (number_of_var_size_fields s) d"
    and "map_of (field_definition_map s) n' = Some d' \<Longrightarrow> n \<noteq> n' \<Longrightarrow> apart d d'"
  using assms by (auto simp: schema_fits_def dest!: map_of_SomeD)

text \<open>A list of fields, each with a value of the kind the schema gives it.\<close>

definition fields_ok :: "cpp_int_lib \<Rightarrow> ('r \<Rightarrow> bool) \<Rightarrow> schema \<Rightarrow> (hz_string \<times> 'r field_value) list \<Rightarrow> bool" where
  "fields_ok L nested s fs \<longleftrightarrow> distinct (map fst fs) \<and>
    (\<forall>(n, v) \<in> set fs. value_ok L nested v \<and>
      (case map_of (field_definition_map s) n of None \<Rightarrow> False | Some d \<Rightarrow> fd_kind d = kind_of_value v))"

lemma fields_okD:
  assumes "fields_ok L nested s fs" "(n, v) \<in> set fs"
  shows "value_ok L nested v" "\<exists>d. map_of (field_definition_map s) n = Some d \<and> fd_kind d = kind_of_value v"
proof -
  have "value_ok L nested v \<and>
      (case map_of (field_definition_map s) n of None \<Rightarrow> False | Some d \<Rightarrow> fd_kind d = kind_of_value v)"
    using assms by (auto simp: fields_ok_def)
  then show "value_ok L nested v" "\<exists>d. map_of (field_definition_map s) n = Some d \<and> fd_kind d = kind_of_value v"
    by (simp_all split: option.splits)
qed

definition holds :: "byte_order \<Rightarrow> cpp_int_lib \<Rightarrow> 's din \<Rightarrow> ('r \<Rightarrow> 's) \<Rightarrow> schema \<Rightarrow> byte list \<Rightarrow> byte list \<Rightarrow> i32 list \<Rightarrow>
    (hz_string \<times> 'r field_value) list \<Rightarrow> bool" where
  "holds order L rd view s F V offs fs \<longleftrightarrow> (\<forall>(n, v) \<in> set fs. \<exists>d. map_of (field_definition_map s) n = Some d \<and>
    field_in order L rd F V offs d (value_view view v))"

definition fields_size :: "cpp_int_lib \<Rightarrow> ('r \<Rightarrow> nat) \<Rightarrow> (hz_string \<times> 'r field_value) list \<Rightarrow> nat" where
  "fields_size L sz fs = sum_list (map (\<lambda>(n, v). value_size L (map_field_value sz v)) fs)"

lemma holds_frame:
  assumes "schema_fits s" "fields_ok L nested s gs" "holds order L rd view s F V offs gs"
    "length F = fixed_size_fields_length s" "length offs = number_of_var_size_fields s" "length F' = length F"
    "map_of (field_definition_map s) n = Some d" "n \<notin> fst ` set gs"
    "\<forall>B. B \<subseteq> {0..<int (length F)} \<times> {0..<8} \<and> occupies d \<inter> B = {} \<longrightarrow> agree B F F'"
    "\<forall>i. (kind_size_in_bytes (fd_kind d) = VARIABLE_SIZE \<longrightarrow> i \<noteq> nat (fd_index d)) \<longrightarrow> offs' ! i = offs ! i"
  shows "holds order L rd view s F' (V @ bs) offs' gs"
  unfolding holds_def
proof (intro ballI, clarify)
  fix m v
  assume m: "(m, v) \<in> set gs"
  then have "\<exists>d. map_of (field_definition_map s) m = Some d \<and> field_in order L rd F V offs d (value_view view v)"
    using assms(3) by (auto simp: holds_def)
  then obtain e where e: "map_of (field_definition_map s) m = Some e" "fd_kind e = kind_of_value v" "value_ok L nested v"
    "field_in order L rd F V offs e (value_view view v)"
    using fields_okD [OF assms(2) m] by auto
  have "m \<noteq> n"
    using m assms(8) by force
  then have a: "apart d e"
    using schema_fitsD(2) [OF assms(1,7) e(1)] by simp
  have fe: "field_fits (length F) (length offs) e"
    using schema_fitsD(1) [OF assms(1) e(1)] assms(4,5) by simp
  have "agree (occupies e) F F'"
    using assms(9) a fe by (simp add: apart_def field_fits_def)
  moreover have "offs' ! nat (fd_index e) = offs ! nat (fd_index e)" if "kind_size_in_bytes (fd_kind e) = VARIABLE_SIZE"
  proof -
    have "kind_size_in_bytes (fd_kind d) = VARIABLE_SIZE \<longrightarrow> nat (fd_index e) \<noteq> nat (fd_index d)"
      using a that fe schema_fitsD(1) [OF assms(1,7)] by (auto simp: apart_def field_fits_def eq_nat_nat_iff)
    then show ?thesis
      using assms(10) by blast
  qed
  ultimately have "field_in order L rd F' (V @ bs) offs' e (value_view view v)"
    by (intro field_in_frame [OF e(4,3) refl e(2) fe assms(6)])
  then show "\<exists>d. map_of (field_definition_map s) m = Some d \<and> field_in order L rd F' (V @ bs) offs' d (value_view view v)"
    using e(1) by blast
qed

lemma no_variable_fields:
  assumes "field_fits len 0 d" "fd_kind d = kind_of_value v" "value_ok L nested v"
  shows "is_primitive_value v"
  using assms value_kind_variable [OF assms(3)] by (auto simp: field_fits_def)

lemma write_fields_image:
  assumes s: "schema_fits s"
    and fs: "fields_ok L (nested_codes order wr rd view sz) s (gs @ fs)"
    and gs: "holds order L rd view s F V offs gs"
    and len: "length F = fixed_size_fields_length s" "length offs = number_of_var_size_fields s"
  shows "\<exists>F' bs offs'. length F' = length F \<and> length offs' = length offs \<and> length bs \<le> fields_size L sz fs \<and>
    (number_of_var_size_fields s = 0 \<longrightarrow> bs = []) \<and>
    (\<forall>P. length P + length F + length V + length bs < 2 ^ 31 \<longrightarrow>
      siter (\<lambda>(n, v). write_field L wr s n v) fs (cw_at order P F V offs) = Inr ((), cw_at order P F' (V @ bs) offs')) \<and>
    holds order L rd view s F' (V @ bs) offs' (gs @ fs)"
  using fs gs len
proof (induction fs arbitrary: gs F V offs)
  case Nil
  then show ?case
    by (intro exI [of _ F] exI [of _ "[]"] exI [of _ offs]) simp
next
  case (Cons f fs)
  obtain n v where f: "f = (n, v)" by force
  have okn: "fields_ok L (nested_codes order wr rd view sz) s gs" "n \<notin> fst ` set gs"
    "value_ok L (nested_codes order wr rd view sz) v"
    using Cons.prems(1) by (auto simp: fields_ok_def f)
  obtain d where d: "map_of (field_definition_map s) n = Some d" "fd_kind d = kind_of_value v"
    using fields_okD(2) [OF Cons.prems(1), of n v] f by auto
  have fits: "field_fits (length F) (length offs) d"
    using schema_fitsD(1) [OF s d(1)] Cons.prems(3,4) by simp
  obtain F1 b1 offs1 where 1: "length F1 = length F" "length offs1 = length offs"
    "length b1 \<le> value_size L (map_field_value sz v)" "is_primitive_value v \<longrightarrow> b1 = []"
    "\<forall>P. length P + length F + length V + length b1 < 2 ^ 31 \<longrightarrow>
      write_field L wr s n v (cw_at order P F V offs) = Inr ((), cw_at order P F1 (V @ b1) offs1)"
    "field_in order L rd F1 (V @ b1) offs1 d (value_view view v)"
    "\<forall>B. B \<subseteq> {0..<int (length F)} \<times> {0..<8} \<and> occupies d \<inter> B = {} \<longrightarrow> agree B F F1"
    "\<forall>i. (kind_size_in_bytes (fd_kind d) = VARIABLE_SIZE \<longrightarrow> i \<noteq> nat (fd_index d)) \<longrightarrow> offs1 ! i = offs ! i"
    using write_field_step [OF okn(3) d fits, of V] by (elim exE conjE) (rule that)
  have "holds order L rd view s F1 (V @ b1) offs1 gs"
    by (rule holds_frame [OF s okn(1) Cons.prems(2-4) 1(1) d(1) okn(2) 1(7,8)])
  then have h1: "holds order L rd view s F1 (V @ b1) offs1 (gs @ [f])"
    using 1(6) d(1) f by (simp add: holds_def ball_Un)
  have h2: "fields_ok L (nested_codes order wr rd view sz) s ((gs @ [f]) @ fs)"
    using Cons.prems(1) by simp
  have h3: "length F1 = fixed_size_fields_length s" "length offs1 = number_of_var_size_fields s"
    using Cons.prems(3,4) 1(1,2) by simp_all
  obtain F2 b2 offs2 where 2: "length F2 = length F1" "length offs2 = length offs1"
    "length b2 \<le> fields_size L sz fs" "number_of_var_size_fields s = 0 \<longrightarrow> b2 = []"
    "\<forall>P. length P + length F1 + length (V @ b1) + length b2 < 2 ^ 31 \<longrightarrow>
      siter (\<lambda>(n, v). write_field L wr s n v) fs (cw_at order P F1 (V @ b1) offs1) =
        Inr ((), cw_at order P F2 ((V @ b1) @ b2) offs2)"
    "holds order L rd view s F2 ((V @ b1) @ b2) offs2 ((gs @ [f]) @ fs)"
    using Cons.IH [of "gs @ [f]" F1 "V @ b1" offs1, OF h2 h1 h3] by (elim exE conjE) (rule that)
  have "number_of_var_size_fields s = 0 \<longrightarrow> b1 @ b2 = []"
    using 1(4) 2(4) no_variable_fields [OF _ d(2) okn(3), of "length F"] fits Cons.prems(4) by auto
  then show ?case
    using 1 2 f by (intro exI [of _ F2] exI [of _ "b1 @ b2"] exI [of _ offs2]) (simp add: fields_size_def)
qed

text \<open>The bytes of a record after its schema id: the length of the data and the table of offsets are
  there only when the schema has variable-size fields.\<close>

definition record_bytes :: "byte_order \<Rightarrow> schema \<Rightarrow> byte list \<Rightarrow> byte list \<Rightarrow> i32 list \<Rightarrow> byte list" where
  "record_bytes order s F V offs =
    (if number_of_var_size_fields s = 0 then F @ V
     else order_bytes order 4 (of_nat (length F + length V) :: i32) @ F @ V @ table_bytes order (length F + length V) offs)"

lemma writer_start:
  assumes "length p + 4 + fixed_size_fields_length s < 2 ^ 31"
  shows "make_compact_writer s (out_at order p) =
    Inr (cw_at order (p @ (if number_of_var_size_fields s = 0 then [] else replicate 4 0))
      (replicate (fixed_size_fields_length s) 0) [] (replicate (number_of_var_size_fields s) 0))"
proof -
  have "usize_add (fixed_size_fields_length s) 4 = 4 + fixed_size_fields_length s" "usize_add (length p) 4 = length p + 4"
    using assms usize_add_exact [of "fixed_size_fields_length s" 4] usize_add_exact [of "length p" 4]
    by (simp_all add: usize_max_def)
  then show ?thesis
    by (simp add: make_compact_writer_def write_zero_bytes_def out_at_def cw_at_def replicate_add)
qed

lemma writer_end:
  assumes "length offs = number_of_var_size_fields s" "number_of_var_size_fields s \<noteq> 0"
    "length p + length (record_bytes order s F V offs) < 2 ^ 31"
  shows "\<exists>w. compact_writer_end s (cw_at order (p @ replicate 4 0) F V offs) = Inr ((), w) \<and>
    cw_out w = out_at order (p @ record_bytes order s F V offs)"
proof -
  let ?n = "length F + length V" and ?z = "replicate 4 (0 :: byte)"
  let ?t = "table_bytes order ?n offs"
  have l: "length p + 4 + ?n + length ?t < 2 ^ 31"
    using assms(2,3) by (simp add: record_bytes_def)
  have u: "usize_sub (length p + 4 + ?n) (length p + 4) = ?n" "usize_sub (length p + 4) 4 = length p"
    using l usize_sub_le [of "length p + 4 + ?n" "length p + 4"] usize_sub_le [of "length p + 4" 4]
    by (simp_all add: usize_max_def)
  have a: "write_offsets ?n offs (out_at order (p @ ?z @ F @ V)) = Inr ((), out_at order (p @ ?z @ F @ V @ ?t))"
    using appendsD [OF appends_offsets [of order ?n offs], of "p @ ?z @ F @ V"] l by simp
  have b: "write_at 4 (length p) (of_nat ?n :: i32) (out_at order (p @ ?z @ F @ V @ ?t)) =
      Inr ((), out_at order (p @ order_bytes order 4 (of_nat ?n :: i32) @ F @ V @ ?t))"
    using l by (intro write_at_mid) simp_all
  show ?thesis
    using a b u assms(2)
    by (simp add: compact_writer_end_def cw_at_def on_out_def record_bytes_def Let_def add.assoc)
       (simp add: out_at_def add.commute add.left_commute)
qed

lemma record_image:
  assumes s: "schema_fits s" and fs: "fields_ok L (nested_codes order wr rd view sz) s fs"
  shows "\<exists>F V offs. length F = fixed_size_fields_length s \<and> length offs = number_of_var_size_fields s \<and>
    length V \<le> fields_size L sz fs \<and> (number_of_var_size_fields s = 0 \<longrightarrow> V = []) \<and>
    appends order (write_with_schema s (siter (\<lambda>(n, v). write_field L wr s n v) fs))
      (order_bytes order 8 (schema_id s) @ record_bytes order s F V offs) \<and>
    holds order L rd view s F V offs fs"
proof -
  let ?F = "replicate (fixed_size_fields_length s) (0 :: byte)"
  let ?o = "replicate (number_of_var_size_fields s) (0 :: i32)"
  let ?w = "siter (\<lambda>(n, v). write_field L wr s n v) fs"
  have "fields_ok L (nested_codes order wr rd view sz) s ([] @ fs)" "holds order L rd view s ?F [] ?o []"
    using fs by (simp_all add: holds_def)
  from write_fields_image [OF s this length_replicate length_replicate]
  obtain F V offs where 1: "length F = length ?F" "length offs = length ?o" "length V \<le> fields_size L sz fs"
    "number_of_var_size_fields s = 0 \<longrightarrow> V = []"
    "\<forall>P. length P + length ?F + length ([] :: byte list) + length V < 2 ^ 31 \<longrightarrow>
      ?w (cw_at order P ?F [] ?o) = Inr ((), cw_at order P F ([] @ V) offs)"
    "holds order L rd view s F ([] @ V) offs ([] @ fs)"
    by (elim exE conjE) (rule that)
  have "appends order (write_with_schema s ?w) (order_bytes order 8 (schema_id s) @ record_bytes order s F V offs)"
    unfolding appends_def
  proof (intro allI impI)
    fix p :: "byte list"
    let ?p = "p @ order_bytes order 8 (schema_id s)"
    let ?P = "?p @ (if number_of_var_size_fields s = 0 then [] else replicate 4 0)"
    assume l: "length p + length (order_bytes order 8 (schema_id s) @ record_bytes order s F V offs) < 2 ^ 31"
    then have l': "length ?p + length (record_bytes order s F V offs) < 2 ^ 31"
      by simp
    have i: "write_int64 (schema_id s) (out_at order p) = Inr ((), out_at order ?p)"
      using l by (intro appendsD [OF int64.appends_put [OF TrueI]]) simp
    have w: "?w (cw_at order ?P ?F [] ?o) = Inr ((), cw_at order ?P F V offs)"
      using l 1(1) 1(5) [rule_format, of ?P] by (simp add: record_bytes_def split: if_splits)
    show "write_with_schema s ?w (out_at order p) =
        Inr ((), out_at order (p @ order_bytes order 8 (schema_id s) @ record_bytes order s F V offs))"
    proof (cases "number_of_var_size_fields s = 0")
      case True
      have "make_compact_writer s (out_at order ?p) = Inr (cw_at order ?P ?F [] ?o)"
        using True by (simp add: make_compact_writer_def write_zero_bytes_def out_at_def cw_at_def)
      then show ?thesis
        using i w True by (simp add: write_with_schema_def compact_writer_end_def record_bytes_def)
          (simp add: cw_at_def)
    next
      case False
      have st: "make_compact_writer s (out_at order ?p) = Inr (cw_at order ?P ?F [] ?o)"
        using l' False 1(1) by (intro writer_start) (simp add: record_bytes_def)
      have "length offs = number_of_var_size_fields s"
        using 1(2) by simp
      from writer_end [OF this False l'] obtain w' where
        "compact_writer_end s (cw_at order ?P F V offs) = Inr ((), w')"
        "cw_out w' = out_at order (?p @ record_bytes order s F V offs)"
        using False by auto
      then show ?thesis
        using i st w by (simp add: write_with_schema_def)
    qed
  qed
  then show ?thesis
    using 1 by (intro exI [of _ F] exI [of _ V] exI [of _ offs]) simp
qed

section \<open>Reading the image of a record\<close>

definition reader_at :: "nat \<Rightarrow> schema \<Rightarrow> byte list \<Rightarrow> byte list \<Rightarrow> compact_reader" where
  "reader_at p s F V =
    (if number_of_var_size_fields s = 0
     then \<lparr>cr_data_start = of_nat p, cr_variable_offsets = 0, cr_offset_width = 4\<rparr>
     else \<lparr>cr_data_start = of_nat (p + 4), cr_variable_offsets = p + 4 + length F + length V,
           cr_offset_width = offset_width (int (length F + length V))\<rparr>)"

lemma reader_start:
  assumes "length F = fixed_size_fields_length s" "length offs = number_of_var_size_fields s"
    "number_of_var_size_fields s = 0 \<longrightarrow> V = []" "buf = xs @ record_bytes order s F V offs @ ys" "length buf < 2 ^ 31"
  shows "make_compact_reader s (in_at order buf (length xs)) =
    Inr (reader_at (length xs) s F V, in_at order buf (length xs + length (record_bytes order s F V offs)))"
proof (cases "number_of_var_size_fields s = 0")
  case True
  have u: "i32_to_usize (of_nat (length xs)) = length xs"
    using assms(4,5) by (intro i32_to_usize_of_nat) simp
  have a: "usize_add (length xs) (length F) = length xs + length F"
    using assms True by (intro usize_add_exact) (simp add: usize_max_def record_bytes_def)
  have "set_in_position (of_nat (length xs + length F)) (in_at order buf (length xs)) =
      Inr ((), in_at order buf (length xs + length F))"
    using assms True by (intro set_in_position_in) (simp_all add: record_bytes_def)
  then show ?thesis
    using True assms(1,3) u a
    by (simp add: make_compact_reader_def in_position_in reader_at_def record_bytes_def del: of_nat_add)
next
  case False
  let ?n = "length F + length V" and ?k = "order_bytes order 4 (of_nat (length F + length V) :: i32)"
  let ?t = "table_bytes order (length F + length V) offs"
  have buf: "buf = xs @ ?k @ (F @ V @ ?t @ ys)" and l: "length xs + 4 + ?n + length ?t + length ys < 2 ^ 31"
    using assms(4,5) False by (simp_all add: record_bytes_def)
  have t: "length ?t = number_of_var_size_fields s * offset_width (int ?n)"
    using assms(2) by (simp add: length_table mult.commute)
  have r: "read_int32 (in_at order buf (length xs)) = Inr (of_nat ?n, in_at order buf (length xs + 4))"
    using decodesD [OF int32.decodes_fetch [OF TrueI], of xs order "of_nat ?n" "F @ V @ ?t @ ys"] l
    unfolding buf by simp
  have u: "unat (of_nat (length xs + 4) + of_nat ?n :: i32) = length xs + 4 + ?n" "uint (of_nat ?n :: i32) = int ?n"
    using l unat_of_nat_small [of "length xs + 4 + ?n"] unat_of_nat_small [of ?n]
    by (simp_all add: uint_nat)
  have a: "usize_add (length xs + 4 + ?n) (number_of_var_size_fields s * offset_width (int ?n)) =
      length xs + 4 + ?n + length ?t"
    unfolding t [symmetric] using l by (intro usize_add_exact) (simp add: usize_max_def)
  have p: "set_in_position (of_nat (length xs + 4 + ?n + length ?t)) (in_at order buf (length xs + 4)) =
      Inr ((), in_at order buf (length xs + 4 + ?n + length ?t))"
    using l unfolding buf by (intro set_in_position_in) simp_all
  have e: "length xs + length (record_bytes order s F V offs) = length xs + 4 + ?n + length ?t"
    using False by (simp add: record_bytes_def)
  show ?thesis
    unfolding e using False r p
    by (simp add: make_compact_reader_def in_position_in Let_def u a [unfolded add.assoc] reader_at_def add.assoc del: of_nat_add)
qed

lemma of_nat_not_minus_one: "n < 2 ^ 31 \<Longrightarrow> (of_nat n :: i32) \<noteq> - 1"
  using sint_of_nat [of n] by (metis of_nat_less_0_iff sint_n1 zero_less_one neg_less_0_iff_less)

lemma variable_offset:
  assumes "number_of_var_size_fields s \<noteq> 0" "buf = xs @ record_bytes order s F V offs @ ys" "length buf < 2 ^ 31"
    "0 \<le> fd_index d" "nat (fd_index d) < length offs" "offset_fits (length F + length V) (offs ! nat (fd_index d))"
  shows "get_offset (cr_offset_width (reader_at (length xs) s F V)) (of_nat (cr_variable_offsets (reader_at (length xs) s F V)))
      (word_of_int (fd_index d)) (in_at order buf q) = Inr (offs ! nat (fd_index d), in_at order buf q)"
proof -
  let ?x = "xs @ order_bytes order 4 (of_nat (length F + length V) :: i32) @ F @ V"
  have buf: "buf = ?x @ table_bytes order (length F + length V) offs @ ys"
    using assms(1,2) by (simp add: record_bytes_def)
  have "(word_of_int (fd_index d) :: i32) = of_nat (nat (fd_index d))"
    using assms(4) by (simp add: of_nat_nat)
  moreover have "cr_variable_offsets (reader_at (length xs) s F V) = length ?x"
    "cr_offset_width (reader_at (length xs) s F V) = offset_width (int (length F + length V))"
    using assms(1) by (simp_all add: reader_at_def)
  ultimately show ?thesis
    using get_offset_table [OF assms(6,5), of ?x order ys q] assms(3) unfolding buf by simp
qed

lemma read_variable_at:
  assumes "number_of_var_size_fields s \<noteq> 0" "buf = xs @ record_bytes order s F V offs @ ys" "length buf < 2 ^ 31"
    "0 \<le> fd_index d" "nat (fd_index d) < length offs" "variable_in order (length F) V offs d r v" "q \<le> length buf"
  shows "at_field (reader_at (length xs) s F V) d r (in_at order buf q) = Inr (v, in_at order buf q)"
proof (cases "offs ! nat (fd_index d) = - 1 \<and> v = None")
  case True
  have "set_in_position (of_nat q) (in_at order buf q) = Inr ((), in_at order buf q)"
    using assms by (intro set_in_position_in)
  then show ?thesis
    using True variable_offset [OF assms(1-5), of q]
    by (simp add: at_field_def read_var_size_position_def in_position_in offset_fits_def)
next
  case False
  then obtain V1 bs V2 where v: "V = V1 @ bs @ V2" "bs \<noteq> []"
    "offs ! nat (fd_index d) = of_nat (length F + length V1)" "loads order r bs v"
    using assms(6) by (auto simp: variable_in_def)
  let ?x = "xs @ order_bytes order 4 (of_nat (length F + length V) :: i32) @ F @ V1"
  let ?y = "V2 @ table_bytes order (length F + length V) offs @ ys"
  have buf: "buf = ?x @ bs @ ?y"
    using assms(1,2) v(1) by (simp add: record_bytes_def)
  have l: "length ?x + length bs + length ?y < 2 ^ 31"
    using assms(3) unfolding buf by simp
  then have ln: "length F + length V1 + (length xs + 4) < 2 ^ 31" "length F + length V1 < 2 ^ 31"
    by simp_all
  have "length V1 < length V"
    using v(1,2) by simp
  then have fit: "offset_fits (length F + length V) (offs ! nat (fd_index d))"
    using v(3) ln(2) by (simp add: offset_fits_def unat_of_nat_small del: of_nat_add)
  have "(of_nat (length F + length V1) :: i32) \<noteq> - 1"
    using ln(2) by (rule of_nat_not_minus_one)
  then have "read_var_size_position (reader_at (length xs) s F V) d (in_at order buf q) =
      Inr (of_nat (length ?x), in_at order buf q)"
    using variable_offset [OF assms(1-5) fit, of q] v(3) add_int_in [OF ln(1)] assms(1)
    by (simp add: read_var_size_position_def reader_at_def add_ac)
  then show ?thesis
    using at_field_loads [OF v(4), of ?x ?y q "reader_at (length xs) s F V" d] assms(3,7) unfolding buf by simp
qed

lemma order_bytes_octet: "order_bytes order 1 (v :: byte) = [v]"
  by (cases order) (simp_all add: be_bytes_def)

lemma read_fixed_at:
  assumes "length F = fixed_size_fields_length s" "buf = xs @ record_bytes order s F V offs @ ys" "length buf < 2 ^ 31"
    "is_primitive (item_type_of v)" "fd_kind d = primitive_kind (item_type_of v)"
    "occupies d \<subseteq> {0..<int (length F)} \<times> {0..<8}" "primitive_in order F d v"
  shows "read_fixed (reader_at (length xs) s F V) (item_type_of v) d (in_at order buf q) = Inr (v, in_at order buf q)"
proof -
  let ?p = "nat (fd_offset d)"
  obtain A B where buf: "buf = A @ F @ B" and A: "cr_data_start (reader_at (length xs) s F V) = of_nat (length A)"
  proof (cases "number_of_var_size_fields s = 0")
    case True
    then show ?thesis
      using that [of xs "V @ ys"] assms(2) by (simp add: record_bytes_def reader_at_def)
  next
    case False
    then show ?thesis
      using that [of "xs @ order_bytes order 4 (of_nat (length F + length V) :: i32)"] assms(2)
      by (simp add: record_bytes_def reader_at_def add.commute)
  qed
  note b = occupies_bounds [OF assms(4-6)]
  have p: "read_fixed_position (reader_at (length xs) s F V) d i = Inr (of_nat (length A + ?p), i)"
    if "?p \<le> length F" for i
  proof -
    have "(word_of_int (fd_offset d) :: i32) = of_nat ?p"
      using b(1) by (simp add: of_nat_nat)
    then show ?thesis
      using add_int_in [of ?p "length A" i] that assms(3) A buf by (simp add: read_fixed_position_def add.commute)
  qed
  show ?thesis
  proof (cases "item_type_of v = IT_bool")
    case True
    then obtain c where v: "v = I_bool c"
      by (cases v) simp_all
    have i: "?p < length F" "0 \<le> fd_bit_offset d" "fd_bit_offset d < 8"
      using b(1) b(2) [OF True] by linarith+
    have split: "buf = (A @ take ?p F) @ [F ! ?p] @ (drop (Suc ?p) F @ B)"
      using id_take_nth_drop [OF i(1)] unfolding buf by simp
    have "read_u8_at (of_nat (length A + ?p)) (in_at order buf q) = Inr (F ! ?p, in_at order buf q)"
      using read_u8_at_mid [of "A @ take ?p F" "F ! ?p" "drop (Suc ?p) F @ B" order q] assms(3) i(1)
      unfolding split [symmetric] by simp
    moreover have "bit (ucast (F ! ?p) :: i32) (nat (fd_bit_offset d)) = bit (F ! ?p) (nat (fd_bit_offset d))"
      using i by (simp add: bit_simps nat_less_iff)
    ultimately show ?thesis
      using p i assms(7) v by (simp add: read_fixed_bool_def)
  next
    case False
    let ?b = "primitive_bytes order v"
    have i: "?p + length ?b \<le> length F" "?p \<le> length F"
      using b(3) [OF False, of order] by simp_all
    have "slice ?p (length ?b) F = ?b"
      using assms(7) False by (cases v) simp_all
    then have "F = take ?p F @ ?b @ drop (?p + length ?b) F"
      by (metis append_take_drop_id drop_drop slice_def add.commute)
    then have split: "buf = (A @ take ?p F) @ ?b @ (drop (?p + length ?b) F @ B)"
      unfolding buf by (metis append.assoc)
    have l: "length (A @ take ?p F) = length A + ?p"
      using i by simp
    have w: "read_word_at n (of_nat (length A + ?p)) (in_at order buf q) = Inr (w, in_at order buf q)"
      if "?b = order_bytes order n w" "LENGTH('w) = 8 * n" for n and w :: "'w::len word"
      using read_word_at_mid [OF that(2), of "A @ take ?p F" order w "drop (?p + length ?b) F @ B" q] assms(3)
      unfolding that(1) [symmetric] split [symmetric] l by simp
    have w8: "read_u8_at (of_nat (length A + ?p)) (in_at order buf q) = Inr (w, in_at order buf q)"
      if "?b = [w]" for w
      using read_u8_at_mid [of "A @ take ?p F" w "drop (?p + length ?b) F @ B" order q] assms(3)
      unfolding that [symmetric] split [symmetric] l by simp
    show ?thesis
      using False assms(4) p [OF i(2)] by (cases v) (simp_all add: w w8 order_bytes_octet del: of_nat_add One_nat_def)
  qed
qed

lemma kinds_apart:
  "is_primitive t \<Longrightarrow> nullable_kind t \<noteq> primitive_kind t"
  "is_primitive t \<Longrightarrow> nullable_array_kind t \<noteq> array_kind t"
  by (cases t; simp)+

lemma value_view_kind [simp]:
  "shape_of (value_view view v) = shape_of v" "kind_of_value (value_view view v) = kind_of_value v"
proof -
  have "item_type_of (map_item view x) = item_type_of x" for x
    by (cases x) simp_all
  then show "shape_of (value_view view v) = shape_of v" "kind_of_value (value_view view v) = kind_of_value v"
    by (cases "(view, v)" rule: value_view.cases; simp)+
qed

text \<open>A field is read back as what was written, wherever the input stands, and the position is left as
  it was.\<close>

lemma read_field_at:
  assumes len: "length F = fixed_size_fields_length s" "length offs = number_of_var_size_fields s"
    and buf: "buf = xs @ record_bytes order s F V offs @ ys" "length buf < 2 ^ 31" "q \<le> length buf"
    and d: "map_of (field_definition_map s) n = Some d" "fd_kind d = kind_of_value v"
      "field_fits (length F) (length offs) d"
    and v: "value_ok L' nested v" "field_in order L rd F V offs d (value_view view v)"
  shows "read_field L rd s (reader_at (length xs) s F V) (shape_of v) n (in_at order buf q) =
    Inr (value_view view v, in_at order buf q)"
proof (cases "is_primitive_value v")
  case True
  then obtain x where x: "v = F_primitive x"
    by (cases v) (simp_all add: is_primitive_value_def)
  have m: "item_type_of (map_item view x) = item_type_of x"
    by (cases x) simp_all
  have "read_fixed (reader_at (length xs) s F V) (item_type_of (map_item view x)) d (in_at order buf q) =
      Inr (map_item view x, in_at order buf q)"
    using d v x m by (intro read_fixed_at [OF len(1) buf(1,2)]) (simp_all add: field_fits_def)
  then show ?thesis
    using d v x m by (simp add: read_primitive_def get_field_descriptor_def)
next
  case False
  let ?r = "reader_at (length xs) s F V"
  have "kind_size_in_bytes (fd_kind d) = VARIABLE_SIZE"
    using value_kind_variable [OF v(1)] False d(2) by simp
  then have i: "0 \<le> fd_index d" "nat (fd_index d) < length offs" "number_of_var_size_fields s \<noteq> 0"
    using d(3) len(2) by (auto simp: field_fits_def)
  note at = read_variable_at [OF i(3) buf(1,2) i(1,2) _ buf(3)]
  show ?thesis
  proof (cases v)
    case (F_nullable t x)
    have "at_field ?r d (sbind (read_item L rd t) (\<lambda>x. sreturn (Some x))) (in_at order buf q) =
        Inr (map_option (map_item view) x, in_at order buf q)"
      using v(2) F_nullable by (intro at) simp
    then show ?thesis
      using F_nullable d kinds_apart(1) [of t]
      by (simp add: read_nullable_primitive_def read_reference_def get_field_descriptor_def get_field_descriptor_of_def
          read_variable_size_def)
  next
    case (F_array t x)
    let ?v = "case x of None \<Rightarrow> None | Some vs \<Rightarrow> array_view t (map (map_item view) vs)"
    have e: "value_view view v = F_array t ?v"
      using F_array by (cases x) simp_all
    have "at_field ?r d (read_array_value L rd t) (in_at order buf q) = Inr (?v, in_at order buf q)"
      using v(2) unfolding e by (intro at) simp
    then show ?thesis
      unfolding e using F_array d by (simp add: read_array_of_primitive_def get_field_descriptor_def)
  next
    case (F_nullable_array t x)
    have "at_field ?r d (sbind (read_item_array (read_item L rd t)) (\<lambda>x. sreturn (Some x))) (in_at order buf q) =
        Inr (map_option (map (map_option (map_item view))) x, in_at order buf q)"
      using v(2) F_nullable_array by (intro at) simp
    then show ?thesis
      using F_nullable_array d kinds_apart(2) [of t]
      by (simp add: read_array_of_nullable_def read_array_of_reference_def get_field_descriptor_def
          get_field_descriptor_of_def read_array_of_variable_size_def)
  qed (use False in \<open>simp add: is_primitive_value_def\<close>)
qed

lemma make_schema_fits:
  assumes "distinct (map fst flds)" "length (filter is_boolean flds) \<le> 129"
  shows "schema_fits (make_schema tn flds)"
proof -
  have b: "0 \<le> i \<and> i < int n \<longleftrightarrow> 0 \<le> i \<and> nat i < n" for i n
    by linarith
  show ?thesis
    using make_schema_layout_ok [OF assms, of tn]
    by (simp add: schema_fits_def layout_ok_def field_fits_def apart_def is_variable_size_def b case_prod_beta)
qed

lemma make_schema_kind_of:
  assumes "distinct (map fst flds)" "map_of flds n = Some d"
  shows "\<exists>d'. map_of (field_definition_map (make_schema tn flds)) n = Some d' \<and> fd_kind d' = fd_kind d"
proof -
  let ?m = "field_definition_map (make_schema tn flds)"
  have "(n, fd_kind d) \<in> set (map (map_prod id fd_kind) ?m)"
    unfolding make_schema_kinds [OF assms(1)] using map_of_SomeD [OF assms(2)] by force
  then obtain d' where "(n, d') \<in> set ?m" "fd_kind d' = fd_kind d"
    by auto
  moreover have "distinct (map fst ?m)"
    using assms(1) by simp
  ultimately show ?thesis
    by auto
qed

lemma make_schema_sizes:
  "fixed_size_fields_length (make_schema tn flds) = nat (fst (snd (schema_layout (sort_key fst flds))))"
  "number_of_var_size_fields (make_schema tn flds) = nat (snd (snd (schema_layout (sort_key fst flds))))"
  by (simp_all add: make_schema_def Let_def split: prod.splits)

text \<open>The kinds of the fields are those the schema was made of.\<close>

lemma fields_ok_make_schema:
  assumes "distinct (map fst flds)" "distinct (map fst fs)"
    "\<forall>(n, v) \<in> set fs. value_ok L nested v \<and>
      (case map_of flds n of None \<Rightarrow> False | Some d \<Rightarrow> fd_kind d = kind_of_value v)"
  shows "fields_ok L nested (make_schema tn flds) fs"
proof -
  have "case map_of (field_definition_map (make_schema tn flds)) n of None \<Rightarrow> False | Some d \<Rightarrow> fd_kind d = k"
    if "case map_of flds n of None \<Rightarrow> False | Some d \<Rightarrow> fd_kind d = k" for n k
  proof -
    obtain d where "map_of flds n = Some d" "fd_kind d = k"
      using \<open>case map_of flds n of None \<Rightarrow> False | Some d \<Rightarrow> fd_kind d = k\<close> by (cases "map_of flds n") simp_all
    then show ?thesis
      using make_schema_kind_of [OF assms(1), of n d tn] by auto
  qed
  then show ?thesis
    using assms(2,3) unfolding fields_ok_def by blast
qed

section \<open>The fields of a record are read as they were written\<close>

text \<open>A record is written field by field, in any order and with any of its fields left out, and the
  reader made for it stands behind it.  Every field that was written is then read as its value, at any
  time and from any position of the input, and the input is left where it was.\<close>

lemma compact_fields_roundtrip:
  assumes "distinct (map fst flds)" "length (filter is_boolean flds) \<le> 129" "s = make_schema tn flds"
    "fields_ok L (nested_codes order wr rd view sz) s fs"
    "length p + 12 + fixed_size_fields_length s + fields_size L sz fs + 4 * number_of_var_size_fields s + length ys < 2 ^ 31"
  shows "\<exists>bs r. write_with_schema s (siter (\<lambda>(n, v). write_field L wr s n v) fs) (out_at order p) =
      Inr ((), out_at order (p @ bs)) \<and>
    sbind read_int64 (\<lambda>id. sbind (make_compact_reader s) (\<lambda>r. sreturn (id, r))) (in_at order (p @ bs @ ys) (length p)) =
      Inr ((schema_id s, r), in_at order (p @ bs @ ys) (length p + length bs)) \<and>
    (\<forall>(n, v) \<in> set fs. \<forall>q \<le> length (p @ bs @ ys).
      read_field L rd s r (shape_of v) n (in_at order (p @ bs @ ys) q) =
        Inr (value_view view v, in_at order (p @ bs @ ys) q))"
proof -
  have fits: "schema_fits s"
    unfolding assms(3) by (rule make_schema_fits [OF assms(1,2)])
  obtain F V offs where 1: "length F = fixed_size_fields_length s" "length offs = number_of_var_size_fields s"
    "length V \<le> fields_size L sz fs" "number_of_var_size_fields s = 0 \<longrightarrow> V = []"
    "appends order (write_with_schema s (siter (\<lambda>(n, v). write_field L wr s n v) fs))
      (order_bytes order 8 (schema_id s) @ record_bytes order s F V offs)"
    "holds order L rd view s F V offs fs"
    using record_image [OF fits assms(4)] by (elim exE conjE) (rule that)
  let ?i = "order_bytes order 8 (schema_id s)" and ?b = "record_bytes order s F V offs"
  let ?buf = "(p @ ?i) @ ?b @ ys" and ?r = "reader_at (length (p @ ?i)) s F V"
  have "length (table_bytes order (length F + length V) offs) \<le> 4 * number_of_var_size_fields s"
    using 1(2) length_table [of order "length F + length V" offs] offset_width_cases [of "int (length F + length V)"]
    by auto
  then have l: "length p + length (?i @ ?b) + length ys < 2 ^ 31"
    using assms(5) 1(1,3) by (simp add: record_bytes_def)
  then have lb: "length ?buf < 2 ^ 31"
    by simp
  have w: "write_with_schema s (siter (\<lambda>(n, v). write_field L wr s n v) fs) (out_at order p) =
      Inr ((), out_at order (p @ ?i @ ?b))"
    using l by (intro appendsD [OF 1(5)]) simp
  have id: "read_int64 (in_at order ?buf (length p)) = Inr (schema_id s, in_at order ?buf (length (p @ ?i)))"
    using decodesD [OF int64.decodes_fetch [OF TrueI], of p order "schema_id s" "?b @ ys"] l by simp
  have rs: "make_compact_reader s (in_at order ?buf (length (p @ ?i))) =
      Inr (?r, in_at order ?buf (length (p @ ?i) + length ?b))"
    by (rule reader_start [OF 1(1,2,4) refl lb])
  have rf: "read_field L rd s ?r (shape_of v) n (in_at order ?buf q) = Inr (value_view view v, in_at order ?buf q)"
    if f: "(n, v) \<in> set fs" and q: "q \<le> length ?buf" for n v q
  proof -
    obtain d where d: "map_of (field_definition_map s) n = Some d" "fd_kind d = kind_of_value v"
      "value_ok L (nested_codes order wr rd view sz) v" "field_in order L rd F V offs d (value_view view v)"
      using fields_okD [OF assms(4) f] 1(6) f by (auto simp: holds_def)
    have "field_fits (length F) (length offs) d"
      using schema_fitsD(1) [OF fits d(1)] 1(1,2) by simp
    then show ?thesis
      using q by (intro read_field_at [OF 1(1,2) refl lb _ d(1,2) _ d(3,4)])
  qed
  show ?thesis
    using w id rs rf by (intro exI [of _ "?i @ ?b"] exI [of _ ?r]) (auto simp: add.assoc)
qed

end
