(* ===== verification/Compact_Object.thy ===== *)
theory Compact_Object
  imports Compact_Record
begin

text \<open>
  Objects of user classes (\<open>compact_writer\<close> in \<open>compact.cpp\<close>, \<open>compact_stream_serializer\<close> and
  \<open>class_to_schema\<close> in \<open>compact_impl.h\<close>).

  The class is given by its \<open>hz_serializer\<close>: the fields its \<open>write\<close> passes to the writer, in order, and the
  function its \<open>read\<close> is.  The same \<open>write\<close> is run twice: on a schema writer, which gathers the names and
  the kinds, once per class, and on the stream.
\<close>

section \<open>The two targets of a compact writer\<close>

datatype writer_target = To_stream schema compact_writer | To_schema schema_writer

definition via_target :: "(schema \<Rightarrow> unit cwm) \<Rightarrow> hz_string \<Rightarrow> field_kind \<Rightarrow> (writer_target, unit) sm" where
  "via_target f name kind target =
    (case target of
       To_stream s w \<Rightarrow> (case f s w of Inl e \<Rightarrow> Inl e | Inr (_, w') \<Rightarrow> Inr ((), To_stream s w'))
     | To_schema sw \<Rightarrow> (case add_field name kind sw of Inl e \<Rightarrow> Inl e | Inr (_, sw') \<Rightarrow> Inr ((), To_schema sw')))"

definition cw_write_primitive :: "hz_string \<Rightarrow> 'r item \<Rightarrow> (writer_target, unit) sm" where
  "cw_write_primitive name v = via_target (\<lambda>s. write_primitive s name v) name (primitive_kind (item_type_of v))"

definition cw_write_reference :: "cpp_int_lib \<Rightarrow> ('r \<Rightarrow> unit dout) \<Rightarrow> hz_string \<Rightarrow> item_type \<Rightarrow> 'r item option \<Rightarrow>
    (writer_target, unit) sm" where
  "cw_write_reference L wr name t v = via_target (\<lambda>s. write_reference L wr s name t v) name (nullable_kind t)"

definition cw_write_array :: "cpp_int_lib \<Rightarrow> ('r \<Rightarrow> unit dout) \<Rightarrow> hz_string \<Rightarrow> item_type \<Rightarrow> 'r item list option \<Rightarrow>
    (writer_target, unit) sm" where
  "cw_write_array L wr name t v = via_target (\<lambda>s. write_array L wr s name t v) name (array_kind t)"

definition cw_write_array_of_reference :: "cpp_int_lib \<Rightarrow> ('r \<Rightarrow> unit dout) \<Rightarrow> hz_string \<Rightarrow> item_type \<Rightarrow>
    'r item option list option \<Rightarrow> (writer_target, unit) sm" where
  "cw_write_array_of_reference L wr name t v =
    via_target (\<lambda>s. write_array_of_reference L wr s name t v) name (nullable_array_kind t)"

definition cw_write_nullable :: "cpp_int_lib \<Rightarrow> ('r \<Rightarrow> unit dout) \<Rightarrow> hz_string \<Rightarrow> item_type \<Rightarrow> 'r item option \<Rightarrow>
    (writer_target, unit) sm" where
  "cw_write_nullable L wr name t v = via_target (\<lambda>s. write_nullable L wr s name t v) name (nullable_kind t)"

definition cw_write_array_of_nullable :: "cpp_int_lib \<Rightarrow> ('r \<Rightarrow> unit dout) \<Rightarrow> hz_string \<Rightarrow> item_type \<Rightarrow>
    'r item option list option \<Rightarrow> (writer_target, unit) sm" where
  "cw_write_array_of_nullable L wr name t v =
    via_target (\<lambda>s. write_nullable_array L wr s name t v) name (nullable_array_kind t)"

fun cw_write_field :: "cpp_int_lib \<Rightarrow> ('r \<Rightarrow> unit dout) \<Rightarrow> hz_string \<Rightarrow> 'r field_value \<Rightarrow> (writer_target, unit) sm" where
  "cw_write_field L wr name (F_primitive v) = cw_write_primitive name v"
| "cw_write_field L wr name (F_nullable t v) =
    (if is_primitive t then cw_write_nullable L wr name t v else cw_write_reference L wr name t v)"
| "cw_write_field L wr name (F_array t v) = cw_write_array L wr name t v"
| "cw_write_field L wr name (F_nullable_array t v) =
    (if is_primitive t then cw_write_array_of_nullable L wr name t v else cw_write_array_of_reference L wr name t v)"

section \<open>The serializer\<close>

definition build_class_schema :: "cpp_int_lib \<Rightarrow> ('r \<Rightarrow> unit dout) \<Rightarrow> hz_string \<Rightarrow>
    (hz_string \<times> 'r field_value) list \<Rightarrow> schema res" where
  "build_class_schema L wr type_name flds =
    (case siter (\<lambda>(n, v). cw_write_field L wr n v) flds (To_schema \<lparr>sw_type_name = type_name, sw_fields = []\<rparr>) of
       Inl e \<Rightarrow> Inl e
     | Inr (_, To_schema sw) \<Rightarrow> Inr (build_schema sw)
     | Inr (_, To_stream _ _) \<Rightarrow> Inl AssertFailure)"

text \<open>\<open>class_to_schema\<close>: the schema of a class is made from the first object that is written.\<close>

definition class_schema_set :: "cpp_int_lib \<Rightarrow> ('r \<Rightarrow> unit dout) \<Rightarrow> hz_string \<Rightarrow>
    (hz_string \<times> 'r field_value) list \<Rightarrow> schema option \<Rightarrow> schema res" where
  "class_schema_set L wr type_name flds class_schema =
    (case class_schema of None \<Rightarrow> build_class_schema L wr type_name flds | Some s \<Rightarrow> Inr s)"

definition on_stream :: "schema \<Rightarrow> (writer_target, unit) sm \<Rightarrow> unit cwm" where
  "on_stream s f w =
    (case f (To_stream s w) of
       Inl e \<Rightarrow> Inl e
     | Inr (_, To_stream _ w') \<Rightarrow> Inr ((), w')
     | Inr (_, To_schema _) \<Rightarrow> Inl AssertFailure)"

record write_result =
  wr_out :: data_output
  wr_class_schema :: schema
  wr_will_be_replicated :: "schema list"

definition write_object :: "cpp_int_lib \<Rightarrow> ('r \<Rightarrow> unit dout) \<Rightarrow> (schema \<Rightarrow> bool) \<Rightarrow> hz_string \<Rightarrow>
    (hz_string \<times> 'r field_value) list \<Rightarrow> schema option \<Rightarrow> data_output \<Rightarrow> write_result res" where
  "write_object L wr is_schema_replicated type_name flds class_schema out =
    (case class_schema_set L wr type_name flds class_schema of
       Inl e \<Rightarrow> Inl e
     | Inr s \<Rightarrow>
        (case write_with_schema s (on_stream s (siter (\<lambda>(n, v). cw_write_field L wr n v) flds)) out of
           Inl e \<Rightarrow> Inl e
         | Inr (_, out') \<Rightarrow> Inr \<lparr>wr_out = out', wr_class_schema = s,
             wr_will_be_replicated = (if is_schema_replicated s then [] else [s])\<rparr>))"

definition read_object :: "(i64 \<Rightarrow> schema option) \<Rightarrow> hz_string \<Rightarrow> schema option \<Rightarrow> (schema \<Rightarrow> compact_reader \<Rightarrow> 'a din) \<Rightarrow> 'a din" where
  "read_object service type_name class_schema hz_read = sbind read_int64 (\<lambda>id.
    case class_schema of
      Some s \<Rightarrow>
        if id = schema_id s then sbind (make_compact_reader s) (hz_read s)
        else (case service id of
                None \<Rightarrow> sfail HazelcastSerialization
              | Some s' \<Rightarrow> if sch_type_name s' \<noteq> type_name then sfail HazelcastSerialization
                           else sbind (make_compact_reader s') (hz_read s'))
    | None \<Rightarrow>
        (case service id of
           None \<Rightarrow> sfail HazelcastSerialization
         | Some s' \<Rightarrow> if sch_type_name s' \<noteq> type_name then sfail HazelcastSerialization
                      else sbind (make_compact_reader s') (hz_read s')))"

text \<open>A \<open>read\<close> that reads some fields, one after the other.\<close>

fun read_named :: "cpp_int_lib \<Rightarrow> 'r din \<Rightarrow> (hz_string \<times> field_shape) list \<Rightarrow> schema \<Rightarrow> compact_reader \<Rightarrow>
    'r field_value list din" where
  "read_named L rd [] s r = sreturn []"
| "read_named L rd ((n, shape) # fs) s r =
    sbind (read_field L rd s r shape n) (\<lambda>v. sbind (read_named L rd fs s r) (\<lambda>vs. sreturn (v # vs)))"

section \<open>Both targets see the same fields\<close>

lemma cw_write_field_stream:
  "cw_write_field L wr name v (To_stream s w) =
    (case write_field L wr s name v w of Inl e \<Rightarrow> Inl e | Inr (_, w') \<Rightarrow> Inr ((), To_stream s w'))"
  by (cases v) (simp_all add: via_target_def cw_write_primitive_def cw_write_reference_def cw_write_array_def
      cw_write_array_of_reference_def cw_write_nullable_def cw_write_array_of_nullable_def
      write_field.simps(2,4) del: write_field_nullable)

lemma cw_write_field_schema:
  "cw_write_field L wr name v (To_schema sw) =
    (case add_field name (kind_of_value v) sw of Inl e \<Rightarrow> Inl e | Inr (_, sw') \<Rightarrow> Inr ((), To_schema sw'))"
  by (cases v) (simp_all add: via_target_def cw_write_primitive_def cw_write_reference_def cw_write_array_def
      cw_write_array_of_reference_def cw_write_nullable_def cw_write_array_of_nullable_def)

lemma on_stream_fields:
  "on_stream s (siter (\<lambda>(n, v). cw_write_field L wr n v) fs) = siter (\<lambda>(n, v). write_field L wr s n v) fs"
proof (rule ext)
  fix w
  show "on_stream s (siter (\<lambda>(n, v). cw_write_field L wr n v) fs) w = siter (\<lambda>(n, v). write_field L wr s n v) fs w"
  proof (induction fs arbitrary: w)
    case (Cons f fs)
    obtain n v where "f = (n, v)"
      by force
    then show ?case
      using Cons.IH
      by (cases "write_field L wr s n v w") (auto simp: on_stream_def cw_write_field_stream sthen_def)
  qed (simp add: on_stream_def)
qed

definition field_keys :: "(hz_string \<times> 'r field_value) list \<Rightarrow> (hz_string \<times> field_descriptor) list" where
  "field_keys fs = map (\<lambda>(n, v). (n, make_field_descriptor (kind_of_value v))) fs"

lemma schema_writer_fields:
  assumes "distinct (map fst (sw_fields sw) @ map fst fs)"
  shows "siter (\<lambda>(n, v). cw_write_field L wr n v) fs (To_schema sw) =
    Inr ((), To_schema (sw\<lparr>sw_fields := sw_fields sw @ field_keys fs\<rparr>))"
  using assms
proof (induction fs arbitrary: sw)
  case (Cons f fs)
  obtain n v where f: "f = (n, v)"
    by force
  let ?sw = "sw\<lparr>sw_fields := sw_fields sw @ [(n, make_field_descriptor (kind_of_value v))]\<rparr>"
  have "map_of (sw_fields sw) n = None"
    using Cons.prems f by (simp add: map_of_eq_None_iff)
  then have "cw_write_field L wr n v (To_schema sw) = Inr ((), To_schema ?sw)"
    by (simp add: cw_write_field_schema add_field_def)
  moreover have "siter (\<lambda>(n, v). cw_write_field L wr n v) fs (To_schema ?sw) =
      Inr ((), To_schema (?sw\<lparr>sw_fields := sw_fields ?sw @ field_keys fs\<rparr>))"
    using Cons.prems f by (intro Cons.IH) simp
  ultimately show ?case
    by (simp add: f field_keys_def)
qed (simp add: field_keys_def)

lemma build_class_schema_fields:
  assumes "distinct (map fst fs)"
  shows "build_class_schema L wr type_name fs = Inr (make_schema type_name (field_keys fs))"
  using assms by (simp add: build_class_schema_def schema_writer_fields build_schema_def)

lemma same_kinds_fields_ok:
  assumes "distinct (map fst fs0)" "field_keys fs = field_keys fs0" "\<forall>(n, v) \<in> set fs. value_ok L nested v"
  shows "fields_ok L nested (make_schema tn (field_keys fs0)) fs"
proof (rule fields_ok_make_schema)
  show d: "distinct (map fst (field_keys fs0))"
    using assms(1) by (simp add: field_keys_def case_prod_unfold comp_def)
  then show "distinct (map fst fs)"
    unfolding assms(2) [symmetric] by (simp add: field_keys_def case_prod_unfold comp_def)
  have "case map_of (field_keys fs0) n of None \<Rightarrow> False | Some d \<Rightarrow> fd_kind d = kind_of_value v"
    if "(n, v) \<in> set fs" for n v
  proof -
    have "(n, make_field_descriptor (kind_of_value v)) \<in> set (field_keys fs0)"
      unfolding assms(2) [symmetric] using that by (force simp: field_keys_def)
    then show ?thesis
      using d by (simp add: make_field_descriptor_def)
  qed
  then show "\<forall>(n, v) \<in> set fs. value_ok L nested v \<and>
      (case map_of (field_keys fs0) n of None \<Rightarrow> False | Some d \<Rightarrow> fd_kind d = kind_of_value v)"
    using assms(3) by blast
qed

lemma read_named_all:
  assumes "\<And>n v. (n, v) \<in> set ks \<Longrightarrow> read_field L rd s r (shape_of v) n inp = Inr (value_view view v, inp)"
  shows "read_named L rd (map (map_prod id shape_of) ks) s r inp = Inr (map (value_view view) (map snd ks), inp)"
  using assms
proof (induction ks)
  case (Cons k ks)
  obtain n v where "k = (n, v)"
    by force
  then show ?case
    using Cons.IH Cons.prems [of n v] Cons.prems by simp
qed simp


text \<open>An object with fields of every shape, and a reader that reads two of them.\<close>

definition sample_values :: "(hz_string \<times> unit field_value) list" where
  "sample_values = [([110], F_nullable_array IT_int16 (Some [Some (I_int16 5), None])),
    ([98], F_primitive (I_bool True)), ([115], F_nullable IT_string (Some (I_string [104, 105]))),
    ([97], F_primitive (I_int32 7)), ([116], F_array IT_bool (Some [I_bool True, I_bool False]))]"

lemma sample_sizes:
  "fixed_size_fields_length (make_schema [84] (field_keys sample_values)) = 5"
  "number_of_var_size_fields (make_schema [84] (field_keys sample_values)) = 3"
  "fields_size L (\<lambda>_. 0) sample_values = 30"
proof -
  have "snd (schema_layout (sort_key fst (field_keys sample_values))) = (5, 3)"
    by code_simp
  then show "fixed_size_fields_length (make_schema [84] (field_keys sample_values)) = 5"
    "number_of_var_size_fields (make_schema [84] (field_keys sample_values)) = 3"
    by (simp_all add: make_schema_sizes)
  show "fields_size L (\<lambda>_. 0) sample_values = 30"
    by (simp add: fields_size_def sample_values_def)
qed


end
