(* ===== verification/Generic_Record.thy ===== *)
theory Generic_Record
  imports Compact_Record
begin

text \<open>
  Generic records (\<open>generic_record.h\<close>, \<open>generic_record_builder.h\<close>, \<open>compact.cpp\<close>): the builder with
  its three strategies, the getters with the conversions between arrays of values and arrays of values
  that may be absent, and the generic half of \<open>compact_stream_serializer\<close>.

  The value a record holds for a field is a \<open>boost::any\<close> in the source and a \<open>field_value\<close> here: its
  constructor and its tag are the type \<open>any_cast\<close> tests.  The setter of a kind passes a value of the
  type of that kind, so that the kind \<open>write\<close> is called with is \<open>kind_of_value\<close> of its value.
\<close>

section \<open>The builder\<close>

datatype strategy = Default_Builder | Cloner | Schema_Bounded

record 'r generic_record_builder =
  gb_strategy :: strategy
  gb_already_built :: bool
  gb_overwritten_fields :: "hz_string list"
  gb_objects :: "(hz_string \<times> 'r field_value) list"
  gb_writer_or_schema :: "schema_writer + schema"

definition new_default_builder :: "hz_string \<Rightarrow> 'r generic_record_builder" where
  "new_default_builder type_name =
    \<lparr>gb_strategy = Default_Builder, gb_already_built = False, gb_overwritten_fields = [], gb_objects = [],
     gb_writer_or_schema = Inl \<lparr>sw_type_name = type_name, sw_fields = []\<rparr>\<rparr>"

definition new_schema_bounded_builder :: "schema \<Rightarrow> 'r generic_record_builder" where
  "new_schema_bounded_builder s =
    \<lparr>gb_strategy = Schema_Bounded, gb_already_built = False, gb_overwritten_fields = [], gb_objects = [],
     gb_writer_or_schema = Inr s\<rparr>"

definition new_cloner :: "schema \<Rightarrow> (hz_string \<times> 'r field_value) list \<Rightarrow> 'r generic_record_builder" where
  "new_cloner s objects =
    \<lparr>gb_strategy = Cloner, gb_already_built = False, gb_overwritten_fields = [], gb_objects = objects,
     gb_writer_or_schema = Inr s\<rparr>"

definition check_type_with_schema :: "schema \<Rightarrow> hz_string \<Rightarrow> field_kind \<Rightarrow> unit res" where
  "check_type_with_schema s name kind =
    (case map_of (field_definition_map s) name of
       None \<Rightarrow> Inl HazelcastSerialization
     | Some fd \<Rightarrow> if fd_kind fd \<noteq> kind then Inl HazelcastSerialization else Inr ())"

definition replace_object :: "hz_string \<Rightarrow> 'v \<Rightarrow> (hz_string \<times> 'v) list \<Rightarrow> (hz_string \<times> 'v) list" where
  "replace_object name v objects = map (\<lambda>(n, w). (n, if n = name then v else w)) objects"

definition check_strategy :: "hz_string \<Rightarrow> field_kind \<Rightarrow> 'r generic_record_builder \<Rightarrow> unit res" where
  "check_strategy name kind b =
    (if gb_strategy b = Default_Builder then Inr ()
     else case gb_writer_or_schema b of
            Inl _ \<Rightarrow> Inl BadCast
          | Inr s \<Rightarrow> check_type_with_schema s name kind)"

definition builder_write :: "hz_string \<Rightarrow> 'r field_value \<Rightarrow> 'r generic_record_builder \<Rightarrow>
    'r generic_record_builder res" where
  "builder_write name v b =
    (if gb_already_built b then Inl HazelcastSerialization
     else case check_strategy name (kind_of_value v) b of
       Inl e \<Rightarrow> Inl e
     | Inr _ \<Rightarrow>
        (case gb_strategy b of
           Cloner \<Rightarrow>
             if name \<in> set (gb_overwritten_fields b) then Inl HazelcastSerialization
             else if map_of (gb_objects b) name = None then Inl AssertFailure
             else Inr (b\<lparr>gb_overwritten_fields := name # gb_overwritten_fields b,
                         gb_objects := replace_object name v (gb_objects b)\<rparr>)
         | Schema_Bounded \<Rightarrow>
             if map_of (gb_objects b) name \<noteq> None then Inl HazelcastSerialization
             else Inr (b\<lparr>gb_objects := gb_objects b @ [(name, v)]\<rparr>)
         | Default_Builder \<Rightarrow>
             if map_of (gb_objects b) name \<noteq> None then Inl HazelcastSerialization
             else (case gb_writer_or_schema b of
                     Inr _ \<Rightarrow> Inl BadCast
                   | Inl w \<Rightarrow> (case add_field name (kind_of_value v) w of
                       Inl e \<Rightarrow> Inl e
                     | Inr (_, w') \<Rightarrow> Inr (b\<lparr>gb_objects := gb_objects b @ [(name, v)],
                                             gb_writer_or_schema := Inl w'\<rparr>)))))"

text \<open>The setters, by what they are given.\<close>

definition set_primitive :: "hz_string \<Rightarrow> 'r item \<Rightarrow> 'r generic_record_builder \<Rightarrow> 'r generic_record_builder res" where
  "set_primitive name v = builder_write name (F_primitive v)"

definition set_nullable_value :: "hz_string \<Rightarrow> item_type \<Rightarrow> 'r item option \<Rightarrow> 'r generic_record_builder \<Rightarrow>
    'r generic_record_builder res" where
  "set_nullable_value name t v = builder_write name (F_nullable t v)"

definition set_reference :: "hz_string \<Rightarrow> item_type \<Rightarrow> 'r item option \<Rightarrow> 'r generic_record_builder \<Rightarrow>
    'r generic_record_builder res" where
  "set_reference name t v = builder_write name (F_nullable t v)"

definition set_array :: "hz_string \<Rightarrow> item_type \<Rightarrow> 'r item list option \<Rightarrow> 'r generic_record_builder \<Rightarrow>
    'r generic_record_builder res" where
  "set_array name t v = builder_write name (F_array t v)"

definition set_array_of_nullable :: "hz_string \<Rightarrow> item_type \<Rightarrow> 'r item option list option \<Rightarrow> 'r generic_record_builder \<Rightarrow>
    'r generic_record_builder res" where
  "set_array_of_nullable name t v = builder_write name (F_nullable_array t v)"

definition set_array_of_reference :: "hz_string \<Rightarrow> item_type \<Rightarrow> 'r item option list option \<Rightarrow> 'r generic_record_builder \<Rightarrow>
    'r generic_record_builder res" where
  "set_array_of_reference name t v = builder_write name (F_nullable_array t v)"

fun builder_set :: "hz_string \<Rightarrow> 'r field_value \<Rightarrow> 'r generic_record_builder \<Rightarrow> 'r generic_record_builder res" where
  "builder_set name (F_primitive v) = set_primitive name v"
| "builder_set name (F_nullable t v) = (if is_primitive t then set_nullable_value name t v else set_reference name t v)"
| "builder_set name (F_array t v) = set_array name t v"
| "builder_set name (F_nullable_array t v) =
    (if is_primitive t then set_array_of_nullable name t v else set_array_of_reference name t v)"

text \<open>The chained calls of the setters.\<close>

fun builder_writes :: "(hz_string \<times> 'r field_value) list \<Rightarrow> 'r generic_record_builder \<Rightarrow>
    'r generic_record_builder res" where
  "builder_writes [] b = Inr b"
| "builder_writes ((name, v) # fs) b =
    (case builder_set name v b of Inl e \<Rightarrow> Inl e | Inr b' \<Rightarrow> builder_writes fs b')"

datatype generic_record = Generic_Record (gr_schema: schema) (gr_objects: "(hz_string \<times> generic_record field_value) list")

text \<open>The objects are moved into the record, and the builder is left without them.\<close>

definition builder_build :: "generic_record generic_record_builder \<Rightarrow>
    (generic_record \<times> generic_record generic_record_builder) res" where
  "builder_build b =
    (let b' = b\<lparr>gb_already_built := True, gb_objects := []\<rparr> in
     case gb_strategy b of
       Default_Builder \<Rightarrow>
         (case gb_writer_or_schema b of
            Inr _ \<Rightarrow> Inl BadCast
          | Inl w \<Rightarrow> Inr (Generic_Record (build_schema w) (gb_objects b), b'))
     | _ \<Rightarrow>
         (case gb_writer_or_schema b of
            Inl _ \<Rightarrow> Inl BadCast
          | Inr s \<Rightarrow>
              if gb_strategy b = Schema_Bounded \<and>
                 list_ex (\<lambda>(n, _). map_of (gb_objects b) n = None) (field_definition_map s)
              then Inl HazelcastSerialization
              else Inr (Generic_Record s (gb_objects b), b')))"

definition new_builder :: "generic_record \<Rightarrow> generic_record generic_record_builder" where
  "new_builder r = new_schema_bounded_builder (gr_schema r)"

definition new_builder_with_clone :: "generic_record \<Rightarrow> generic_record generic_record_builder" where
  "new_builder_with_clone r = new_cloner (gr_schema r) (gr_objects r)"

section \<open>The getters\<close>

definition get_field_kind :: "schema \<Rightarrow> hz_string \<Rightarrow> field_kind" where
  "get_field_kind s name =
    (case map_of (field_definition_map s) name of None \<Rightarrow> FK_NOT_AVAILABLE | Some d \<Rightarrow> fd_kind d)"

definition has_field :: "(hz_string \<times> 'r field_value) list \<Rightarrow> hz_string \<Rightarrow> bool" where
  "has_field objects name \<longleftrightarrow> map_of objects name \<noteq> None"

definition check_kinds :: "schema \<Rightarrow> hz_string \<Rightarrow> field_kind list \<Rightarrow> field_kind res" where
  "check_kinds s name kinds =
    (case map_of (field_definition_map s) name of
       None \<Rightarrow> Inl HazelcastSerialization
     | Some d \<Rightarrow> if fd_kind d \<in> set kinds then Inr (fd_kind d) else Inl HazelcastSerialization)"

definition object_at :: "(hz_string \<times> 'v) list \<Rightarrow> hz_string \<Rightarrow> 'v res" where
  "object_at objects name = (case map_of objects name of None \<Rightarrow> Inl OutOfRange | Some v \<Rightarrow> Inr v)"

text \<open>\<open>boost::any_cast\<close> to the four types of values.\<close>

fun cast_primitive :: "item_type \<Rightarrow> 'r field_value \<Rightarrow> 'r item res" where
  "cast_primitive t (F_primitive v) = (if item_type_of v = t then Inr v else Inl BadCast)"
| "cast_primitive t _ = Inl BadCast"

fun cast_nullable :: "item_type \<Rightarrow> 'r field_value \<Rightarrow> 'r item option res" where
  "cast_nullable t (F_nullable t' v) = (if t' = t then Inr v else Inl BadCast)"
| "cast_nullable t _ = Inl BadCast"

fun cast_array :: "item_type \<Rightarrow> 'r field_value \<Rightarrow> 'r item list option res" where
  "cast_array t (F_array t' v) = (if t' = t then Inr v else Inl BadCast)"
| "cast_array t _ = Inl BadCast"

fun cast_nullable_array :: "item_type \<Rightarrow> 'r field_value \<Rightarrow> 'r item option list option res" where
  "cast_nullable_array t (F_nullable_array t' v) = (if t' = t then Inr v else Inl BadCast)"
| "cast_nullable_array t _ = Inl BadCast"

definition bind_res :: "'a res \<Rightarrow> ('a \<Rightarrow> 'b res) \<Rightarrow> 'b res" where
  "bind_res r k = (case r of Inl e \<Rightarrow> Inl e | Inr x \<Rightarrow> k x)"

lemma bind_res_simps [simp]: "bind_res (Inl e) k = Inl e" "bind_res (Inr x) k = k x"
  by (simp_all add: bind_res_def)

definition gr_get :: "schema \<Rightarrow> (hz_string \<times> 'r field_value) list \<Rightarrow> hz_string \<Rightarrow> field_kind \<Rightarrow>
    ('r field_value \<Rightarrow> 'a res) \<Rightarrow> 'a res" where
  "gr_get s objects name kind cast =
    bind_res (check_kinds s name [kind]) (\<lambda>_. bind_res (object_at objects name) cast)"

definition get_non_null :: "schema \<Rightarrow> (hz_string \<times> 'r field_value) list \<Rightarrow> item_type \<Rightarrow> hz_string \<Rightarrow> 'r item res" where
  "get_non_null s objects t name =
    bind_res (check_kinds s name [primitive_kind t, nullable_kind t]) (\<lambda>kind.
      if kind = nullable_kind t
      then bind_res (object_at objects name) (\<lambda>v. bind_res (cast_nullable t v) (\<lambda>val_opt.
             case val_opt of None \<Rightarrow> Inl HazelcastSerialization | Some x \<Rightarrow> Inr x))
      else bind_res (object_at objects name) (cast_primitive t))"

text \<open>A value converted by one of the array getters is kept in \<open>adopteds_\<close> and found there by the next
  call.\<close>

type_synonym 'r adopteds = "(hz_string \<times> 'r field_value) list"

definition get_array_of_primitive :: "schema \<Rightarrow> (hz_string \<times> 'r field_value) list \<Rightarrow> item_type \<Rightarrow> hz_string \<Rightarrow>
    ('r adopteds, 'r item list option) sm" where
  "get_array_of_primitive s objects t name = (\<lambda>adopteds.
    bind_res (check_kinds s name [array_kind t, nullable_array_kind t]) (\<lambda>kind.
      if kind = nullable_array_kind t
      then (case map_of adopteds name of
              Some a \<Rightarrow> bind_res (cast_array t a) (\<lambda>v. Inr (v, adopteds))
            | None \<Rightarrow> bind_res (object_at objects name) (\<lambda>v. bind_res (cast_nullable_array t v) (\<lambda>arr.
                case arr of
                  None \<Rightarrow> Inr (None, adopteds @ [(name, F_array t None)])
                | Some vs \<Rightarrow>
                    if None \<in> set vs then Inl HazelcastSerialization
                    else let ps = map the vs in Inr (Some ps, adopteds @ [(name, F_array t (Some ps))]))))
      else bind_res (object_at objects name) (\<lambda>v. bind_res (cast_array t v) (\<lambda>arr. Inr (arr, adopteds)))))"

definition get_array_of_nullable :: "schema \<Rightarrow> (hz_string \<times> 'r field_value) list \<Rightarrow> item_type \<Rightarrow> hz_string \<Rightarrow>
    ('r adopteds, 'r item option list option) sm" where
  "get_array_of_nullable s objects t name = (\<lambda>adopteds.
    bind_res (check_kinds s name [array_kind t, nullable_array_kind t]) (\<lambda>kind.
      if kind = array_kind t
      then (case map_of adopteds name of
              Some a \<Rightarrow> bind_res (cast_nullable_array t a) (\<lambda>v. Inr (v, adopteds))
            | None \<Rightarrow> bind_res (object_at objects name) (\<lambda>v. bind_res (cast_array t v) (\<lambda>arr.
                let ns = map_option (map Some) arr in Inr (ns, adopteds @ [(name, F_nullable_array t ns)]))))
      else bind_res (object_at objects name) (\<lambda>v. bind_res (cast_nullable_array t v) (\<lambda>arr. Inr (arr, adopteds)))))"

text \<open>The getters, by what they return.\<close>

definition get_primitive_value :: "schema \<Rightarrow> (hz_string \<times> 'r field_value) list \<Rightarrow> item_type \<Rightarrow> hz_string \<Rightarrow> 'r item res" where
  "get_primitive_value s objects t name = get_non_null s objects t name"

definition get_nullable_value :: "schema \<Rightarrow> (hz_string \<times> 'r field_value) list \<Rightarrow> item_type \<Rightarrow> hz_string \<Rightarrow>
    'r item option res" where
  "get_nullable_value s objects t name = gr_get s objects name (nullable_kind t) (cast_nullable t)"

definition get_reference :: "schema \<Rightarrow> (hz_string \<times> 'r field_value) list \<Rightarrow> item_type \<Rightarrow> hz_string \<Rightarrow>
    'r item option res" where
  "get_reference s objects t name = gr_get s objects name (nullable_kind t) (cast_nullable t)"

definition get_array :: "schema \<Rightarrow> (hz_string \<times> 'r field_value) list \<Rightarrow> item_type \<Rightarrow> hz_string \<Rightarrow>
    ('r adopteds, 'r item list option) sm" where
  "get_array s objects t name = get_array_of_primitive s objects t name"

definition get_nullable_array :: "schema \<Rightarrow> (hz_string \<times> 'r field_value) list \<Rightarrow> item_type \<Rightarrow> hz_string \<Rightarrow>
    ('r adopteds, 'r item option list option) sm" where
  "get_nullable_array s objects t name = get_array_of_nullable s objects t name"

definition get_array_of_reference :: "schema \<Rightarrow> (hz_string \<times> 'r field_value) list \<Rightarrow> item_type \<Rightarrow> hz_string \<Rightarrow>
    'r item option list option res" where
  "get_array_of_reference s objects t name = gr_get s objects name (nullable_array_kind t) (cast_nullable_array t)"

lemmas getter_defs = get_primitive_value_def get_nullable_value_def get_reference_def get_array_def
  get_nullable_array_def get_array_of_reference_def

fun get_value :: "schema \<Rightarrow> (hz_string \<times> 'r field_value) list \<Rightarrow> field_shape \<Rightarrow> hz_string \<Rightarrow>
    ('r adopteds, 'r field_value) sm" where
  "get_value s objects (S_primitive t) name = (\<lambda>adopteds.
    bind_res (get_primitive_value s objects t name) (\<lambda>v. Inr (F_primitive v, adopteds)))"
| "get_value s objects (S_nullable t) name = (\<lambda>adopteds.
    bind_res (if is_primitive t then get_nullable_value s objects t name else get_reference s objects t name)
      (\<lambda>v. Inr (F_nullable t v, adopteds)))"
| "get_value s objects (S_array t) name =
    sbind (get_array s objects t name) (\<lambda>v. sreturn (F_array t v))"
| "get_value s objects (S_nullable_array t) name =
    (if is_primitive t then sbind (get_nullable_array s objects t name) (\<lambda>v. sreturn (F_nullable_array t v))
     else (\<lambda>adopteds. bind_res (get_array_of_reference s objects t name)
       (\<lambda>v. Inr (F_nullable_array t v, adopteds))))"

section \<open>The generic half of the serializer\<close>

text \<open>The operations of a kind in \<open>field_operations::get\<close>: which getter and which method of the writer, or
  which method of the reader and which setter, move a field of that kind.  The entries without functions
  raise \<open>std::bad_function_call\<close>.\<close>

fun kind_shape :: "field_kind \<Rightarrow> field_shape option" where
  "kind_shape FK_NOT_AVAILABLE = None"
| "kind_shape FK_BOOLEAN = Some (S_primitive IT_bool)"
| "kind_shape FK_ARRAY_OF_BOOLEAN = Some (S_array IT_bool)"
| "kind_shape FK_INT8 = Some (S_primitive IT_int8)"
| "kind_shape FK_ARRAY_OF_INT8 = Some (S_array IT_int8)"
| "kind_shape FK_INT16 = Some (S_primitive IT_int16)"
| "kind_shape FK_ARRAY_OF_INT16 = Some (S_array IT_int16)"
| "kind_shape FK_INT32 = Some (S_primitive IT_int32)"
| "kind_shape FK_ARRAY_OF_INT32 = Some (S_array IT_int32)"
| "kind_shape FK_INT64 = Some (S_primitive IT_int64)"
| "kind_shape FK_ARRAY_OF_INT64 = Some (S_array IT_int64)"
| "kind_shape FK_FLOAT32 = Some (S_primitive IT_float32)"
| "kind_shape FK_ARRAY_OF_FLOAT32 = Some (S_array IT_float32)"
| "kind_shape FK_FLOAT64 = Some (S_primitive IT_float64)"
| "kind_shape FK_ARRAY_OF_FLOAT64 = Some (S_array IT_float64)"
| "kind_shape FK_STRING = Some (S_nullable IT_string)"
| "kind_shape FK_ARRAY_OF_STRING = Some (S_nullable_array IT_string)"
| "kind_shape FK_DECIMAL = Some (S_nullable IT_decimal)"
| "kind_shape FK_ARRAY_OF_DECIMAL = Some (S_nullable_array IT_decimal)"
| "kind_shape FK_TIME = Some (S_nullable IT_time)"
| "kind_shape FK_ARRAY_OF_TIME = Some (S_nullable_array IT_time)"
| "kind_shape FK_DATE = Some (S_nullable IT_date)"
| "kind_shape FK_ARRAY_OF_DATE = Some (S_nullable_array IT_date)"
| "kind_shape FK_TIMESTAMP = Some (S_nullable IT_timestamp)"
| "kind_shape FK_ARRAY_OF_TIMESTAMP = Some (S_nullable_array IT_timestamp)"
| "kind_shape FK_TIMESTAMP_WITH_TIMEZONE = Some (S_nullable IT_timestamp_tz)"
| "kind_shape FK_ARRAY_OF_TIMESTAMP_WITH_TIMEZONE = Some (S_nullable_array IT_timestamp_tz)"
| "kind_shape FK_COMPACT = Some (S_nullable IT_compact)"
| "kind_shape FK_ARRAY_OF_COMPACT = Some (S_nullable_array IT_compact)"
| "kind_shape FK_NULLABLE_BOOLEAN = Some (S_nullable IT_bool)"
| "kind_shape FK_ARRAY_OF_NULLABLE_BOOLEAN = Some (S_nullable_array IT_bool)"
| "kind_shape FK_NULLABLE_INT8 = Some (S_nullable IT_int8)"
| "kind_shape FK_ARRAY_OF_NULLABLE_INT8 = Some (S_nullable_array IT_int8)"
| "kind_shape FK_NULLABLE_INT16 = Some (S_nullable IT_int16)"
| "kind_shape FK_ARRAY_OF_NULLABLE_INT16 = Some (S_nullable_array IT_int16)"
| "kind_shape FK_NULLABLE_INT32 = Some (S_nullable IT_int32)"
| "kind_shape FK_ARRAY_OF_NULLABLE_INT32 = Some (S_nullable_array IT_int32)"
| "kind_shape FK_NULLABLE_INT64 = Some (S_nullable IT_int64)"
| "kind_shape FK_ARRAY_OF_NULLABLE_INT64 = Some (S_nullable_array IT_int64)"
| "kind_shape FK_NULLABLE_FLOAT32 = Some (S_nullable IT_float32)"
| "kind_shape FK_ARRAY_OF_NULLABLE_FLOAT32 = Some (S_nullable_array IT_float32)"
| "kind_shape FK_NULLABLE_FLOAT64 = Some (S_nullable IT_float64)"
| "kind_shape FK_ARRAY_OF_NULLABLE_FLOAT64 = Some (S_nullable_array IT_float64)"

definition write_field_from_record :: "cpp_int_lib \<Rightarrow> schema \<Rightarrow> (hz_string \<times> unit dout field_value) list \<Rightarrow>
    hz_string \<times> field_descriptor \<Rightarrow> unit cwm" where
  "write_field_from_record L s objects f =
    (case kind_shape (fd_kind (snd f)) of
       None \<Rightarrow> sfail BadFunctionCall
     | Some shape \<Rightarrow> (case get_value s objects shape (fst f) [] of
         Inl e \<Rightarrow> sfail e
       | Inr (v, _) \<Rightarrow> write_field L id s (fst f) v))"

text \<open>The records nested in a record are given to it as their writers.\<close>

primrec write_generic_record :: "cpp_int_lib \<Rightarrow> generic_record \<Rightarrow> unit dout" where
  "write_generic_record L (Generic_Record s objects) =
    write_with_schema s (siter (write_field_from_record L s
      (map (map_prod id (map_field_value (write_generic_record L))) objects)) (field_definition_map s))"

fun read_fields :: "cpp_int_lib \<Rightarrow> generic_record din \<Rightarrow> schema \<Rightarrow> compact_reader \<Rightarrow>
    (hz_string \<times> field_descriptor) list \<Rightarrow> generic_record generic_record_builder \<Rightarrow> generic_record generic_record_builder din" where
  "read_fields L rd s r [] b = sreturn b"
| "read_fields L rd s r ((name, d) # fs) b =
    (case kind_shape (fd_kind d) of
       None \<Rightarrow> sfail BadFunctionCall
     | Some shape \<Rightarrow> sbind (read_field L rd s r shape name) (\<lambda>v.
         case builder_set name v b of Inl e \<Rightarrow> sfail e | Inr b' \<Rightarrow> read_fields L rd s r fs b'))"

text \<open>The schema service is a function from ids to schemas.  A record whose nested records are nested
  deeper than the first argument is not read: the recursion of the source ends only with the stack.\<close>

fun read_generic_record :: "nat \<Rightarrow> cpp_int_lib \<Rightarrow> (i64 \<Rightarrow> schema option) \<Rightarrow> generic_record din" where
  "read_generic_record 0 L service = sfail Diverges"
| "read_generic_record (Suc n) L service = sbind read_int64 (\<lambda>id.
    case service id of
      None \<Rightarrow> sfail HazelcastSerialization
    | Some s \<Rightarrow> sbind (make_compact_reader s) (\<lambda>r.
        sbind (read_fields L (read_generic_record n L service) s r (field_definition_map s) (new_schema_bounded_builder s))
          (\<lambda>b. case builder_build b of Inl e \<Rightarrow> sfail e | Inr (rec, _) \<Rightarrow> sreturn rec)))"

lemma builder_set_write [simp]: "builder_set name v b = builder_write name v b"
  by (cases v) (simp_all add: set_primitive_def set_nullable_value_def set_reference_def set_array_def
      set_array_of_nullable_def set_array_of_reference_def)

declare builder_set.simps [simp del]

section \<open>Typed records\<close>

text \<open>A value of the type of its tag.\<close>

fun value_typed :: "'r field_value \<Rightarrow> bool" where
  "value_typed (F_primitive v) \<longleftrightarrow> is_primitive (item_type_of v)"
| "value_typed (F_nullable t v) \<longleftrightarrow> pred_option (\<lambda>x. item_type_of x = t) v"
| "value_typed (F_array t v) \<longleftrightarrow> is_primitive t \<and> pred_option (list_all (\<lambda>x. item_type_of x = t)) v"
| "value_typed (F_nullable_array t v) \<longleftrightarrow> pred_option (list_all (pred_option (\<lambda>x. item_type_of x = t))) v"

definition record_typed :: "schema \<Rightarrow> (hz_string \<times> 'r field_value) list \<Rightarrow> bool" where
  "record_typed s objects \<longleftrightarrow> distinct (map fst objects) \<and>
    fst ` set objects = fst ` set (field_definition_map s) \<and>
    (\<forall>(n, v) \<in> set objects. value_typed v \<and> get_field_kind s n = kind_of_value v)"

text \<open>The kind of a field decides the type of its value.\<close>

lemma kind_shape_of_value: "value_typed v \<Longrightarrow> kind_shape (kind_of_value v) = Some (shape_of v)"
proof (cases v)
  case (F_primitive x)
  then show "value_typed v \<Longrightarrow> ?thesis" by (cases "item_type_of x") simp_all
next
  case (F_nullable t x)
  then show ?thesis by (cases t) simp_all
next
  case (F_array t x)
  then show "value_typed v \<Longrightarrow> ?thesis" by (cases t) simp_all
next
  case (F_nullable_array t x)
  then show ?thesis by (cases t) simp_all
qed

lemma kind_determines_shape:
  "value_typed v \<Longrightarrow> value_typed w \<Longrightarrow> kind_of_value v = kind_of_value w \<Longrightarrow> shape_of v = shape_of w"
  using kind_shape_of_value [of v] kind_shape_of_value [of w] by simp

lemma kind_of_value_known: "value_typed v \<Longrightarrow> kind_of_value v \<noteq> FK_NOT_AVAILABLE"
  using kind_shape_of_value [of v] by auto

lemma shape_of_kind:
  assumes "value_typed v"
  shows "kind_of_value v = primitive_kind t \<Longrightarrow> is_primitive t \<Longrightarrow> shape_of v = S_primitive t"
    and "kind_of_value v = nullable_kind t \<Longrightarrow> shape_of v = S_nullable t"
    and "kind_of_value v = array_kind t \<Longrightarrow> is_primitive t \<Longrightarrow> shape_of v = S_array t"
    and "kind_of_value v = nullable_array_kind t \<Longrightarrow> shape_of v = S_nullable_array t"
proof -
  note k = kind_shape_of_value [OF assms]
  show "kind_of_value v = primitive_kind t \<Longrightarrow> is_primitive t \<Longrightarrow> shape_of v = S_primitive t"
    using k by (cases t) simp_all
  show "kind_of_value v = nullable_kind t \<Longrightarrow> shape_of v = S_nullable t"
    using k by (cases t) simp_all
  show "kind_of_value v = array_kind t \<Longrightarrow> is_primitive t \<Longrightarrow> shape_of v = S_array t"
    using k by (cases t) simp_all
  show "kind_of_value v = nullable_array_kind t \<Longrightarrow> shape_of v = S_nullable_array t"
    using k by (cases t) simp_all
qed

lemma cast_shape:
  "shape_of v = S_primitive t \<Longrightarrow> \<exists>x. v = F_primitive x \<and> cast_primitive t v = Inr x"
  "shape_of v = S_nullable t \<Longrightarrow> \<exists>x. v = F_nullable t x \<and> cast_nullable t v = Inr x"
  "shape_of v = S_array t \<Longrightarrow> \<exists>x. v = F_array t x \<and> cast_array t v = Inr x"
  "shape_of v = S_nullable_array t \<Longrightarrow> \<exists>x. v = F_nullable_array t x \<and> cast_nullable_array t v = Inr x"
  by (cases v; simp)+

text \<open>What a builder has stored fits the schema it has or will make.\<close>

definition objects_typed :: "(hz_string \<times> 'r field_value) list \<Rightarrow> bool" where
  "objects_typed objects \<longleftrightarrow> distinct (map fst objects) \<and> (\<forall>(n, v) \<in> set objects. value_typed v)"

definition builder_ok :: "'r generic_record_builder \<Rightarrow> bool" where
  "builder_ok b \<longleftrightarrow> objects_typed (gb_objects b) \<and>
    (case gb_writer_or_schema b of
       Inl w \<Rightarrow> gb_strategy b = Default_Builder \<and>
         map (map_prod id fd_kind) (sw_fields w) = map (map_prod id kind_of_value) (gb_objects b)
     | Inr s \<Rightarrow> (gb_strategy b = Schema_Bounded \<and>
           (\<forall>(n, v) \<in> set (gb_objects b). get_field_kind s n = kind_of_value v)) \<or>
         (gb_strategy b = Cloner \<and> record_typed s (gb_objects b)))"

lemma get_field_kind_known:
  "get_field_kind s n \<noteq> FK_NOT_AVAILABLE \<Longrightarrow> n \<in> fst ` set (field_definition_map s)"
  by (auto simp: get_field_kind_def split: option.splits dest: map_of_SomeD intro: rev_image_eqI)

lemma map_of_None_iff: "map_of xs n = None \<longleftrightarrow> n \<notin> fst ` set xs"
  by (simp add: map_of_eq_None_iff)

lemma replace_object_names [simp]: "map fst (replace_object n v xs) = map fst xs"
  by (simp add: replace_object_def case_prod_beta comp_def)

lemma replace_object_set: "(m, w) \<in> set (replace_object n v xs) \<Longrightarrow> (m = n \<and> w = v) \<or> (m, w) \<in> set xs"
  by (auto simp: replace_object_def split: if_splits)

lemma check_type_kind: "check_type_with_schema s n k = Inr () \<Longrightarrow> get_field_kind s n = k"
  by (simp add: check_type_with_schema_def get_field_kind_def split: option.splits if_splits)

lemma record_typed_replace:
  assumes "record_typed s objects" "value_typed v" "get_field_kind s n = kind_of_value v"
  shows "record_typed s (replace_object n v objects)"
proof -
  have "fst ` set (replace_object n v objects) = fst ` set objects"
    using replace_object_names [of n v objects] by (metis list.set_map)
  then show ?thesis
    using assms unfolding record_typed_def
    by (auto dest!: replace_object_set simp: Ball_def)
qed

lemma record_typed_objects: "record_typed s objects \<Longrightarrow> objects_typed objects"
  by (auto simp: record_typed_def objects_typed_def)

lemma objects_typed_snoc:
  "objects_typed (objects @ [(n, v)]) \<longleftrightarrow> objects_typed objects \<and> value_typed v \<and> map_of objects n = None"
  by (auto simp: objects_typed_def map_of_None_iff)

lemma builder_write_ok:
  assumes "builder_ok b" "value_typed v" "builder_write name v b = Inr b'"
  shows "builder_ok b'"
proof (cases "gb_strategy b")
  case Default_Builder
  then obtain w where w: "gb_writer_or_schema b = Inl w"
    using assms(1) by (cases "gb_writer_or_schema b") (auto simp: builder_ok_def)
  obtain w' where w': "add_field name (kind_of_value v) w = Inr ((), w')" "map_of (gb_objects b) name = None"
    "b' = b\<lparr>gb_objects := gb_objects b @ [(name, v)], gb_writer_or_schema := Inl w'\<rparr>"
    using assms(3) Default_Builder w
    by (auto simp: builder_write_def check_strategy_def split: if_splits sum.splits)
  then have "sw_fields w' = sw_fields w @ [(name, make_field_descriptor (kind_of_value v))]"
    by (auto simp: add_field_def split: if_splits)
  then show ?thesis
    using assms(1,2) Default_Builder w w'
    by (simp add: builder_ok_def objects_typed_snoc make_field_descriptor_def)
next
  case Cloner
  then obtain s where s: "gb_writer_or_schema b = Inr s" "record_typed s (gb_objects b)"
    using assms(1) by (cases "gb_writer_or_schema b") (auto simp: builder_ok_def)
  have c: "check_type_with_schema s name (kind_of_value v) = Inr ()"
    "b' = b\<lparr>gb_overwritten_fields := name # gb_overwritten_fields b, gb_objects := replace_object name v (gb_objects b)\<rparr>"
    using assms(3) Cloner s(1) by (auto simp: builder_write_def check_strategy_def split: if_splits sum.splits)
  have "record_typed s (replace_object name v (gb_objects b))"
    using record_typed_replace [OF s(2) assms(2) check_type_kind [OF c(1)]] .
  then show ?thesis
    using c(2) Cloner s(1) record_typed_objects by (simp add: builder_ok_def)
next
  case Schema_Bounded
  then obtain s where s: "gb_writer_or_schema b = Inr s"
    "\<forall>(n, v) \<in> set (gb_objects b). get_field_kind s n = kind_of_value v"
    using assms(1) by (cases "gb_writer_or_schema b") (auto simp: builder_ok_def)
  have c: "check_type_with_schema s name (kind_of_value v) = Inr ()" "map_of (gb_objects b) name = None"
    "b' = b\<lparr>gb_objects := gb_objects b @ [(name, v)]\<rparr>"
    using assms(3) Schema_Bounded s(1)
    by (auto simp: builder_write_def check_strategy_def split: if_splits sum.splits)
  then show ?thesis
    using assms(1,2) s check_type_kind [OF c(1)] Schema_Bounded
    by (simp add: builder_ok_def objects_typed_snoc)
qed

lemma builder_writes_ok:
  assumes "builder_ok b" "list_all (\<lambda>(n, v). value_typed v) fs" "builder_writes fs b = Inr b'"
  shows "builder_ok b'"
  using assms
proof (induction fs b rule: builder_writes.induct)
  case (2 name v fs b)
  then obtain b1 where "builder_write name v b = Inr b1" "builder_writes fs b1 = Inr b'"
    by (auto split: sum.splits)
  then show ?case
    using 2 builder_write_ok [of b v name b1] by auto
qed simp

lemma build_schema_kinds:
  assumes "map (map_prod id fd_kind) (sw_fields w) = map (map_prod id kind_of_value) objects" "objects_typed objects"
  shows "record_typed (build_schema w) objects"
proof -
  have names: "map fst (sw_fields w) = map fst objects"
    using arg_cong [OF assms(1), of "map fst"] by simp
  then have d: "distinct (map fst (sw_fields w))"
    using assms(2) by (simp add: objects_typed_def)
  let ?m = "field_definition_map (build_schema w)"
  have k: "map (map_prod id fd_kind) ?m = map (map_prod id kind_of_value) objects"
    using make_schema_kinds [OF d] assms(1) by (simp add: build_schema_def)
  have n: "map fst ?m = map fst objects"
    using arg_cong [OF k, of "map fst"] by simp
  have "get_field_kind (build_schema w) n = kind_of_value v" if v: "(n, v) \<in> set objects" for n v
  proof -
    have "(n, kind_of_value v) \<in> set (map (map_prod id fd_kind) ?m)"
      unfolding k using v by force
    then obtain d where "(n, d) \<in> set ?m" "fd_kind d = kind_of_value v"
      by auto
    moreover have "distinct (map fst ?m)"
      using n assms(2) by (simp add: objects_typed_def)
    ultimately show ?thesis
      by (simp add: get_field_kind_def)
  qed
  moreover have "fst ` set objects = fst ` set ?m"
    using arg_cong [OF n, of set] by simp
  ultimately show ?thesis
    using assms(2) unfolding record_typed_def objects_typed_def by auto
qed

lemma builder_build_ok:
  assumes "builder_ok b" "builder_build b = Inr (rec, b')"
  shows "record_typed (gr_schema rec) (gr_objects rec)"
proof (cases "gb_writer_or_schema b")
  case (Inl w)
  then show ?thesis
    using assms build_schema_kinds [of w "gb_objects b"] by (auto simp: builder_ok_def builder_build_def Let_def)
next
  case (Inr s)
  then consider "gb_strategy b = Cloner" "record_typed s (gb_objects b)"
    | "gb_strategy b = Schema_Bounded" "\<forall>(n, v) \<in> set (gb_objects b). get_field_kind s n = kind_of_value v"
    using assms(1) by (auto simp: builder_ok_def)
  then show ?thesis
  proof cases
    case 1
    then show ?thesis
      using assms(2) Inr by (auto simp: builder_build_def Let_def)
  next
    case 2
    then have rec: "rec = Generic_Record s (gb_objects b)"
      "\<forall>(n, d) \<in> set (field_definition_map s). n \<in> fst ` set (gb_objects b)"
      using assms(2) Inr by (auto simp: builder_build_def Let_def list_ex_iff map_of_None_iff split: if_splits)
    have t: "objects_typed (gb_objects b)"
      using assms(1) by (simp add: builder_ok_def)
    have "fst ` set (gb_objects b) \<subseteq> fst ` set (field_definition_map s)"
    proof
      fix n
      assume "n \<in> fst ` set (gb_objects b)"
      then obtain v where "(n, v) \<in> set (gb_objects b)"
        by auto
      then have "get_field_kind s n = kind_of_value v" "value_typed v"
        using 2(2) t by (auto simp: objects_typed_def)
      then show "n \<in> fst ` set (field_definition_map s)"
        using kind_of_value_known [of v] by (intro get_field_kind_known) simp
    qed
    then show ?thesis
      using rec t 2(2) by (auto simp: record_typed_def objects_typed_def)
  qed
qed

section \<open>The getters of a typed record\<close>

lemma kind_shapes:
  "is_primitive t \<Longrightarrow> kind_shape (primitive_kind t) = Some (S_primitive t)"
  "kind_shape (nullable_kind t) = Some (S_nullable t)"
  "is_primitive t \<Longrightarrow> kind_shape (array_kind t) = Some (S_array t)"
  "kind_shape (nullable_array_kind t) = Some (S_nullable_array t)"
  by (cases t; simp)+

lemma check_kinds_cases:
  "check_kinds s name kinds = Inl HazelcastSerialization \<or>
   (check_kinds s name kinds = Inr (get_field_kind s name) \<and> get_field_kind s name \<in> set kinds \<and>
    name \<in> fst ` set (field_definition_map s))"
  by (auto simp: check_kinds_def get_field_kind_def split: option.splits dest: map_of_SomeD intro: rev_image_eqI)

lemma object_typed:
  assumes "record_typed s objects" "name \<in> fst ` set (field_definition_map s)"
  obtains v where "object_at objects name = Inr v" "value_typed v" "get_field_kind s name = kind_of_value v"
proof -
  have "name \<in> fst ` set objects"
    using assms by (simp add: record_typed_def)
  then obtain v where v: "map_of objects name = Some v"
    using map_of_None_iff [of objects name] by auto
  then have "(name, v) \<in> set objects"
    by (rule map_of_SomeD)
  then have "value_typed v" "get_field_kind s name = kind_of_value v"
    using assms(1) by (auto simp: record_typed_def)
  then show ?thesis
    using that v by (simp add: object_at_def)
qed

definition adopteds_ok :: "schema \<Rightarrow> 'r adopteds \<Rightarrow> bool" where
  "adopteds_ok s adopteds \<longleftrightarrow> (\<forall>(n, a) \<in> set adopteds. value_typed a \<and>
    (case shape_of a of
       S_array t \<Rightarrow> get_field_kind s n = nullable_array_kind t
     | S_nullable_array t \<Rightarrow> get_field_kind s n = array_kind t \<and> is_primitive t
     | _ \<Rightarrow> False))"

lemma adopteds_okD:
  assumes "adopteds_ok s adopteds" "map_of adopteds name = Some a"
  shows "value_typed a"
    and "is_primitive t \<Longrightarrow> get_field_kind s name = nullable_array_kind t \<Longrightarrow> shape_of a = S_array t"
    and "is_primitive t \<Longrightarrow> get_field_kind s name = array_kind t \<Longrightarrow> shape_of a = S_nullable_array t"
proof -
  have a: "value_typed a" "case shape_of a of S_array t \<Rightarrow> get_field_kind s name = nullable_array_kind t
     | S_nullable_array t \<Rightarrow> get_field_kind s name = array_kind t \<and> is_primitive t | _ \<Rightarrow> False"
    using assms map_of_SomeD [OF assms(2)] by (auto simp: adopteds_ok_def)
  show "value_typed a" by (rule a)
  consider (arr) u where "shape_of a = S_array u" "kind_shape (get_field_kind s name) = Some (S_nullable_array u)"
    | (nul) u where "shape_of a = S_nullable_array u" "kind_shape (get_field_kind s name) = Some (S_array u)"
    using a(2) kind_shapes(3,4) by (cases "shape_of a") auto
  note c = this
  show "is_primitive t \<Longrightarrow> get_field_kind s name = nullable_array_kind t \<Longrightarrow> shape_of a = S_array t"
    using kind_shapes(4) [of t] by (rule_tac c) simp_all
  show "is_primitive t \<Longrightarrow> get_field_kind s name = array_kind t \<Longrightarrow> shape_of a = S_nullable_array t"
    using kind_shapes(3) [of t] by (rule_tac c) simp_all
qed

definition getter_ok :: "field_shape \<Rightarrow> schema \<Rightarrow> ('r field_value \<times> 'r adopteds) res \<Rightarrow> bool" where
  "getter_ok shape s r = (case r of
     Inl e \<Rightarrow> e = HazelcastSerialization
   | Inr (v, adopteds) \<Rightarrow> shape_of v = shape \<and> value_typed v \<and> adopteds_ok s adopteds)"

lemma get_non_null_ok:
  assumes "record_typed s objects" "adopteds_ok s adopteds" "is_primitive t"
  shows "getter_ok (S_primitive t) s (get_value s objects (S_primitive t) name adopteds)"
proof (cases "check_kinds s name [primitive_kind t, nullable_kind t]")
  case (Inl e)
  then show ?thesis
    using check_kinds_cases [of s name "[primitive_kind t, nullable_kind t]"] by (auto simp: getter_ok_def get_non_null_def getter_defs)
next
  case (Inr k)
  then have k: "k = get_field_kind s name" "k = primitive_kind t \<or> k = nullable_kind t" "name \<in> fst ` set (field_definition_map s)"
    using check_kinds_cases [of s name "[primitive_kind t, nullable_kind t]"] by auto
  obtain v where v: "object_at objects name = Inr v" "value_typed v" "get_field_kind s name = kind_of_value v"
    by (rule object_typed [OF assms(1) k(3)])
  show ?thesis
  proof (cases "k = nullable_kind t")
    case True
    then have "shape_of v = S_nullable t"
      using shape_of_kind(2) [OF v(2), of t] v(3) k(1) by simp
    from cast_shape(2) [OF this] obtain x where "v = F_nullable t x" "cast_nullable t v = Inr x"
      by blast
    then show ?thesis
      using Inr True v assms by (cases x) (simp_all add: getter_ok_def get_non_null_def getter_defs)
  next
    case False
    then have "shape_of v = S_primitive t"
      using shape_of_kind(1) [OF v(2), of t] v(3) k assms(3) by simp
    from cast_shape(1) [OF this] obtain x where x: "v = F_primitive x" "cast_primitive t v = Inr x"
      by blast
    then have "item_type_of x = t"
      using \<open>shape_of v = S_primitive t\<close> by simp
    then show ?thesis
      using Inr False v x assms by (simp add: getter_ok_def get_non_null_def getter_defs)
  qed
qed

lemma gr_get_ok:
  assumes "record_typed s objects" "gr_get s objects name kind cast = Inl e"
    "\<And>v. value_typed v \<Longrightarrow> kind_of_value v = kind \<Longrightarrow> \<exists>x. cast v = Inr x"
  shows "e = HazelcastSerialization"
proof (cases "check_kinds s name [kind]")
  case (Inl e')
  then show ?thesis
    using check_kinds_cases [of s name "[kind]"] assms(2) by (auto simp: gr_get_def)
next
  case (Inr k)
  then have k: "get_field_kind s name = kind" "name \<in> fst ` set (field_definition_map s)"
    using check_kinds_cases [of s name "[kind]"] by auto
  obtain v where v: "object_at objects name = Inr v" "value_typed v" "get_field_kind s name = kind_of_value v"
    by (rule object_typed [OF assms(1) k(2)])
  then show ?thesis
    using assms(2) assms(3) [OF v(2)] Inr k by (auto simp: gr_get_def)
qed

lemma gr_get_Inr:
  assumes "record_typed s objects" "gr_get s objects name kind cast = Inr x"
  obtains v where "value_typed v" "kind_of_value v = kind" "cast v = Inr x"
proof -
  obtain k where k: "check_kinds s name [kind] = Inr k"
    using assms(2) by (cases "check_kinds s name [kind]") (simp_all add: gr_get_def)
  then have "get_field_kind s name = kind" "name \<in> fst ` set (field_definition_map s)"
    using check_kinds_cases [of s name "[kind]"] by auto
  with object_typed [OF assms(1) this(2)] that assms(2) k show ?thesis
    by (metis bind_res_simps(2) gr_get_def)
qed

lemma gr_get_nullable_ok:
  assumes "record_typed s objects" "adopteds_ok s adopteds"
  shows "getter_ok (S_nullable t) s (get_value s objects (S_nullable t) name adopteds)"
proof (cases "gr_get s objects name (nullable_kind t) (cast_nullable t)")
  case (Inl e)
  have "e = HazelcastSerialization"
    using shape_of_kind(2) [of _ t] cast_shape(2) [of _ t] by (intro gr_get_ok [OF assms(1) Inl]) blast
  then show ?thesis
    using Inl by (simp add: getter_ok_def getter_defs)
next
  case (Inr x)
  from gr_get_Inr [OF assms(1) this] obtain v where v: "value_typed v" "kind_of_value v = nullable_kind t"
    "cast_nullable t v = Inr x" .
  then have "v = F_nullable t x"
    using cast_shape(2) [OF shape_of_kind(2) [OF v(1,2)]] by auto
  then show ?thesis
    using Inr v(1) assms(2) by (simp add: getter_ok_def getter_defs)
qed

lemma gr_get_nullable_array_ok:
  assumes "record_typed s objects" "adopteds_ok s adopteds" "\<not> is_primitive t"
  shows "getter_ok (S_nullable_array t) s (get_value s objects (S_nullable_array t) name adopteds)"
proof (cases "gr_get s objects name (nullable_array_kind t) (cast_nullable_array t)")
  case (Inl e)
  have "e = HazelcastSerialization"
    using shape_of_kind(4) [of _ t] cast_shape(4) [of _ t] by (intro gr_get_ok [OF assms(1) Inl]) blast
  then show ?thesis
    using Inl assms(3) by (simp add: getter_ok_def getter_defs)
next
  case (Inr x)
  from gr_get_Inr [OF assms(1) this] obtain v where v: "value_typed v" "kind_of_value v = nullable_array_kind t"
    "cast_nullable_array t v = Inr x" .
  then have "v = F_nullable_array t x"
    using cast_shape(4) [OF shape_of_kind(4) [OF v(1,2)]] by auto
  then show ?thesis
    using Inr v(1) assms(2,3) by (simp add: getter_ok_def getter_defs)
qed

lemma adopteds_ok_snoc:
  "adopteds_ok s (adopteds @ [(n, a)]) \<longleftrightarrow> adopteds_ok s adopteds \<and> adopteds_ok s [(n, a)]"
  by (auto simp: adopteds_ok_def)

lemma typed_items:
  "pred_option (list_all (pred_option P)) (Some vs) \<Longrightarrow> None \<notin> set vs \<Longrightarrow> list_all P (map the vs)"
  "list_all (pred_option P) (map Some ps) \<longleftrightarrow> list_all P ps"
proof -
  show "pred_option (list_all (pred_option P)) (Some vs) \<Longrightarrow> None \<notin> set vs \<Longrightarrow> list_all P (map the vs)"
  proof (induction vs)
    case (Cons v vs)
    then show ?case
      by (cases v) simp_all
  qed simp
qed (simp add: list_all_iff)

lemma get_array_of_primitive_ok:
  assumes "record_typed s objects" "adopteds_ok s adopteds" "is_primitive t"
  shows "getter_ok (S_array t) s (get_value s objects (S_array t) name adopteds)"
proof (cases "check_kinds s name [array_kind t, nullable_array_kind t]")
  case (Inl e)
  then show ?thesis
    using check_kinds_cases [of s name "[array_kind t, nullable_array_kind t]"]
    by (auto simp: getter_ok_def get_array_of_primitive_def getter_defs sbind_def)
next
  case (Inr k)
  then have k: "k = get_field_kind s name" "k = array_kind t \<or> k = nullable_array_kind t" "name \<in> fst ` set (field_definition_map s)"
    using check_kinds_cases [of s name "[array_kind t, nullable_array_kind t]"] by auto
  obtain v where v: "object_at objects name = Inr v" "value_typed v" "get_field_kind s name = kind_of_value v"
    by (rule object_typed [OF assms(1) k(3)])
  show ?thesis
  proof (cases "k = nullable_array_kind t")
    case True
    show ?thesis
    proof (cases "map_of adopteds name")
      case None
      obtain x where x: "v = F_nullable_array t x" "cast_nullable_array t v = Inr x"
        using cast_shape(4) [OF shape_of_kind(4) [OF v(2)]] True k(1) v(3) by metis
      have ad: "adopteds_ok s (adopteds @ [(name, F_array t y)])" if "value_typed (F_array t y)" for y
        using that assms(2) True k(1) by (simp add: adopteds_ok_snoc) (simp add: adopteds_ok_def)
      have "list_all (\<lambda>x. item_type_of x = t) (map the vs)" if "x = Some vs" "None \<notin> set vs" for vs
        using v(2) x(1) that by (intro typed_items(1)) simp_all
      then show ?thesis
        using Inr True None v x assms(3) ad
        by (cases x) (simp_all add: getter_ok_def get_array_of_primitive_def getter_defs sbind_def Let_def)
    next
      case (Some a)
      obtain x where "a = F_array t x" "cast_array t a = Inr x"
        using cast_shape(3) [OF adopteds_okD(2) [OF assms(2) Some assms(3)]] True k(1) by auto
      then show ?thesis
        using Inr True Some assms(2) adopteds_okD(1) [OF assms(2) Some]
        by (simp add: getter_ok_def get_array_of_primitive_def getter_defs sbind_def)
    qed
  next
    case False
    then have "shape_of v = S_array t"
      using shape_of_kind(3) [OF v(2), of t] v(3) k assms(3) by simp
    from cast_shape(3) [OF this] obtain x where "v = F_array t x" "cast_array t v = Inr x"
      by blast
    then show ?thesis
      using Inr False v assms by (simp add: getter_ok_def get_array_of_primitive_def getter_defs sbind_def)
  qed
qed

lemma get_array_of_nullable_ok:
  assumes "record_typed s objects" "adopteds_ok s adopteds" "is_primitive t"
  shows "getter_ok (S_nullable_array t) s (get_value s objects (S_nullable_array t) name adopteds)"
proof (cases "check_kinds s name [array_kind t, nullable_array_kind t]")
  case (Inl e)
  then show ?thesis
    using check_kinds_cases [of s name "[array_kind t, nullable_array_kind t]"] assms(3)
    by (auto simp: getter_ok_def get_array_of_nullable_def getter_defs sbind_def)
next
  case (Inr k)
  then have k: "k = get_field_kind s name" "k = array_kind t \<or> k = nullable_array_kind t" "name \<in> fst ` set (field_definition_map s)"
    using check_kinds_cases [of s name "[array_kind t, nullable_array_kind t]"] by auto
  obtain v where v: "object_at objects name = Inr v" "value_typed v" "get_field_kind s name = kind_of_value v"
    by (rule object_typed [OF assms(1) k(3)])
  show ?thesis
  proof (cases "k = array_kind t")
    case True
    show ?thesis
    proof (cases "map_of adopteds name")
      case None
      obtain x where x: "v = F_array t x" "cast_array t v = Inr x"
        using cast_shape(3) [OF shape_of_kind(3) [OF v(2)]] True k(1) v(3) assms(3) by metis
      have "value_typed (F_nullable_array t (map_option (map Some) x))"
        using v(2) x(1) by (cases x) (simp_all add: typed_items(2))
      moreover from this have "adopteds_ok s (adopteds @ [(name, F_nullable_array t (map_option (map Some) x))])"
        using assms(2,3) True k(1) by (simp add: adopteds_ok_snoc) (simp add: adopteds_ok_def)
      ultimately show ?thesis
        using Inr True None v x assms(3) by (simp add: getter_ok_def get_array_of_nullable_def getter_defs sbind_def Let_def)
    next
      case (Some a)
      obtain x where "a = F_nullable_array t x" "cast_nullable_array t a = Inr x"
        using cast_shape(4) [OF adopteds_okD(3) [OF assms(2) Some assms(3)]] True k(1) by auto
      then show ?thesis
        using Inr True Some assms(2,3) adopteds_okD(1) [OF assms(2) Some]
        by (simp add: getter_ok_def get_array_of_nullable_def getter_defs sbind_def)
    qed
  next
    case False
    then have "shape_of v = S_nullable_array t"
      using shape_of_kind(4) [OF v(2), of t] v(3) k by simp
    from cast_shape(4) [OF this] obtain x where "v = F_nullable_array t x" "cast_nullable_array t v = Inr x"
      by blast
    then show ?thesis
      using Inr False v assms by (simp add: getter_ok_def get_array_of_nullable_def getter_defs sbind_def)
  qed
qed

fun shape_ok :: "field_shape \<Rightarrow> bool" where
  "shape_ok (S_primitive t) \<longleftrightarrow> is_primitive t"
| "shape_ok (S_array t) \<longleftrightarrow> is_primitive t"
| "shape_ok _ \<longleftrightarrow> True"

lemma get_value_ok:
  assumes "record_typed s objects" "adopteds_ok s adopteds" "shape_ok shape"
  shows "getter_ok shape s (get_value s objects shape name adopteds)"
proof (cases shape)
  case (S_nullable_array t)
  then show ?thesis
    using get_array_of_nullable_ok [OF assms(1,2)] gr_get_nullable_array_ok [OF assms(1,2)] by blast
qed (use assms get_non_null_ok gr_get_nullable_ok get_array_of_primitive_ok in \<open>auto simp del: get_value.simps is_primitive.simps\<close>)

lemma new_builders_ok:
  "builder_ok (new_default_builder type_name)" "builder_ok (new_schema_bounded_builder s)"
  "record_typed (gr_schema r) (gr_objects r) \<Longrightarrow> builder_ok (new_builder_with_clone r)"
  by (simp_all add: builder_ok_def objects_typed_def new_default_builder_def new_schema_bounded_builder_def
      new_builder_with_clone_def new_cloner_def)
     (auto simp: record_typed_def)

text \<open>
  C37. Records are typed.  Whatever setters are called on a builder, whichever of its three strategies it
  has, the record it builds holds a value of the type of its kind for every field of its schema and for
  no other name.  Every getter of the record, called with any name and in any order with the others,
  returns a value of the type it promises or raises \<open>hazelcast_serialization\<close>: no \<open>any_cast\<close> fails and no
  name is looked up in vain.  The values a getter has converted and kept fit the getter that reads them.
\<close>

theorem built_records_are_typed:
  assumes "b = new_default_builder type_name \<or> b = new_schema_bounded_builder s \<or>
      (b = new_builder_with_clone r0 \<and> record_typed (gr_schema r0) (gr_objects r0))"
    "list_all (\<lambda>(n, v). value_typed v) fs" "builder_writes fs b = Inr b'" "builder_build b' = Inr (r, b'')"
    "adopteds_ok (gr_schema r) adopteds" "shape_ok shape"
  shows "record_typed (gr_schema r) (gr_objects r) \<and>
    getter_ok shape (gr_schema r) (get_value (gr_schema r) (gr_objects r) shape name adopteds)"
proof -
  have "builder_ok b"
    using assms(1) new_builders_ok by blast
  then have t: "record_typed (gr_schema r) (gr_objects r)"
    using builder_build_ok [OF builder_writes_ok [OF _ assms(2,3)] assms(4)] by blast
  then show ?thesis
    using get_value_ok [OF t assms(5,6)] by blast
qed

definition sample_sets :: "(hz_string \<times> generic_record field_value) list" where
  "sample_sets = [([97], F_primitive (I_int32 7)), ([98], F_nullable_array IT_bool (Some [Some (I_bool True), None]))]"

definition sample_record :: generic_record where
  "sample_record = Generic_Record (make_schema [84] [([97], make_field_descriptor FK_INT32),
    ([98], make_field_descriptor FK_ARRAY_OF_NULLABLE_BOOLEAN)]) sample_sets"

theorem built_records_are_typed_witness:
  "record_typed (gr_schema sample_record) (gr_objects sample_record) \<and>
    getter_ok (S_array IT_bool) (gr_schema sample_record)
      (get_value (gr_schema sample_record) (gr_objects sample_record) (S_array IT_bool) [98] [])"
proof -
  let ?b = "\<lparr>gb_strategy = Default_Builder, gb_already_built = False, gb_overwritten_fields = [], gb_objects = sample_sets,
     gb_writer_or_schema = Inl \<lparr>sw_type_name = [84], sw_fields = [([97], make_field_descriptor FK_INT32),
       ([98], make_field_descriptor FK_ARRAY_OF_NULLABLE_BOOLEAN)]\<rparr>\<rparr>"
  have w: "builder_writes sample_sets (new_default_builder [84]) = Inr ?b"
    by (simp add: sample_sets_def new_default_builder_def builder_write_def check_strategy_def add_field_def)
  have b: "builder_build ?b = Inr (sample_record, ?b\<lparr>gb_already_built := True, gb_objects := []\<rparr>)"
    by (simp add: builder_build_def sample_record_def build_schema_def)
  show ?thesis
    by (rule built_records_are_typed [OF disjI1 [OF refl] _ w b])
       (simp_all add: sample_sets_def adopteds_ok_def)
qed

end
