(* ===== verification/Generic_Roundtrip.thy ===== *)
theory Generic_Roundtrip
  imports Generic_Record
begin

text \<open>
  Generic records on the wire: what \<open>compact_stream_serializer\<close> writes of a record, with the records
  nested in it to any depth, it reads back.

  The writer of a record gets the records nested in it as their writers, so that its recursion is
  structural; the reader has a bound on the depth of the nesting, and \<open>record_codes\<close> shows by induction on
  the record that its own depth is enough.
\<close>

section \<open>Reading what is stored\<close>

lemma get_value_stored:
  assumes "map_of (field_definition_map s) n = Some d" "fd_kind d = kind_of_value v" "value_typed v"
    "map_of objects n = Some v"
  shows "get_value s objects (shape_of v) n adopteds = Inr (v, adopteds)"
proof -
  have c: "check_kinds s n kinds = Inr (kind_of_value v)" if "kind_of_value v \<in> set kinds" for kinds
    using assms(1,2) that by (simp add: check_kinds_def)
  have o: "object_at objects n = Inr v"
    using assms(4) by (simp add: object_at_def)
  show ?thesis
  proof (cases v)
    case (F_primitive x)
    then show ?thesis
      using c [of "[primitive_kind (item_type_of x), nullable_kind (item_type_of x)]"] o assms(3)
        kinds_apart(1) [of "item_type_of x"]
      by (simp add: get_non_null_def getter_defs del: is_primitive.simps)
  next
    case (F_nullable t x)
    then show ?thesis
      using c [of "[nullable_kind t]"] o by (simp add: gr_get_def getter_defs)
  next
    case (F_array t x)
    then show ?thesis
      using c [of "[array_kind t, nullable_array_kind t]"] o assms(3) kinds_apart(2) [of t]
      by (simp add: get_array_of_primitive_def getter_defs sbind_def del: is_primitive.simps)
  next
    case (F_nullable_array t x)
    then show ?thesis
      using c [of "[array_kind t, nullable_array_kind t]"] c [of "[nullable_array_kind t]"] o kinds_apart(2) [of t]
      by (simp add: get_array_of_nullable_def getter_defs sbind_def gr_get_def del: is_primitive.simps)
  qed
qed

section \<open>Nested records as their writers\<close>

lemma map_item_type [simp]: "item_type_of (map_item f x) = item_type_of x"
  by (cases x) simp_all

lemma map_value_kind [simp]:
  "kind_of_value (map_field_value f v) = kind_of_value v" "shape_of (map_field_value f v) = shape_of v"
  by (cases v; simp)+

lemma map_value_typed: "value_typed (map_field_value f v) = value_typed v"
  by (cases v) (simp_all add: option.pred_map list.pred_map comp_def)

lemma write_item_map [simp]: "write_item L id (map_item f x) = write_item L f x"
  by (cases x) simp_all

lemma siter_map: "siter g (map f xs) = siter (\<lambda>x. g (f x)) xs"
  by (induction xs) simp_all

lemma write_items_map: "write_items g k (map (map_option f) xs) = write_items (\<lambda>x. g (f x)) k xs"
proof (induction xs)
  case (Cons x xs)
  then show ?case
    by (cases x) (simp_all only: list.map option.map write_items.simps)
qed simp

lemma write_vector_map: "write_vector g (map f xs) = write_vector (\<lambda>x. g (f x)) xs"
  unfolding write_vector_def length_map siter_map ..

lemma write_field_map: "write_field L id s n (map_field_value f v) = write_field L f s n v"
proof (cases v)
  case (F_primitive x)
  then show ?thesis
    by (cases x) simp_all
next
  case (F_nullable t x)
  then show ?thesis
    by (cases x) (simp_all add: write_nullable_def write_variable_size_field_def)
next
  case (F_array t x)
  have "item_bool (map_item f y) = item_bool y" for y
    by (cases y) simp_all
  then show ?thesis
    using F_array by (cases x) (simp_all add: write_array_def write_variable_size_field_def write_array_value_def
        write_vector_map comp_def)
next
  case (F_nullable_array t x)
  then show ?thesis
    by (cases x) (simp_all add: write_nullable_array_def write_array_of_variable_size_def write_item_array_def
        write_items_map)
qed

lemma siter_cong_zip:
  assumes "length xs = length ys" "\<And>i. i < length xs \<Longrightarrow> f (xs ! i) = g (ys ! i)"
  shows "siter f xs = siter g ys"
  using assms
proof (induction xs ys rule: list_induct2)
  case (Cons x xs y ys)
  have "f x = g y"
    using Cons.prems [of 0] by simp
  moreover have "siter f xs = siter g ys"
    using Cons.prems [of "Suc _"] by (intro Cons.IH) simp
  ultimately show ?case
    by simp
qed simp

text \<open>A record lists its values in the order of the fields of its schema, each with the kind of its
  field.\<close>

definition objects_fit :: "schema \<Rightarrow> (hz_string \<times> 'r field_value) list \<Rightarrow> bool" where
  "objects_fit s objects \<longleftrightarrow> map fst objects = map fst (field_definition_map s) \<and> distinct (map fst objects)"

lemma objects_fit_nth:
  assumes "objects_fit s objects" "i < length objects"
  shows "fst (field_definition_map s ! i) = fst (objects ! i)"
    "map_of (field_definition_map s) (fst (objects ! i)) = Some (snd (field_definition_map s ! i))"
    "map_of objects (fst (objects ! i)) = Some (snd (objects ! i))"
proof -
  have m: "map fst objects = map fst (field_definition_map s)" "distinct (map fst objects)"
    using assms(1) unfolding objects_fit_def by blast+
  have l: "length (field_definition_map s) = length objects"
    using arg_cong [OF m(1), of length] by simp
  have "map fst objects ! i = map fst (field_definition_map s) ! i"
    using m(1) by simp
  then show e: "fst (field_definition_map s ! i) = fst (objects ! i)"
    using assms(2) l by simp
  have "field_definition_map s ! i \<in> set (field_definition_map s)"
    using assms(2) l by simp
  then have "(fst (objects ! i), snd (field_definition_map s ! i)) \<in> set (field_definition_map s)"
    using e by (simp flip: e)
  then show "map_of (field_definition_map s) (fst (objects ! i)) = Some (snd (field_definition_map s ! i))"
    using m by (simp flip: m(1))
  have "(fst (objects ! i), snd (objects ! i)) \<in> set objects"
    using assms(2) by simp
  then show "map_of objects (fst (objects ! i)) = Some (snd (objects ! i))"
    using m(2) by simp
qed

lemma value_ok_typed:
  assumes "value_ok L nested v"
  shows "value_typed v"
proof (cases v)
  case (F_nullable_array t x)
  then show ?thesis
    using assms by (auto elim!: option.pred_mono_strong list.pred_mono_strong)
qed (use assms in \<open>auto elim!: option.pred_mono_strong list.pred_mono_strong simp del: is_primitive.simps\<close>)

lemma write_fields_from_record:
  assumes "objects_fit s objects" "fields_ok L nested s objects"
  shows "siter (write_field_from_record L s (map (map_prod id (map_field_value f)) objects)) (field_definition_map s) =
    siter (\<lambda>(n, v). write_field L f s n v) objects"
proof (rule siter_cong_zip)
  let ?o = "map (map_prod id (map_field_value f)) objects"
  have "map fst objects = map fst (field_definition_map s)"
    using assms(1) by (simp add: objects_fit_def)
  from arg_cong [OF this, of length] show l: "length (field_definition_map s) = length objects"
    by simp
  fix i
  assume "i < length (field_definition_map s)"
  then have i: "i < length objects"
    using l by simp
  obtain n v where nv: "objects ! i = (n, v)"
    by force
  note fit = objects_fit_nth [OF assms(1) i, unfolded nv fst_conv snd_conv]
  let ?d = "snd (field_definition_map s ! i)"
  have m: "(n, v) \<in> set objects"
    using i nv by (metis nth_mem)
  have d: "fd_kind ?d = kind_of_value (map_field_value f v)"
    using fields_okD(2) [OF assms(2) m] fit(2) by simp
  have t: "value_typed (map_field_value f v)"
    using value_ok_typed [OF fields_okD(1) [OF assms(2) m]] by (simp add: map_value_typed)
  have "map_of ?o n = Some (map_field_value f v)"
    using fit(3) by (simp add: map_prod_def map_of_map comp_def case_prod_beta)
  from get_value_stored [OF fit(2) d t this]
  have "write_field_from_record L s ?o (field_definition_map s ! i) = write_field L id s n (map_field_value f v)"
    using kind_shape_of_value [OF t] d fit(1) by (simp add: write_field_from_record_def)
  then show "write_field_from_record L s ?o (field_definition_map s ! i) = (case objects ! i of (n, v) \<Rightarrow> write_field L f s n v)"
    by (simp add: nv write_field_map)
qed

section \<open>Reading the fields into a builder\<close>

definition field_readable :: "cpp_int_lib \<Rightarrow> 's din \<Rightarrow> schema \<Rightarrow> compact_reader \<Rightarrow> ('r \<Rightarrow> 's) \<Rightarrow> data_input \<Rightarrow>
    hz_string \<times> 'r field_value \<Rightarrow> bool" where
  "field_readable L rd s r view inp f \<longleftrightarrow> value_typed (snd f) \<and>
    (\<exists>d. map_of (field_definition_map s) (fst f) = Some d \<and> fd_kind d = kind_of_value (snd f)) \<and>
    read_field L rd s r (shape_of (snd f)) (fst f) inp = Inr (value_view view (snd f), inp)"

lemma builder_write_next:
  assumes "map_of (field_definition_map s) n = Some d" "fd_kind d = kind_of_value v" "n \<notin> fst ` set objects"
  shows "builder_write n v ((new_schema_bounded_builder s)\<lparr>gb_objects := objects\<rparr>) =
    Inr ((new_schema_bounded_builder s)\<lparr>gb_objects := objects @ [(n, v)]\<rparr>)"
  using assms map_of_None_iff [of objects n]
  by (simp add: builder_write_def check_strategy_def check_type_with_schema_def new_schema_bounded_builder_def)

definition viewed :: "('r \<Rightarrow> 's) \<Rightarrow> (hz_string \<times> 'r field_value) list \<Rightarrow> (hz_string \<times> 's field_value) list" where
  "viewed view objects = map (map_prod id (value_view view)) objects"

lemma read_fields_all:
  assumes "list_all (field_readable L rd s r view inp) todo" "map fst todo = map fst fs"
    "\<forall>(n, d) \<in> set fs. map_of (field_definition_map s) n = Some d" "distinct (map fst (done @ todo))"
  shows "read_fields L rd s r fs ((new_schema_bounded_builder s)\<lparr>gb_objects := viewed view done\<rparr>) inp =
    Inr ((new_schema_bounded_builder s)\<lparr>gb_objects := viewed view (done @ todo)\<rparr>, inp)"
  using assms
proof (induction todo arbitrary: fs "done")
  case (Cons f todo)
  obtain n v where f: "f = (n, v)"
    by force
  obtain d fs' where fs: "fs = (n, d) # fs'" "map fst todo = map fst fs'"
    using Cons.prems(2) f by (cases fs) auto
  have d: "map_of (field_definition_map s) n = Some d" "fd_kind d = kind_of_value v" "value_typed v"
    "read_field L rd s r (shape_of v) n inp = Inr (value_view view v, inp)"
    using Cons.prems(1,3) fs(1) f by (auto simp: field_readable_def)
  let ?b = "\<lambda>os. (new_schema_bounded_builder s)\<lparr>gb_objects := viewed view os\<rparr>"
  have "fst ` set (viewed view done) = set (map fst done)"
    by (simp add: viewed_def image_image)
  then have "n \<notin> fst ` set (viewed view done)"
    using Cons.prems(4) f by simp
  from builder_write_next [OF d(1) _ this, of "value_view view v"]
  have w: "builder_set n (value_view view v) (?b done) = Inr (?b (done @ [f]))"
    using d(2) f by (simp add: viewed_def)
  have "read_fields L rd s r fs' (?b (done @ [f])) inp = Inr (?b ((done @ [f]) @ todo), inp)"
    using Cons.prems fs f by (intro Cons.IH) simp_all
  then show ?case
    using d w kind_shape_of_value [OF d(3)] fs(1) by simp
qed simp

lemma build_all:
  assumes "fst ` set objects = fst ` set (field_definition_map s)"
  shows "\<exists>b. builder_build ((new_schema_bounded_builder s)\<lparr>gb_objects := objects\<rparr>) = Inr (Generic_Record s objects, b)"
proof -
  have "map_of objects n \<noteq> None" if "(n, d) \<in> set (field_definition_map s)" for n d
    using that assms map_of_None_iff [of objects n] by force
  then show ?thesis
    by (auto simp: builder_build_def new_schema_bounded_builder_def Let_def list_ex_iff)
qed

section \<open>Records within records\<close>

fun item_nested :: "'r item \<Rightarrow> 'r list" where
  "item_nested (I_compact r) = [r]"
| "item_nested _ = []"

definition option_nested :: "'r item option \<Rightarrow> 'r list" where
  "option_nested x = (case x of None \<Rightarrow> [] | Some y \<Rightarrow> item_nested y)"

fun value_nested :: "'r field_value \<Rightarrow> 'r list" where
  "value_nested (F_primitive x) = item_nested x"
| "value_nested (F_nullable t x) = option_nested x"
| "value_nested (F_array t x) = (case x of None \<Rightarrow> [] | Some vs \<Rightarrow> concat (map item_nested vs))"
| "value_nested (F_nullable_array t x) = (case x of None \<Rightarrow> [] | Some vs \<Rightarrow> concat (map option_nested vs))"

lemma item_nested_props [simp]:
  "set (item_nested x) = set_item x" "item_nested (map_item f x) = map f (item_nested x)"
  by (cases x; simp)+

lemma option_nested_props [simp]:
  "set (option_nested z) = (\<Union>x \<in> set_option z. set_item x)"
  "option_nested (map_option (map_item f) z) = map f (option_nested z)"
  by (cases z; simp add: option_nested_def)+

lemma value_nested_props [simp]:
  "set (value_nested v) = set_field_value v" "value_nested (map_field_value f v) = map f (value_nested v)"
proof -
  show "set (value_nested v) = set_field_value v"
  proof (cases v)
    case (F_nullable_array t x)
    then show ?thesis by (cases x) auto
  qed (auto split: option.splits simp: option_nested_def)
  show "value_nested (map_field_value f v) = map f (value_nested v)"
  proof (cases v)
    case (F_array t x)
    then show ?thesis by (cases x) (simp_all add: map_concat comp_def)
  next
    case (F_nullable_array t x)
    then show ?thesis by (cases x) (simp_all add: map_concat comp_def)
  qed simp_all
qed

primrec record_depth :: "generic_record \<Rightarrow> nat" where
  "record_depth (Generic_Record s objects) = Suc (foldr max (concat (map value_nested
    (map snd (map (map_prod id (map_field_value record_depth)) objects)))) 0)"

text \<open>An upper bound of the bytes a record takes.\<close>

primrec record_size :: "cpp_int_lib \<Rightarrow> generic_record \<Rightarrow> nat" where
  "record_size L (Generic_Record s objects) = 12 + fixed_size_fields_length s + 4 * number_of_var_size_fields s +
    sum_list (map (value_size L) (map snd (map (map_prod id (map_field_value (record_size L))) objects)))"

text \<open>An array without elements is lost, unless it is of truth values.\<close>

fun lose_empty :: "'r field_value \<Rightarrow> 'r field_value" where
  "lose_empty (F_array t (Some [])) = (if t = IT_bool then F_array t (Some []) else F_array t None)"
| "lose_empty v = v"

primrec record_view :: "generic_record \<Rightarrow> generic_record" where
  "record_view (Generic_Record s objects) =
    Generic_Record s (map (map_prod id lose_empty) (map (map_prod id (map_field_value record_view)) objects))"

text \<open>A record that can be sent: its schema and those of the records within it are known to the schema
  service and lay out their fields apart, and its values have the kinds of their fields.\<close>

primrec record_ok :: "cpp_int_lib \<Rightarrow> (i64 \<Rightarrow> schema option) \<Rightarrow> generic_record \<Rightarrow> bool" where
  "record_ok L service (Generic_Record s objects) \<longleftrightarrow> service (schema_id s) = Some s \<and> schema_fits s \<and>
    objects_fit s objects \<and>
    fields_ok L id s (map (map_prod id (map_field_value (record_ok L service))) objects)"

lemma value_view_lose_empty: "value_view view v = lose_empty (map_field_value view v)"
proof (cases v)
  case (F_array t x)
  show ?thesis
  proof (cases x)
    case (Some vs)
    then show ?thesis
      using F_array by (cases vs) (simp_all add: array_view_def)
  qed (simp add: F_array)
qed simp_all

lemma foldr_max_le: "foldr max xs (0 :: nat) \<le> n \<longleftrightarrow> (\<forall>x \<in> set xs. x \<le> n)"
  by (induction xs) auto

lemma depth_nested:
  assumes "record_depth (Generic_Record s objects) \<le> Suc n" "(m, v) \<in> set objects" "r \<in> set_field_value v"
  shows "record_depth r \<le> n"
proof -
  have "record_depth r \<in> set (concat (map value_nested (map snd (map (map_prod id (map_field_value record_depth)) objects))))"
    using assms(2,3) by (auto simp: comp_def intro!: bexI [of _ "(m, v)"])
  then show ?thesis
    using assms(1) unfolding record_depth.simps Suc_le_mono foldr_max_le by blast
qed

lemma item_ok_map: "item_ok L id (map_item g x) = item_ok L g x"
  by (cases x) simp_all

lemma value_ok_map: "value_ok L id (map_field_value g v) = value_ok L g v"
  by (cases v) (simp_all add: option.pred_map list.pred_map comp_def item_ok_map del: is_primitive.simps)

lemma fields_ok_map: "fields_ok L id s (map (map_prod id (map_field_value g)) objects) = fields_ok L g s objects"
proof -
  have "(\<forall>(n, v) \<in> set (map (map_prod id (map_field_value g)) objects). P n v) \<longleftrightarrow>
      (\<forall>(n, v) \<in> set objects. P n (map_field_value g v))" for P
    by auto
  then show ?thesis
    by (simp add: fields_ok_def value_ok_map comp_def cong: option.case_cong)
qed

lemma item_ok_mono:
  "item_ok L N x \<Longrightarrow> (\<And>r. r \<in> set_item x \<Longrightarrow> N r \<Longrightarrow> N' r) \<Longrightarrow> item_ok L N' x"
  by (cases x) auto

lemma value_ok_mono:
  assumes "value_ok L N v" "\<And>r. r \<in> set_field_value v \<Longrightarrow> N r \<Longrightarrow> N' r"
  shows "value_ok L N' v"
proof -
  have i: "item_ok L N' x" if "item_ok L N x" "set_item x \<subseteq> set_field_value v" for x
    using item_ok_mono [OF that(1)] that(2) assms(2) by blast
  show ?thesis
  proof (cases v)
    case (F_nullable t x)
    then show ?thesis
      using assms(1) i by (auto elim!: option.pred_mono_strong)
  next
    case (F_array t x)
    have "set_item y \<subseteq> set_field_value v" if "x = Some vs" "y \<in> set vs" for y vs
      using that F_array by auto
    then show ?thesis
      using assms(1) i F_array by (cases x) (auto elim!: list.pred_mono_strong simp del: is_primitive.simps)
  next
    case (F_nullable_array t x)
    have "set_item y \<subseteq> set_field_value v" if "x = Some vs" "Some y \<in> set vs" for y vs
      using that F_nullable_array by force
    then show ?thesis
      using assms(1) i F_nullable_array
      by (cases x) (auto elim!: list.pred_mono_strong option.pred_mono_strong)
  qed (use assms(1) in simp)
qed

lemma fields_ok_mono:
  assumes "fields_ok L N s objects" "\<And>n v r. (n, v) \<in> set objects \<Longrightarrow> r \<in> set_field_value v \<Longrightarrow> N r \<Longrightarrow> N' r"
  shows "fields_ok L N' s objects"
  unfolding fields_ok_def
proof (intro conjI ballI, goal_cases)
  case 1
  then show ?case using assms(1) by (simp add: fields_ok_def)
next
  case (2 f)
  obtain n v where f: "f = (n, v)" by force
  have "value_ok L N' v"
    using fields_okD(1) [OF assms(1)] 2 f assms(2) by (blast intro: value_ok_mono)
  then show ?case
    using assms(1) 2 f by (auto simp: fields_ok_def)
qed

lemma record_codes:
  "record_ok L service r \<Longrightarrow> record_depth r \<le> fuel \<Longrightarrow>
    nested_codes order (write_generic_record L) (read_generic_record fuel L service) record_view (record_size L) r"
proof (induction r arbitrary: fuel)
  case (Generic_Record s objects)
  obtain n where fuel: "fuel = Suc n"
    using Generic_Record.prems(2) by (cases fuel) simp_all
  let ?wr = "write_generic_record L" and ?rd = "read_generic_record n L service"
  let ?N = "nested_codes order ?wr ?rd record_view (record_size L)"
  have s: "service (schema_id s) = Some s" "schema_fits s" "objects_fit s objects" "fields_ok L (record_ok L service) s objects"
    using Generic_Record.prems(1) by (simp_all add: fields_ok_map)
  have ok: "fields_ok L ?N s objects"
  proof (rule fields_ok_mono [OF s(4)])
    fix m v r
    assume a: "(m, v) \<in> set objects" "r \<in> set_field_value v" "record_ok L service r"
    have "record_depth r \<le> n"
      using depth_nested [OF _ a(1,2)] Generic_Record.prems(2) fuel by blast
    then show "?N r"
      using Generic_Record.IH [OF a(1) _ a(2,3)] by (simp add: snds.simps)
  qed
  obtain F V offs where 1: "length F = fixed_size_fields_length s" "length offs = number_of_var_size_fields s"
    "length V \<le> fields_size L (record_size L) objects" "number_of_var_size_fields s = 0 \<longrightarrow> V = []"
    "appends order (write_with_schema s (siter (\<lambda>(n, v). write_field L ?wr s n v) objects))
      (order_bytes order 8 (schema_id s) @ record_bytes order s F V offs)"
    "holds order L ?rd record_view s F V offs objects"
    using record_image [OF s(2) ok] by (elim exE conjE) (rule that)
  let ?bs = "order_bytes order 8 (schema_id s) @ record_bytes order s F V offs"
  have w: "appends order (?wr (Generic_Record s objects)) ?bs"
    using 1(5) write_fields_from_record [OF s(3) ok] by simp
  have d: "decodes order (read_generic_record fuel L service) ?bs (record_view (Generic_Record s objects))"
    unfolding decodes_def
  proof (intro allI impI)
    fix xs ys :: "byte list"
    let ?ys = "record_bytes order s F V offs @ ys" and ?xs = "xs @ order_bytes order 8 (schema_id s)"
    let ?buf = "?xs @ ?ys"
    assume l: "length xs + length ?bs + length ys < 2 ^ 31"
    let ?r = "reader_at (length ?xs) s F V" and ?e = "length ?xs + length (record_bytes order s F V offs)"
    have lb: "length ?buf < 2 ^ 31"
      using l by simp
    have id: "read_int64 (in_at order ?buf (length xs)) = Inr (schema_id s, in_at order ?buf (length ?xs))"
      using decodesD [OF int64.decodes_fetch [OF TrueI], of xs order "schema_id s" ?ys] l by simp
    have rs: "make_compact_reader s (in_at order ?buf (length ?xs)) = Inr (?r, in_at order ?buf ?e)"
      by (rule reader_start [OF 1(1,2,4) refl lb])
    have rf: "field_readable L ?rd s ?r record_view (in_at order ?buf ?e) f" if f: "f \<in> set objects" for f
    proof -
      obtain m v where m: "f = (m, v)" by force
      obtain e where e: "map_of (field_definition_map s) m = Some e" "fd_kind e = kind_of_value v" "value_ok L ?N v"
        "field_in order L ?rd F V offs e (value_view record_view v)"
        using fields_okD [OF ok, of m v] 1(6) f m by (auto simp: holds_def)
      have "field_fits (length F) (length offs) e"
        using schema_fitsD(1) [OF s(2) e(1)] 1(1,2) by simp
      then have "read_field L ?rd s ?r (shape_of v) m (in_at order ?buf ?e) =
          Inr (value_view record_view v, in_at order ?buf ?e)"
        by (intro read_field_at [OF 1(1,2) refl lb _ e(1,2) _ e(3,4)]) simp_all
      then show ?thesis
        using e value_ok_typed [OF e(3)] m by (simp add: field_readable_def)
    qed
    have names: "map fst objects = map fst (field_definition_map s)" "distinct (map fst objects)"
      using s(3) unfolding objects_fit_def by blast+
    then have dm: "\<forall>(n, d) \<in> set (field_definition_map s). map_of (field_definition_map s) n = Some d"
      by simp
    have fr: "read_fields L ?rd s ?r (field_definition_map s) (new_schema_bounded_builder s) (in_at order ?buf ?e) =
        Inr ((new_schema_bounded_builder s)\<lparr>gb_objects := viewed record_view objects\<rparr>, in_at order ?buf ?e)"
      using read_fields_all [of L ?rd s ?r record_view "in_at order ?buf ?e" objects "field_definition_map s" "[]"]
        rf names dm by (simp add: list_all_iff viewed_def new_schema_bounded_builder_def)
    have "fst ` set (viewed record_view objects) = fst ` set (field_definition_map s)"
      using arg_cong [OF names(1), of set] by (simp add: viewed_def image_image)
    from build_all [OF this] obtain b where
      b: "builder_build ((new_schema_bounded_builder s)\<lparr>gb_objects := viewed record_view objects\<rparr>) =
        Inr (Generic_Record s (viewed record_view objects), b)"
      by blast
    have v: "record_view (Generic_Record s objects) = Generic_Record s (viewed record_view objects)"
      by (simp add: viewed_def value_view_lose_empty map_prod_def comp_def case_prod_beta)
    show "read_generic_record fuel L service (in_at order (xs @ ?bs @ ys) (length xs)) =
        Inr (record_view (Generic_Record s objects), in_at order (xs @ ?bs @ ys) (length xs + length ?bs))"
      unfolding v fuel using id rs fr b s(1) by (simp add: add.assoc)
  qed
  have sz: "record_size L (Generic_Record s objects) =
      12 + fixed_size_fields_length s + 4 * number_of_var_size_fields s + fields_size L (record_size L) objects"
    by (simp add: fields_size_def comp_def case_prod_unfold)
  have "length (table_bytes order (length F + length V) offs) \<le> 4 * number_of_var_size_fields s"
    using 1(2) length_table [of order "length F + length V" offs] offset_width_cases [of "int (length F + length V)"]
    by auto
  then have "length ?bs \<le> record_size L (Generic_Record s objects)"
    unfolding sz using 1(1,3) by (simp add: record_bytes_def)
  moreover have "?bs \<noteq> []"
    by (simp flip: length_greater_0_conv)
  ultimately show ?case
    unfolding nested_codes_def using w d by (intro exI [of _ ?bs]) simp
qed


text \<open>A record with a record of the same schema in it, in a field that comes before the others.\<close>

definition node_fields :: "(hz_string \<times> field_descriptor) list" where
  "node_fields = [([99], make_field_descriptor FK_COMPACT), ([97], make_field_descriptor FK_INT32),
    ([116], make_field_descriptor FK_ARRAY_OF_INT16)]"

definition node_schema :: schema where
  "node_schema = make_schema [84] node_fields"

definition leaf_node :: generic_record where
  "leaf_node = Generic_Record node_schema [([99], F_nullable IT_compact None), ([97], F_primitive (I_int32 8)),
    ([116], F_array IT_int16 (Some []))]"

definition root_node :: generic_record where
  "root_node = Generic_Record node_schema [([99], F_nullable IT_compact (Some (I_compact leaf_node))),
    ([97], F_primitive (I_int32 7)), ([116], F_array IT_int16 (Some [I_int16 1, I_int16 2]))]"

lemma node_schema_ok:
  "schema_fits node_schema" "map fst (field_definition_map node_schema) = [[99], [97], [116]]"
  "fixed_size_fields_length node_schema = 4" "number_of_var_size_fields node_schema = 2"
proof -
  show "schema_fits node_schema"
    unfolding node_schema_def
    by (rule make_schema_fits) (simp_all add: node_fields_def is_boolean_def is_variable_size_def make_field_descriptor_def)
  show "map fst (field_definition_map node_schema) = [[99], [97], [116]]"
    by (simp add: node_schema_def node_fields_def)
  have "snd (schema_layout (sort_key fst node_fields)) = (4, 2)"
    by code_simp
  then show "fixed_size_fields_length node_schema = 4" "number_of_var_size_fields node_schema = 2"
    by (simp_all add: node_schema_def make_schema_sizes)
qed

lemma nodes_ok: "record_ok L (\<lambda>_. Some node_schema) leaf_node" "record_ok L (\<lambda>_. Some node_schema) root_node"
proof -
  have f: "fields_ok L nested node_schema fs" if "distinct (map fst fs)" "\<forall>(n, v) \<in> set fs. value_ok L nested v \<and>
      (case map_of node_fields n of None \<Rightarrow> False | Some d \<Rightarrow> fd_kind d = kind_of_value v)" for nested fs
    unfolding node_schema_def using that by (intro fields_ok_make_schema) (simp_all add: node_fields_def)
  show leaf: "record_ok L (\<lambda>_. Some node_schema) leaf_node"
    unfolding leaf_node_def record_ok.simps
    by (intro conjI f) (simp_all add: node_schema_ok objects_fit_def node_fields_def make_field_descriptor_def)
  show "record_ok L (\<lambda>_. Some node_schema) root_node"
    unfolding root_node_def record_ok.simps
    by (intro conjI f) (simp_all add: leaf node_schema_ok objects_fit_def node_fields_def make_field_descriptor_def)
qed


end
