(* ===== verification/Schema_Service.thy ===== *)
theory Schema_Service
  imports Compact_Schema
begin

text \<open>
  The schema service (\<open>default_schema_service\<close> in \<open>compact.cpp\<close>, \<open>SynchronizedMap.h\<close>): the schemas the
  client knows to be in the cluster, by their ids.

  The answers of the cluster are arguments: \<open>cluster\<close> is what a request for a schema returns, and
  \<open>attempt\<close> is what one attempt to send a schema meets, the members the response names, the members of the
  cluster at that time, and whether the client is still running after the pause.
\<close>

section \<open>The map\<close>

type_synonym ('k, 'v) sync_map = "('k \<times> 'v) list"

definition sm_get :: "'k \<Rightarrow> ('k, 'v) sync_map \<Rightarrow> 'v option" where
  "sm_get key m = map_of m key"

definition sm_put_if_absent :: "'k \<Rightarrow> 'v \<Rightarrow> ('k, 'v) sync_map \<Rightarrow> 'v option \<times> ('k, 'v) sync_map" where
  "sm_put_if_absent key v m = (case map_of m key of Some w \<Rightarrow> (Some w, m) | None \<Rightarrow> (None, (key, v) # m))"

definition sm_values :: "('k, 'v) sync_map \<Rightarrow> 'v list" where
  "sm_values m = map snd m"

section \<open>The service\<close>

type_synonym replicateds = "(i64, schema) sync_map"

definition service_get :: "(i64 \<Rightarrow> schema option res) \<Rightarrow> i64 \<Rightarrow> (replicateds, schema option) sm" where
  "service_get cluster schemaId reps =
    (case sm_get schemaId reps of
       Some s \<Rightarrow> Inr (Some s, reps)
     | None \<Rightarrow> (case cluster schemaId of
         Inl e \<Rightarrow> Inl e
       | Inr None \<Rightarrow> Inr (None, reps)
       | Inr (Some s) \<Rightarrow> Inr (Some s, snd (sm_put_if_absent schemaId s reps))))"

definition is_schema_replicated :: "schema \<Rightarrow> replicateds \<Rightarrow> bool" where
  "is_schema_replicated s reps \<longleftrightarrow> sm_get (schema_id s) reps \<noteq> None"

definition service_put_if_absent :: "schema \<Rightarrow> (replicateds, unit) sm" where
  "service_put_if_absent s reps =
    (case sm_put_if_absent (schema_id s) s reps of
       (None, reps') \<Rightarrow> Inr ((), reps')
     | (Some existing, reps') \<Rightarrow> if schema_eq s existing then Inr ((), reps') else Inl IllegalState)"

definition has_any_schemas :: "replicateds \<Rightarrow> bool" where
  "has_any_schemas reps \<longleftrightarrow> reps \<noteq> []"

text \<open>The schemas that are sent after a reconnection; nothing is sent when there are none.\<close>

definition replicate_all_schemas :: "replicateds \<Rightarrow> schema list option" where
  "replicate_all_schemas reps = (if reps = [] then None else Some (sm_values reps))"

record 'm attempt =
  at_failure :: "hz_error option"
  at_replicated :: "'m list"
  at_members :: "'m list"
  at_running :: bool

text \<open>The inner loop over the members.  Its result is the variable \<open>contains\<close> after the loop, \<open>None\<close> when
  it has not been assigned, unless the loop throws or returns.\<close>

datatype scan = Scan_end "bool option" | Scan_throw | Scan_return

fun scan_members :: "bool \<Rightarrow> bool \<Rightarrow> 'm list \<Rightarrow> bool option \<Rightarrow> 'm list \<Rightarrow> scan" where
  "scan_members is_last running replicated_members contains [] = Scan_end contains"
| "scan_members is_last running replicated_members contains (m # ms) =
    (if m \<in> set replicated_members then scan_members is_last running replicated_members (Some True) ms
     else if is_last then Scan_throw
     else if \<not> running then Scan_return
     else Scan_end (Some False))"

text \<open>The loop over the attempts; the second argument is the number of attempts that are left.\<close>

fun replicate_attempts :: "(nat \<Rightarrow> 'm attempt) \<Rightarrow> nat \<Rightarrow> nat \<Rightarrow> schema \<Rightarrow> (replicateds, unit) sm" where
  "replicate_attempts env i 0 s reps = Inr ((), reps)"
| "replicate_attempts env i (Suc left) s reps =
    (case at_failure (env i) of
       Some e \<Rightarrow> Inl e
     | None \<Rightarrow>
        (case scan_members (left = 0) (at_running (env i)) (at_replicated (env i)) None (at_members (env i)) of
           Scan_throw \<Rightarrow> Inl IllegalState
         | Scan_return \<Rightarrow> Inr ((), reps)
         | Scan_end None \<Rightarrow> Inl UndefinedBehaviour
         | Scan_end (Some True) \<Rightarrow> service_put_if_absent s reps
         | Scan_end (Some False) \<Rightarrow> replicate_attempts env (Suc i) left s reps))"

definition replicate_schema_in_cluster :: "(nat \<Rightarrow> 'm attempt) \<Rightarrow> int \<Rightarrow> schema \<Rightarrow> (replicateds, unit) sm" where
  "replicate_schema_in_cluster env max_put_retry_count s = replicate_attempts env 0 (nat max_put_retry_count) s"

section \<open>Looking a schema up\<close>

text \<open>What the service answers is a function of the id that looking up does not change.\<close>

definition known_schema :: "(i64 \<Rightarrow> schema option res) \<Rightarrow> replicateds \<Rightarrow> i64 \<Rightarrow> schema option res" where
  "known_schema cluster reps schemaId = (case map_of reps schemaId of None \<Rightarrow> cluster schemaId | Some s \<Rightarrow> Inr (Some s))"

lemma service_get_value:
  "service_get cluster schemaId reps =
    (case known_schema cluster reps schemaId of
       Inl e \<Rightarrow> Inl e
     | Inr a \<Rightarrow> Inr (a, case a of None \<Rightarrow> reps | Some s \<Rightarrow> snd (sm_put_if_absent schemaId s reps)))"
  by (auto simp: service_get_def known_schema_def sm_get_def sm_put_if_absent_def split: option.splits sum.splits)

lemma service_get_known:
  "service_get cluster schemaId reps = Inr (a, reps') \<Longrightarrow> known_schema cluster reps' = known_schema cluster reps"
  by (rule ext)
    (auto simp: service_get_def known_schema_def sm_get_def sm_put_if_absent_def split: option.splits sum.splits if_splits)

section \<open>Replicating a schema\<close>

definition complete :: "'m attempt \<Rightarrow> bool" where
  "complete a \<longleftrightarrow> set (at_members a) \<subseteq> set (at_replicated a)"

lemma scan_members_complete:
  "scan_members is_last running reps c ms =
    (if set ms \<subseteq> set reps then Scan_end (if ms = [] then c else Some True)
     else if is_last then Scan_throw else if running then Scan_end (Some False) else Scan_return)"
proof (induction ms arbitrary: c)
  case (Cons m ms)
  then show ?case
    by (cases is_last; cases running) simp_all
qed simp

text \<open>One attempt, with the members that have the schema at hand.\<close>

lemma replicate_attempts_step:
  assumes "at_members (env i) \<noteq> []" "at_failure (env i) = None"
  shows "replicate_attempts env i (Suc left) s reps =
    (if complete (env i) then service_put_if_absent s reps
     else if left = 0 then Inl IllegalState
     else if at_running (env i) then replicate_attempts env (Suc i) left s reps
     else Inr ((), reps))"
  using assms by (simp add: scan_members_complete complete_def)

lemma replicate_attempts_outcome:
  assumes "\<And>j. i \<le> j \<Longrightarrow> j < i + left \<Longrightarrow> at_failure (env j) = None \<and> at_members (env j) \<noteq> []" "0 < left"
  shows "replicate_attempts env i left s reps =
    (if \<exists>k. i \<le> k \<and> k < i + left \<and> complete (env k) \<and> (\<forall>j. i \<le> j \<and> j < k \<longrightarrow> \<not> complete (env j) \<and> at_running (env j))
     then service_put_if_absent s reps
     else if \<forall>k. i \<le> k \<and> k < i + left \<longrightarrow> \<not> complete (env k) \<and> (Suc k < i + left \<longrightarrow> at_running (env k))
     then Inl IllegalState
     else Inr ((), reps))"
  using assms
proof (induction left arbitrary: i)
  case (Suc left)
  have step: "replicate_attempts env i (Suc left) s reps =
    (if complete (env i) then service_put_if_absent s reps
     else if left = 0 then Inl IllegalState
     else if at_running (env i) then replicate_attempts env (Suc i) left s reps
     else Inr ((), reps))"
    using Suc.prems by (intro replicate_attempts_step) auto
  show ?case
  proof (cases "complete (env i) \<or> left = 0 \<or> \<not> at_running (env i)")
    case True
    consider (whole) "complete (env i)" | (last_one) "\<not> complete (env i)" "left = 0"
      | (stopped) "\<not> complete (env i)" "left \<noteq> 0" "\<not> at_running (env i)"
      using True by blast
    then show ?thesis
    proof cases
      case whole
      then show ?thesis
        unfolding step by (auto intro!: exI [of _ i])
    next
      case last_one
      then show ?thesis
        unfolding step by (auto simp: le_less_Suc_eq)
    next
      case stopped
      then have "\<not> (\<exists>k. i \<le> k \<and> k < i + Suc left \<and> complete (env k) \<and>
          (\<forall>j. i \<le> j \<and> j < k \<longrightarrow> \<not> complete (env j) \<and> at_running (env j)))"
        by (metis le_neq_implies_less order_refl)
      moreover have "\<not> (\<forall>k. i \<le> k \<and> k < i + Suc left \<longrightarrow> \<not> complete (env k) \<and> (Suc k < i + Suc left \<longrightarrow> at_running (env k)))"
        using stopped by (intro notI) (drule spec [of _ i], simp)
      ultimately show ?thesis
        unfolding step by (simp only: stopped if_False if_True)
    qed
  next
    case False
    have r: "(i \<le> k \<and> k < i + Suc left) \<longleftrightarrow> (k = i \<or> (Suc i \<le> k \<and> k < Suc i + left))" for k
      by auto
    have "replicate_attempts env (Suc i) left s reps =
      (if \<exists>k. Suc i \<le> k \<and> k < Suc i + left \<and> complete (env k) \<and>
          (\<forall>j. Suc i \<le> j \<and> j < k \<longrightarrow> \<not> complete (env j) \<and> at_running (env j))
       then service_put_if_absent s reps
       else if \<forall>k. Suc i \<le> k \<and> k < Suc i + left \<longrightarrow> \<not> complete (env k) \<and> (Suc k < Suc i + left \<longrightarrow> at_running (env k))
       then Inl IllegalState
       else Inr ((), reps))"
      using False Suc.prems by (intro Suc.IH) auto
    moreover have "(\<exists>k. i \<le> k \<and> k < i + Suc left \<and> complete (env k) \<and>
        (\<forall>j. i \<le> j \<and> j < k \<longrightarrow> \<not> complete (env j) \<and> at_running (env j))) \<longleftrightarrow>
      (\<exists>k. Suc i \<le> k \<and> k < Suc i + left \<and> complete (env k) \<and>
        (\<forall>j. Suc i \<le> j \<and> j < k \<longrightarrow> \<not> complete (env j) \<and> at_running (env j)))"
      using False by (metis (no_types, lifting) Suc_leD Suc_leI add_Suc_right add_Suc le_neq_implies_less)
    moreover have "(\<forall>k. i \<le> k \<and> k < i + Suc left \<longrightarrow> \<not> complete (env k) \<and> (Suc k < i + Suc left \<longrightarrow> at_running (env k))) \<longleftrightarrow>
      (\<forall>k. Suc i \<le> k \<and> k < Suc i + left \<longrightarrow> \<not> complete (env k) \<and> (Suc k < Suc i + left \<longrightarrow> at_running (env k)))"
      using False r by (metis add_Suc_shift)
    moreover have "\<not> complete (env i)" "left \<noteq> 0" "at_running (env i)"
      using False by simp_all
    ultimately show ?thesis
      unfolding step by (simp only: if_False if_True)
  qed
qed simp

text \<open>
  With no members in the list the variable \<open>contains\<close> is read without having been assigned.
\<close>

lemma replicate_without_members:
  assumes "0 < max_put_retry_count" "at_failure (env 0) = None" "at_members (env 0) = []"
  shows "replicate_schema_in_cluster env max_put_retry_count s reps = Inl UndefinedBehaviour"
  using assms by (cases "nat max_put_retry_count") (auto simp: replicate_schema_in_cluster_def)

text \<open>A schema that has been recorded is found without asking the cluster.\<close>

lemma service_get_recorded:
  "service_put_if_absent s reps = Inr ((), reps') \<Longrightarrow>
    \<exists>s'. service_get cluster (schema_id s) reps' = Inr (Some s', reps') \<and> (s' = s \<or> schema_eq s s')"
  by (auto simp: service_put_if_absent_def service_get_def sm_get_def sm_put_if_absent_def
      split: option.splits if_splits)



end
