(* ===== verification/Spec2Isabelle.thy ===== *)
theory Spec2Isabelle
  imports Exception_Factory Message_Builder Call_Id Invocation_Errors Backup_Race Compact_Object Generic_Roundtrip Schema_Service
begin

text \<open>
  Verification of the Hazelcast C++ client: the path of a request from the caller to the socket and
  of its response back, and the data that travels on it.

  \<^bold>\<open>Parts of the program and how they interact.\<close>  A proxy turns a call into a \<open>ClientMessage\<close>: a chain
  of byte buffers holding frames, written by the setters of \<open>ClientMessage.h\<close> and by the codecs.
  Values in it are serialized (\<open>serialization::pimpl::data\<close>), with a partition hash that
  \<open>ClientPartitionServiceImpl\<close> maps to a partition and its owner; compact values refer to a \<open>schema\<close>
  with a layout and a fingerprint.  A \<open>ClientInvocation\<close> takes an identifier from a
  \<open>CallIdSequence\<close>, is entered into the table of \<open>ClientInvocationServiceImpl\<close> and is written to a
  connection.  Bytes that come back are collected in a \<open>ByteBuffer\<close> and cut into messages by
  \<open>ReadHandler\<close> and \<open>ClientMessageBuilder\<close>; \<open>ClientResponseHandler\<close> looks up the invocation and either
  completes it, waits for the acknowledgements of backups, or decodes the errors with \<open>ErrorCodec\<close>,
  builds an exception with \<open>ClientExceptionFactory\<close> and retries or fails the invocation.

  \<^bold>\<open>Theories\<close> (paths below \<open>src/hazelcast/src/hazelcast\<close> and \<open>src/hazelcast/include/hazelcast\<close>).

  \<^item> \<open>HZ_Prelude\<close>: machine types, errors, the state and error monad, byte order; the locale
    \<open>fixed_width\<close> of integers with a byte image.
  \<^item> \<open>Byte_Buffer\<close>: \<open>util::ByteBuffer\<close> (\<open>util/util.cpp\<close>): position, limit and capacity, reads and
    writes, \<open>flip\<close> and \<open>compact\<close>.
  \<^item> \<open>Util_Numeric\<close>: hashing and bit counting (\<open>util/util.cpp\<close>) and the back-off strategy
    (\<open>util/concurrent/BackoffIdleStrategy.h\<close>).
  \<^item> \<open>Compact_Schema\<close>: \<open>schema\<close>, \<open>schema_writer\<close> and \<open>rabin_finger_print\<close> (\<open>client/compact.cpp\<close>).
  \<^item> \<open>Heap_Data\<close>: \<open>data\<close> (\<open>client/serialization.cpp\<close>) and the partition table (\<open>client/spi.cpp\<close>).
  \<^item> \<open>Client_Message\<close>: buffers, pointers and header of \<open>ClientMessage\<close> (\<open>client/protocol.cpp\<close>), and the
    calculus of what a program appends to a message (\<open>emits\<close>) and reads from it (\<open>reads\<close>).
  \<^item> \<open>Message_Codecs\<close>: getters and setters of \<open>client/protocol/ClientMessage.h\<close>; the locales
    \<open>frame_reader\<close> and \<open>frame_codec\<close> of items that occupy whole frames.
  \<^item> \<open>Message_Types\<close>: the structures of the protocol, with the frames a newer member may append.
  \<^item> \<open>Data_IO\<close>: the byte streams \<open>data_output\<close> and \<open>data_input\<close> under every serializer and the codecs of
    dates and times; the locale \<open>io_codec\<close> of a writer with its reader.
  \<^item> \<open>Compact_IO\<close>: \<open>default_compact_writer\<close> and \<open>compact_reader\<close> (\<open>client/compact.cpp\<close>,
    \<open>compact_impl.h\<close>), every method of every kind; \<open>Compact_Roundtrip\<close>: single values, arrays and the
    table of offsets; \<open>Compact_Record\<close>: the image of a whole record and its fields in any order.
  \<^item> \<open>Compact_Object\<close>: objects of user classes, their schemas and \<open>compact_stream_serializer\<close>.
  \<^item> \<open>Generic_Record\<close>: \<open>generic_record\<close> and \<open>generic_record_builder\<close>; \<open>Generic_Roundtrip\<close>: their
    serialization, with nested records.
  \<^item> \<open>Schema_Service\<close>: \<open>default_schema_service\<close>, the schemas known to be in the cluster.
  \<^item> \<open>Big_Decimal\<close>: arbitrary precision integers and decimals (\<open>client/client_impl.cpp\<close>).
  \<^item> \<open>Exception_Factory\<close>: \<open>ClientExceptionFactory\<close> and the exception classes.
  \<^item> \<open>Message_Builder\<close>: \<open>fill_message_from\<close>, \<open>ClientMessageBuilder\<close>, \<open>ReadHandler\<close> and the completion
    of a socket read.
  \<^item> \<open>Call_Id\<close>: the call id sequences and back pressure (\<open>client/spi.cpp\<close>); the locale \<open>call_ids\<close> is the
    contract the invocations rely on.
  \<^item> \<open>Invocation\<close>: \<open>ClientInvocation\<close>, \<open>ClientInvocationServiceImpl\<close> and
    \<open>ClientResponseHandler::process_response\<close> (\<open>client/spi.cpp\<close>).
  \<^item> \<open>Invocation_Invariant\<close>: the invariant of the invocation service over all histories.
  \<^item> \<open>Backup_Race\<close>: \<open>notify_response\<close> and \<open>notify_backup\<close> at the level of their atomic accesses.
  \<^item> \<open>Invocation_Errors\<close>: error paths and races of invocations.

  \<^bold>\<open>How code and model correspond.\<close>  A class is a \<open>record\<close> with its members, an enumeration a
  \<open>datatype\<close>, a member function a function of the state in the monad \<open>sm\<close>: it returns an error, or a
  result and the new state.  Integers are words of their width; \<open>size_t\<close> is a natural number with its
  wrap-around written out.  An exception is an error value; where the program distinguishes
  exceptions, it is a \<open>hz_exception\<close> with its class and causes.  A failing \<open>assert\<close> is \<open>AssertFailure\<close>,
  undefined behaviour (a null pointer, an access outside a buffer, a shift by 64) is
  \<open>UndefinedBehaviour\<close>.  Loops over data are structural; a loop whose end depends on the bytes read is
  a \<open>partial_function\<close> whose value \<open>None\<close> means that it does not end, and the theorems say for which
  inputs it ends.  Fuel is used once: \<open>read_generic_record\<close> descends into nested records, its first
  argument bounds the depth, and the theorem shows that the depth of the record is enough.

  \<^bold>\<open>What the theorems show.\<close>
  Wire formats: what the setters write the getters read back, exactly to the end of the item,
  with nested lists, nullable items and frames appended by newer members; the places where this
  fails are stated too.  Reassembly: the messages handed over are those of the byte stream however
  it is cut into reads.  Schemas: fields do not overlap, the layout does not depend on the
  iteration order, the table-driven fingerprint is the bitwise one; a schema is recorded as
  replicated only when every member has it.  Compact serialization: an object or a generic record is
  read back as it was written whatever the order of the reads, no offset is taken for the mark of
  an absent value, and records built by any sequence of setters are typed.  Partitions: identifiers are in
  range and the table keeps the newest version.  Invocations: no identifier is reused, no
  invocation is lost and every slot is accounted for in all histories of events that are handled
  one after the other; the response and the acknowledgements of backups complete an invocation under
  every interleaving; the interleaving of a closed connection with a response that waits does not.
  Bounds: waiting for a slot ends, the limit of concurrent invocations is exceeded by at most the
  number of concurrent callers less one, and the retry delay is defined for the first 68
  invocations only.

  \<^bold>\<open>Parameters.\<close>  The connection manager, the partition table as seen by an invocation, the lifecycle
  service and the clock are the record \<open>env\<close> of answers during one call.  What other threads do while a
  caller waits for a slot is the list of its observations.  \<open>boost::multiprecision::cpp_int\<close> is the
  record \<open>cpp_int_lib\<close> with the documented laws of import and export.  The serializer of a user class is
  the list of fields it writes, the schema service a function of the identifier, and the answers of the
  cluster to a schema are a sequence of attempts.  The text an optional string prints is an
  argument of the exception factory.

  \<^bold>\<open>Not modelled.\<close>  Sockets, TLS and discovery are input and output.  The generated codecs call the
  setters and getters in the order of the protocol definition.  Proxies forward calls to codecs.
  Logging, statistics and metrics do not change the state of the parts above.  Generic records
  are neither compared nor rendered as JSON: both need the semantics of floating point numbers, which
  are bit images here.  Portable and
  identified serialization, near caches, transactions, SQL, the CP subsystem and the configuration
  parsers are listed in the manifest with their status.
\<close>

end
